(* ===== verification/Prelude.thy ===== *)
theory Prelude
  imports Main "HOL-Library.Word"
begin

text \<open>
  What every component shares: the machine integers of \<^verbatim>\<open>lib/stdint.h\<close>, the
  outcomes of a kernel routine (a value, or the reason why it does not return one), the sequencing
  of such routines, accesses to C arrays with their bounds, and the generic facts on words and
  lists that the component proofs rest on.

  A C object that is accessed by index (a byte buffer, the bytes of a bitmap) is a list. An access
  outside of it has no meaning in C; here it is the outcome \<open>Out_of_bounds\<close>, so that the absence of
  such accesses is a statement about the model.
\<close>

unbundle bit_operations_syntax

section \<open>Integers\<close>

type_synonym u8 = "8 word"
type_synonym u16 = "16 word"
type_synonym u32 = "32 word"
type_synonym u64 = "64 word"

section \<open>Outcomes\<close>

text \<open>
  \<open>Assert_failed\<close> and \<open>Exception\<close> are the two uses of \<^verbatim>\<open>exception_report\<close>
  (\<^verbatim>\<open>kernel/debug.c\<close>): the message is printed with interrupts closed and the kernel loops
  for ever. \<open>Out_of_bounds\<close> and \<open>Uninitialised\<close> are accesses C gives no meaning to,
  \<open>Page_fault\<close> is the fault of the memory management unit, \<open>Blocked\<close> says that the running thread
  has given up the processor, so that what follows runs only when it is scheduled again, \<open>Diverges\<close> that a loop never ends.
\<close>

datatype error =
    Assert_failed string
  | Exception string
  | Out_of_bounds
  | Uninitialised
  | Page_fault u32
  | Blocked
  | Diverges

definition bnd :: "error + 'a \<Rightarrow> ('a \<Rightarrow> error + 'b) \<Rightarrow> error + 'b" where
  "bnd m k = (case m of Inl e \<Rightarrow> Inl e | Inr x \<Rightarrow> k x)"

definition ASSERT :: "bool \<Rightarrow> string \<Rightarrow> error + unit" where
  "ASSERT c msg = (if c then Inr () else Inl (Assert_failed msg))"

named_theorems outcome \<open>inversion and evaluation of sequenced routines\<close>

lemma bnd_simps [simp]:
  "bnd (Inl e) k = Inl e"
  "bnd (Inr x) k = k x"
  by (simp_all add: bnd_def)

lemma bnd_eq_Inr [outcome]: "bnd m k = Inr y \<longleftrightarrow> (\<exists>x. m = Inr x \<and> k x = Inr y)"
  by (cases m) simp_all

lemma bnd_eq_Inl [outcome]:
  "bnd m k = Inl e \<longleftrightarrow> m = Inl e \<or> (\<exists>x. m = Inr x \<and> k x = Inl e)"
  by (cases m) simp_all

lemma bnd_assoc: "bnd (bnd m f) g = bnd m (\<lambda>x. bnd (f x) g)"
  by (cases m) simp_all

lemma ASSERT_True [simp]: "ASSERT True msg = Inr ()"
  by (simp add: ASSERT_def)

lemma ASSERT_eq_Inr [simp]: "ASSERT c msg = Inr u \<longleftrightarrow> c"
  by (simp add: ASSERT_def)

lemma ASSERT_eq_Inl [simp]: "ASSERT c msg = Inl e \<longleftrightarrow> \<not> c \<and> e = Assert_failed msg"
  by (auto simp: ASSERT_def)

lemma bnd_ASSERT [simp]:
  "bnd (ASSERT c msg) k = (if c then k () else Inl (Assert_failed msg))"
  by (simp add: ASSERT_def)

section \<open>Array accesses\<close>

definition get_at :: "'a list \<Rightarrow> nat \<Rightarrow> error + 'a" where
  "get_at xs i = (if i < length xs then Inr (xs ! i) else Inl Out_of_bounds)"

definition put_at :: "'a list \<Rightarrow> nat \<Rightarrow> 'a \<Rightarrow> error + 'a list" where
  "put_at xs i v = (if i < length xs then Inr (xs[i := v]) else Inl Out_of_bounds)"

lemma get_at_ok [simp]: "i < length xs \<Longrightarrow> get_at xs i = Inr (xs ! i)"
  by (simp add: get_at_def)

lemma put_at_ok [simp]: "i < length xs \<Longrightarrow> put_at xs i v = Inr (xs[i := v])"
  by (simp add: put_at_def)

lemma get_at_eq_Inr [outcome]: "get_at xs i = Inr v \<longleftrightarrow> i < length xs \<and> v = xs ! i"
  by (auto simp: get_at_def)

lemma get_at_eq_Inl [outcome]: "get_at xs i = Inl e \<longleftrightarrow> \<not> i < length xs \<and> e = Out_of_bounds"
  by (auto simp: get_at_def)

lemma put_at_eq_Inr [outcome]: "put_at xs i v = Inr ys \<longleftrightarrow> i < length xs \<and> ys = xs[i := v]"
  by (auto simp: put_at_def)

section \<open>Words\<close>

lemma unat_plus1_less:
  fixes i n :: "'a::len word"
  assumes "i < n"
  shows "unat (i + 1) = Suc (unat i)"
proof -
  have "unat i < unat n" using assms by (simp add: word_less_nat_alt)
  moreover have "unat n < 2 ^ LENGTH('a)" by (rule unsigned_less)
  ultimately have "unat i + 1 < 2 ^ LENGTH('a)" by linarith
  then show ?thesis
    by (simp add: unat_word_ariths unsigned_1)
qed

lemma unat_plus1_le:
  fixes i n :: "'a::len word"
  assumes "i < n"
  shows "unat (i + 1) \<le> unat n"
  using assms by (simp add: unat_plus1_less word_less_nat_alt)


lemma take_update_append:
  assumes "k < length d"
  shows "take (Suc k) (d[k := v]) @ ys = take k d @ v # ys"
  using assms by (simp add: take_Suc_conv_app_nth)

lemma word_loop_step:
  fixes i n :: "'a::len word"
  assumes "i < n"
  obtains m where "unat n = Suc (unat i + m)" "unat (i + 1) = Suc (unat i)" "i + 1 \<le> n"
proof -
  have step: "unat (i + 1) = Suc (unat i)" using assms by (rule unat_plus1_less)
  have less: "unat i < unat n" using assms by (simp add: word_less_nat_alt)
  then obtain m where "unat n = Suc (unat i + m)"
    using less_imp_Suc_add by auto
  then show ?thesis using that step less by (simp add: word_le_nat_alt)
qed

lemma sint_small:
  assumes "unat (w::u32) < 2 ^ 31"
  shows "sint w = int (unat w)"
proof -
  have u: "uint w = int (unat w)" by simp
  have "sint w = (int (unat w) + 2 ^ 31) mod 2 ^ 32 - 2 ^ 31"
    using int_word_sint[of "uint w", where ?'a = 32] unfolding u by simp
  moreover have "int (unat w) < 2 ^ 31" using assms by (simp del: of_nat_unat)
  ultimately show ?thesis by (simp add: mod_pos_pos_trivial del: of_nat_unat)
qed

lemma unat_pos_sless: "unat (w::u32) < 2 ^ 31 \<Longrightarrow> 0 <s w \<longleftrightarrow> w \<noteq> 0"
  by (simp only: word_sless_alt sint_0 sint_small of_nat_0_less_iff unat_gt_0)

lemma unat_plus1:
  fixes i :: "'a::len word"
  shows "Suc (unat i) < 2 ^ LENGTH('a) \<Longrightarrow> unat (i + 1) = Suc (unat i)"
  by (simp add: unat_word_ariths unsigned_1)

lemma unat_minus1_word: "unat (-1::u32) = 2 ^ 32 - 1"
  by (simp add: unsigned_minus_1_eq_mask mask_eq_exp_minus_1)

lemma small_neq_minus1: "unat (w::u32) < 2 ^ 31 \<Longrightarrow> w \<noteq> -1"
  using unat_minus1_word by auto

lemma unat_of_nat_small: "n < 2 ^ LENGTH('a) \<Longrightarrow> unat (of_nat n :: 'a::len word) = n"
  by (simp add: unat_of_nat)

end
