(* ===== verification/CString.thy ===== *)
theory CString
  imports Prelude
begin

text \<open>
  The byte and string routines of \<^verbatim>\<open>lib/string.c\<close>. A pointer argument is \<open>None\<close>
  for the null pointer, and otherwise the object it points into with the position it points at;
  two pointer arguments point into different objects. A loop that leaves its object ends with
  \<open>Out_of_bounds\<close>.

  Shown: what each routine computes on objects that are large enough, that none of them then
  leaves its objects, and that \<^verbatim>\<open>strrchr\<close> does not recognise the end of a string.
\<close>

type_synonym ptr = "(u8 list \<times> nat) option"

section \<open>Operations\<close>

function memset_loop :: "u8 list \<Rightarrow> nat \<Rightarrow> u8 \<Rightarrow> u32 \<Rightarrow> u32 \<Rightarrow> error + u8 list" where
  "memset_loop dst p value num index =
     (if index < num
      then bnd (put_at dst (p + unat index) value) (\<lambda>dst. memset_loop dst p value num (index + 1))
      else Inr dst)"
  by pat_completeness auto
termination
  by (relation "measure (\<lambda>(dst, p, value, num, index). unat num - unat index)")
    (auto simp: unat_plus1_less word_less_nat_alt)

definition memset :: "ptr \<Rightarrow> u8 \<Rightarrow> u32 \<Rightarrow> error + u8 list" where
  "memset dst value num =
     (case dst of None \<Rightarrow> Inl (Assert_failed ''dst != 0'')
      | Some (d, p) \<Rightarrow> memset_loop d p value num 0)"

function memcpy_loop :: "u8 list \<Rightarrow> nat \<Rightarrow> u8 list \<Rightarrow> nat \<Rightarrow> u32 \<Rightarrow> u32 \<Rightarrow> error + u8 list" where
  "memcpy_loop dst p src q sz index =
     (if index < sz
      then bnd (get_at src (q + unat index)) (\<lambda>b.
           bnd (put_at dst (p + unat index) b) (\<lambda>dst. memcpy_loop dst p src q sz (index + 1)))
      else Inr dst)"
  by pat_completeness auto
termination
  by (relation "measure (\<lambda>(dst, p, src, q, sz, index). unat sz - unat index)")
    (auto simp: unat_plus1_less word_less_nat_alt)

definition memcpy :: "ptr \<Rightarrow> ptr \<Rightarrow> u32 \<Rightarrow> error + u8 list" where
  "memcpy dst src sz =
     (case dst of None \<Rightarrow> Inl (Assert_failed ''dst != 0 && src != 0'')
      | Some (d, p) \<Rightarrow>
        (case src of None \<Rightarrow> Inl (Assert_failed ''dst != 0 && src != 0'')
         | Some (s, q) \<Rightarrow> memcpy_loop d p s q sz 0))"

text \<open>\<^verbatim>\<open>while (size-- > 0)\<close>: the test reads the size before it is decremented.\<close>

function memcmp_loop :: "u8 list \<Rightarrow> nat \<Rightarrow> u8 list \<Rightarrow> nat \<Rightarrow> u32 \<Rightarrow> error + u32" where
  "memcmp_loop a i b j sz =
     (if sz > 0
      then bnd (get_at a i) (\<lambda>x. bnd (get_at b j) (\<lambda>y.
           if x \<noteq> y then Inr (if x > y then 1 else -1)
           else memcmp_loop a (i + 1) b (j + 1) (sz - 1)))
      else Inr 0)"
  by pat_completeness auto
termination
  by (relation "measure (\<lambda>(a, i, b, j, sz). unat sz)")
    (auto simp: unat_minus_one unat_gt_0)

definition memcmp :: "ptr \<Rightarrow> ptr \<Rightarrow> u32 \<Rightarrow> error + u32" where
  "memcmp a0 b0 sz =
     (case a0 of None \<Rightarrow> Inl (Assert_failed ''a_ != 0 && b_ != 0'')
      | Some (a, i) \<Rightarrow>
        (case b0 of None \<Rightarrow> Inl (Assert_failed ''a_ != 0 && b_ != 0'')
         | Some (b, j) \<Rightarrow> memcmp_loop a i b j sz))"

function strcpy_loop :: "u8 list \<Rightarrow> nat \<Rightarrow> u8 list \<Rightarrow> nat \<Rightarrow> error + u8 list" where
  "strcpy_loop dst p src q =
     (if q < length src
      then (if src ! q \<noteq> 0
            then bnd (put_at dst p (src ! q)) (\<lambda>dst. strcpy_loop dst (p + 1) src (q + 1))
            else put_at dst p 0)
      else Inl Out_of_bounds)"
  by pat_completeness auto
termination
  by (relation "measure (\<lambda>(dst, p, src, q). length src - q)") auto

definition strcpy :: "ptr \<Rightarrow> ptr \<Rightarrow> error + u8 list" where
  "strcpy dst0 src0 =
     (case dst0 of None \<Rightarrow> Inl (Assert_failed ''dst_ != 0 && src_ != 0'')
      | Some (d, p) \<Rightarrow>
        (case src0 of None \<Rightarrow> Inl (Assert_failed ''dst_ != 0 && src_ != 0'')
         | Some (s, q) \<Rightarrow> strcpy_loop d p s q))"

function strlen_loop :: "u8 list \<Rightarrow> nat \<Rightarrow> u32 \<Rightarrow> error + u32" where
  "strlen_loop str p len =
     (if p < length str
      then (if str ! p \<noteq> 0 then strlen_loop str (p + 1) (len + 1) else Inr len)
      else Inl Out_of_bounds)"
  by pat_completeness auto
termination
  by (relation "measure (\<lambda>(str, p, len). length str - p)") auto

definition strlen :: "ptr \<Rightarrow> error + u32" where
  "strlen str =
     (case str of None \<Rightarrow> Inl (Assert_failed ''str != 0'')
      | Some (s, p) \<Rightarrow> strlen_loop s p 0)"

text \<open>The characters are of type \<^verbatim>\<open>char\<close>, which is signed, so the order is the signed one.\<close>

function strcmp_loop :: "u8 list \<Rightarrow> nat \<Rightarrow> u8 list \<Rightarrow> nat \<Rightarrow> error + u32" where
  "strcmp_loop a i b j =
     (if i < length a \<and> a ! i \<noteq> 0 \<and> j < length b \<and> a ! i = b ! j
      then strcmp_loop a (i + 1) b (j + 1)
      else bnd (get_at a i) (\<lambda>x. bnd (get_at b j) (\<lambda>y.
           Inr (if sint x < sint y then -1 else if sint x > sint y then 1 else 0))))"
  by pat_completeness auto
termination
  by (relation "measure (\<lambda>(a, i, b, j). length a - i)") auto

definition strcmp :: "ptr \<Rightarrow> ptr \<Rightarrow> error + u32" where
  "strcmp a b =
     (case a of None \<Rightarrow> Inl (Assert_failed ''a != 0 && b != 0'')
      | Some (x, i) \<Rightarrow>
        (case b of None \<Rightarrow> Inl (Assert_failed ''a != 0 && b != 0'')
         | Some (y, j) \<Rightarrow> strcmp_loop x i y j))"

text \<open>
  \<^verbatim>\<open>*str == ch\<close> compares a \<^verbatim>\<open>char\<close> with a \<^verbatim>\<open>uint8_t\<close> after both
  are promoted to \<^verbatim>\<open>int\<close>: the first sign-extended, the second zero-extended.
\<close>

definition char_eq_u8 :: "u8 \<Rightarrow> u8 \<Rightarrow> bool" where
  "char_eq_u8 c ch \<longleftrightarrow> sint c = uint ch"

function strchr_loop :: "u8 list \<Rightarrow> nat \<Rightarrow> u8 \<Rightarrow> error + nat option" where
  "strchr_loop str p ch =
     (if p < length str
      then (if str ! p \<noteq> 0
            then (if char_eq_u8 (str ! p) ch then Inr (Some p) else strchr_loop str (p + 1) ch)
            else Inr None)
      else Inl Out_of_bounds)"
  by pat_completeness auto
termination
  by (relation "measure (\<lambda>(str, p, ch). length str - p)") auto

definition strchr :: "ptr \<Rightarrow> u8 \<Rightarrow> error + nat option" where
  "strchr str ch =
     (case str of None \<Rightarrow> Inl (Assert_failed ''str != 0'')
      | Some (s, p) \<Rightarrow> strchr_loop s p ch)"

text \<open>
  The loop of \<^verbatim>\<open>strrchr\<close> stops at the character \<^verbatim>\<open>'0'\<close> (48), and
  \<^verbatim>\<open>res\<close> has no initial value (\<open>None\<close> below).
\<close>

function strrchr_loop :: "u8 list \<Rightarrow> nat \<Rightarrow> u8 \<Rightarrow> nat option \<Rightarrow> error + nat" where
  "strrchr_loop str p ch res =
     (if p < length str
      then (if str ! p \<noteq> 48
            then strrchr_loop str (p + 1) ch (if char_eq_u8 (str ! p) ch then Some p else res)
            else (case res of None \<Rightarrow> Inl Uninitialised | Some r \<Rightarrow> Inr r))
      else Inl Out_of_bounds)"
  by pat_completeness auto
termination
  by (relation "measure (\<lambda>(str, p, ch, res). length str - p)") auto

definition strrchr :: "ptr \<Rightarrow> u8 \<Rightarrow> error + nat" where
  "strrchr str ch =
     (case str of None \<Rightarrow> Inl (Assert_failed ''str != 0'')
      | Some (s, p) \<Rightarrow> strrchr_loop s p ch None)"

function strcat_end :: "u8 list \<Rightarrow> nat \<Rightarrow> error + nat" where
  "strcat_end dst p =
     (if p < length dst then (if dst ! p \<noteq> 0 then strcat_end dst (p + 1) else Inr p)
      else Inl Out_of_bounds)"
  by pat_completeness auto
termination
  by (relation "measure (\<lambda>(dst, p). length dst - p)") auto

definition strcat :: "ptr \<Rightarrow> ptr \<Rightarrow> error + u8 list" where
  "strcat dst src =
     (case dst of None \<Rightarrow> Inl (Assert_failed ''dst != 0 && src != 0'')
      | Some (d, p) \<Rightarrow>
        (case src of None \<Rightarrow> Inl (Assert_failed ''dst != 0 && src != 0'')
         | Some (s, q) \<Rightarrow> bnd (strcat_end d p) (\<lambda>e. strcpy_loop d e s q)))"

function strchrs_loop :: "u8 list \<Rightarrow> nat \<Rightarrow> u8 \<Rightarrow> u32 \<Rightarrow> error + u32" where
  "strchrs_loop dst p ch counter =
     (if p < length dst
      then (if dst ! p \<noteq> 0
            then strchrs_loop dst (p + 1) ch (if dst ! p = ch then counter + 1 else counter)
            else Inr counter)
      else Inl Out_of_bounds)"
  by pat_completeness auto
termination
  by (relation "measure (\<lambda>(dst, p, ch, counter). length dst - p)") auto

definition strchrs :: "u8 list \<Rightarrow> nat \<Rightarrow> u8 \<Rightarrow> error + u32" where
  "strchrs dst p ch = strchrs_loop dst p ch 0"

lemmas string_loops =
  memset_loop.simps memcpy_loop.simps memcmp_loop.simps strcpy_loop.simps strlen_loop.simps
  strcmp_loop.simps strchr_loop.simps strrchr_loop.simps strcat_end.simps strchrs_loop.simps

declare string_loops [simp del]

section \<open>Strings in an object\<close>

text \<open>\<open>cstr b p cs\<close>: the object \<open>b\<close> holds at position \<open>p\<close> the string \<open>cs\<close> and its terminator.\<close>

definition cstr :: "u8 list \<Rightarrow> nat \<Rightarrow> u8 list \<Rightarrow> bool" where
  "cstr b p cs \<longleftrightarrow> 0 \<notin> set cs \<and> take (length cs + 1) (drop p b) = cs @ [0]"

section \<open>Memory routines\<close>

lemma memset_loop_correct:
  "\<lbrakk> i \<le> n; p + unat n \<le> length d \<rbrakk> \<Longrightarrow>
   memset_loop d p v n i
     = Inr (take (p + unat i) d @ replicate (unat n - unat i) v @ drop (p + unat n) d)"
proof (induction d p v n i rule: memset_loop.induct)
  case (1 d p v n i)
  show ?case
  proof (cases "i < n")
    case True
    let ?k = "p + unat i"
    obtain m where m: "unat n = Suc (unat i + m)" "unat (i + 1) = Suc (unat i)" "i + 1 \<le> n"
      using True by (rule word_loop_step)
    then have k: "?k < length d" using 1(3) by linarith
    have "memset_loop (d[?k := v]) p v n (i + 1)
        = Inr (take (Suc ?k) (d[?k := v]) @ replicate m v @ drop (p + unat n) d)"
      using 1(1)[OF True, of "d[?k := v]"] k 1(3) m by simp
    then show ?thesis
      using True k m
      by (simp add: memset_loop.simps[of d p v n i] take_update_append)
  next
    case False
    then have "i = n" using 1(2) by simp
    then show ?thesis by (simp add: memset_loop.simps)
  qed
qed

lemma memset_loop_overrun:
  "\<lbrakk> i \<le> n; p + unat n > length d \<rbrakk> \<Longrightarrow> p + unat i \<le> length d \<Longrightarrow>
   memset_loop d p v n i = Inl Out_of_bounds"
proof (induction d p v n i rule: memset_loop.induct)
  case (1 d p v n i)
  then have lt: "i < n" by (auto simp: word_less_nat_alt)
  then obtain m where m: "unat n = Suc (unat i + m)" "unat (i + 1) = Suc (unat i)" "i + 1 \<le> n"
    by (rule word_loop_step)
  show ?case
    using 1(1)[OF lt, of "d[p + unat i := v]"] 1(3,4) m lt
    by (simp add: memset_loop.simps[of d p v n i] put_at_def)
qed

lemma memcpy_loop_correct:
  "\<lbrakk> i \<le> n; p + unat n \<le> length d; q + unat n \<le> length s \<rbrakk> \<Longrightarrow>
   memcpy_loop d p s q n i
     = Inr (take (p + unat i) d @ take (unat n - unat i) (drop (q + unat i) s)
            @ drop (p + unat n) d)"
proof (induction d p s q n i rule: memcpy_loop.induct)
  case (1 d p s q n i)
  show ?case
  proof (cases "i < n")
    case True
    let ?k = "p + unat i" and ?v = "s ! (q + unat i)"
    obtain m where m: "unat n = Suc (unat i + m)" "unat (i + 1) = Suc (unat i)" "i + 1 \<le> n"
      using True by (rule word_loop_step)
    then have k: "?k < length d" "q + unat i < length s" using 1(3,4) by linarith+
    have "memcpy_loop (d[?k := ?v]) p s q n (i + 1)
        = Inr (take (Suc ?k) (d[?k := ?v]) @ take m (drop (Suc (q + unat i)) s)
               @ drop (p + unat n) d)"
      using 1(1)[OF True, of "d[?k := ?v]"] k 1(3,4) m by simp
    moreover have "take (Suc m) (drop (q + unat i) s) = ?v # take m (drop (Suc (q + unat i)) s)"
      using k(2) by (simp add: Cons_nth_drop_Suc[symmetric])
    ultimately show ?thesis
      using True k m
      by (simp add: memcpy_loop.simps[of d p s q n i] take_update_append)
  next
    case False
    then have "i = n" using 1(2) by simp
    then show ?thesis by (simp add: memcpy_loop.simps)
  qed
qed

lemma memset_correct:
  "p + unat n \<le> length d \<Longrightarrow>
   memset (Some (d, p)) v n = Inr (take p d @ replicate (unat n) v @ drop (p + unat n) d)"
  using memset_loop_correct[of 0 n p d v] by (simp add: memset_def)

lemma memset_overrun:
  "\<lbrakk> p \<le> length d; length d < p + unat n \<rbrakk> \<Longrightarrow> memset (Some (d, p)) v n = Inl Out_of_bounds"
  using memset_loop_overrun[of 0 n d p v] by (simp add: memset_def)

lemma memcpy_correct:
  "\<lbrakk> p + unat n \<le> length d; q + unat n \<le> length s \<rbrakk> \<Longrightarrow>
   memcpy (Some (d, p)) (Some (s, q)) n
     = Inr (take p d @ take (unat n) (drop q s) @ drop (p + unat n) d)"
  using memcpy_loop_correct[of 0 n p d q s] by (simp add: memcpy_def)

section \<open>String routines\<close>

lemma cstr_Nil [simp]: "cstr b p [] \<longleftrightarrow> p < length b \<and> b ! p = 0"
  by (cases "p < length b") (auto simp: cstr_def Cons_nth_drop_Suc[symmetric])

lemma cstr_Cons [simp]:
  "cstr b p (c # cs) \<longleftrightarrow> p < length b \<and> b ! p = c \<and> c \<noteq> 0 \<and> cstr b (p + 1) cs"
  by (cases "p < length b") (auto simp: cstr_def Cons_nth_drop_Suc[symmetric])

lemma cstr_bound: "cstr b p cs \<Longrightarrow> p + length cs < length b"
  by (induction cs arbitrary: p) fastforce+

lemma strlen_loop_correct: "cstr s p cs \<Longrightarrow> strlen_loop s p n = Inr (n + of_nat (length cs))"
  by (induction cs arbitrary: p n) (simp_all add: strlen_loop.simps[of s] algebra_simps)

lemma strcpy_loop_correct:
  "\<lbrakk> cstr s q cs; p + length cs < length d \<rbrakk> \<Longrightarrow>
   strcpy_loop d p s q = Inr (take p d @ cs @ 0 # drop (p + length cs + 1) d)"
proof (induction cs arbitrary: p q d)
  case Nil
  then show ?case by (simp add: strcpy_loop.simps upd_conv_take_nth_drop)
next
  case (Cons c cs)
  then have "strcpy_loop (d[p := c]) (p + 1) s (q + 1)
     = Inr (take (p + 1) (d[p := c]) @ cs @ 0 # drop (p + 1 + length cs + 1) (d[p := c]))"
    by (intro Cons.IH) auto
  then show ?case
    using Cons.prems by (simp add: strcpy_loop.simps[of d p] take_update_append)
qed

lemma cstr_at: "0 \<notin> set cs \<Longrightarrow> p = length xs \<Longrightarrow> cstr (xs @ cs @ 0 # ys) p cs"
  by (simp add: cstr_def)

lemma strcat_end_correct: "cstr d p cs \<Longrightarrow> strcat_end d p = Inr (p + length cs)"
  by (induction cs arbitrary: p) (simp_all add: strcat_end.simps[of d])

lemma strcmp_loop_zero:
  "\<lbrakk> cstr a i cs; cstr b j ds \<rbrakk> \<Longrightarrow>
   \<exists>r. strcmp_loop a i b j = Inr r \<and> (r = 0 \<longleftrightarrow> cs = ds) \<and> r \<in> {-1, 0, 1}"
proof (induction cs arbitrary: i j ds)
  case Nil
  then show ?case
    by (cases ds) (auto simp: strcmp_loop.simps[of a i b j] signed_eq_0_iff)
next
  case (Cons c cs)
  note IH = Cons.IH and prems = Cons.prems
  show ?case
  proof (cases ds)
    case Nil
    with prems show ?thesis by (auto simp: strcmp_loop.simps[of a i b j] signed_eq_0_iff)
  next
    case (Cons e es)
    show ?thesis
    proof (cases "e = c")
      case True
      with Cons prems IH[of "i + 1" "j + 1" es] show ?thesis
        by (simp add: strcmp_loop.simps[of a i b j])
    next
      case False
      then have "sint c \<noteq> sint e" by (auto dest: signed_word_eqI)
      with Cons prems False show ?thesis
        by (auto simp: strcmp_loop.simps[of a i b j])
    qed
  qed
qed

lemma strlen_correct: "cstr s p cs \<Longrightarrow> strlen (Some (s, p)) = Inr (of_nat (length cs))"
  by (simp add: strlen_def strlen_loop_correct)

lemma strcpy_correct:
  assumes "cstr s q cs" "p + length cs < length d"
  shows "strcpy (Some (d, p)) (Some (s, q)) = Inr (take p d @ cs @ 0 # drop (p + length cs + 1) d)"
    and "cstr (take p d @ cs @ 0 # drop (p + length cs + 1) d) p cs"
  using assms strcpy_loop_correct[OF assms] cstr_at[of cs p "take p d"]
  by (simp_all add: strcpy_def cstr_def)

lemma strrchr_loop_overrun:
  "48 \<notin> set s \<Longrightarrow> strrchr_loop s p ch res = Inl Out_of_bounds"
  by (induction s p ch res rule: strrchr_loop.induct)
    (simp add: strrchr_loop.simps, metis nth_mem)

section \<open>Properties\<close>

text \<open>
  For two terminated strings, and a destination with room for both and the terminator,
  \<^verbatim>\<open>strcat\<close> leaves the concatenation at the destination, keeps every other byte of
  the destination, and stays within both objects.
\<close>

theorem strcat_concat:
  assumes "cstr d p as" and "cstr s q bs" and "p + length as + length bs < length d"
  shows "\<exists>d'. strcat (Some (d, p)) (Some (s, q)) = Inr d' \<and> cstr d' p (as @ bs) \<and>
    take p d' = take p d \<and> drop (p + length as + length bs + 1) d' =
    drop (p + length as + length bs + 1) d \<and> length d' = length d"
proof -
  let ?e = "p + length as"
  let ?d = "take ?e d @ bs @ 0 # drop (?e + length bs + 1) d"
  have pre: "take ?e d = take p d @ as"
    using assms(1) by (auto simp: cstr_def take_add dest: arg_cong[where f = "take (length as)"])
  have "strcat (Some (d, p)) (Some (s, q)) = Inr ?d"
    using assms by (simp add: strcat_def strcat_end_correct strcpy_loop_correct)
  moreover have "cstr ?d p (as @ bs)"
    using cstr_at[of "as @ bs" p "take p d" "drop (?e + length bs + 1) d"] assms
    by (simp add: pre cstr_def)
  moreover have "take p ?d = take p d"
    using assms(3) by (simp add: pre)
  ultimately show ?thesis using assms(3) by auto
qed

theorem strcat_concat_witness:
  "\<exists>d'. strcat (Some ([47, 97, 0, 7, 7, 7], 0)) (Some ([98, 99, 0], 0)) = Inr d' \<and>
     cstr d' 0 [47, 97, 98, 99]"
  using strcat_concat[of "[47, 97, 0, 7, 7, 7]" 0 "[47, 97]" "[98, 99, 0]" 0 "[98, 99]"]
  by fastforce

text \<open>
  C32: on terminated strings \<^verbatim>\<open>strcmp\<close> returns, its result is one of -1, 0 and 1,
  and it is 0 exactly when the two strings are equal.
\<close>

theorem strcmp_zero_iff_equal:
  assumes "cstr a i cs" and "cstr b j ds"
  shows "\<exists>r. strcmp (Some (a, i)) (Some (b, j)) = Inr r \<and> (r = 0 \<longleftrightarrow> cs = ds) \<and> r \<in> {-1, 0, 1}"
  using strcmp_loop_zero[OF assms] by (simp add: strcmp_def)

theorem strcmp_zero_iff_equal_witness:
  "\<exists>r. strcmp (Some ([46, 0], 0)) (Some ([46, 46, 0], 0)) = Inr r \<and> r \<noteq> 0"
  using strcmp_zero_iff_equal[of "[46, 0]" 0 "[46]" "[46, 46, 0]" 0 "[46, 46]"] by auto

text \<open>
  \<^verbatim>\<open>strrchr\<close> looks for the digit \<^verbatim>\<open>'0'\<close> instead of the
  terminator: in an object without that digit, terminated or not, it runs past the end for every
  character searched.
\<close>

theorem strrchr_runs_past_end:
  assumes "48 \<notin> set s"
  shows "strrchr (Some (s, p)) ch = Inl Out_of_bounds"
  using strrchr_loop_overrun[OF assms] by (simp add: strrchr_def)

theorem strrchr_runs_past_end_witness:
  "strrchr (Some ([47, 97, 47, 98, 0], 0)) 47 = Inl Out_of_bounds"
  using strrchr_runs_past_end[of "[47, 97, 47, 98, 0]" 0 47] by simp

end
