(* ===== verification/Bitmap.thy ===== *)
theory Bitmap
  imports CString
begin

text \<open>
  The bitmaps of \<^verbatim>\<open>lib/bitmap.c\<close>, which the memory pools, the virtual address pools and
  the file system allocate from. \<open>bits\<close> holds the bytes from the address the field
  \<^verbatim>\<open>bits\<close> points to; \<open>bitmap_len\<close> of them belong to the bitmap, what follows is the memory
  behind it. The C integers of type \<^verbatim>\<open>int\<close> are 32 bit words read as signed where the
  source compares them as such, so the result -1 is the word \<open>- 1\<close>.

  Shown: \<open>bitmap_set\<close> changes exactly one bit; \<open>bitmap_scan\<close> for one bit finds the first free one;
  for several it finds the first run of free bits, but its loop examines one bit more than the
  bitmap has.
\<close>

section \<open>Data and operations\<close>

record bitmap =
  bitmap_len :: u32
  bits :: "u8 list"

definition BIT_MASK :: u32 where
  "BIT_MASK = 1"

definition bitmap_init :: "bitmap \<Rightarrow> error + bitmap" where
  "bitmap_init btmp =
     bnd (memset (Some (bits btmp, 0)) 0 (bitmap_len btmp)) (\<lambda>b. Inr (btmp\<lparr>bits := b\<rparr>))"

definition bitmap_scan_test :: "bitmap \<Rightarrow> u32 \<Rightarrow> error + u8" where
  "bitmap_scan_test btmp index =
     (let base = index div 8; offset = index mod 8 in
      bnd (get_at (bits btmp) (unat base)) (\<lambda>b.
      Inr (ucast (ucast b AND push_bit (unat offset) BIT_MASK))))"

text \<open>
  The three loops of \<^verbatim>\<open>bitmap_scan\<close>: the first byte that is not full, the first clear
  bit of that byte, and the search for a run of \<^verbatim>\<open>cnt\<close> clear bits.
\<close>

function scan_byte :: "bitmap \<Rightarrow> u32 \<Rightarrow> error + u32" where
  "scan_byte btmp index =
     (if index < bitmap_len btmp
      then bnd (get_at (bits btmp) (unat index)) (\<lambda>b.
           if b = 0xff then scan_byte btmp (index + 1) else Inr index)
      else Inr index)"
  by pat_completeness auto
termination
  by (relation "measure (\<lambda>(btmp, index). unat (bitmap_len btmp) - unat index)")
    (auto simp: unat_plus1_less word_less_nat_alt)

function scan_offset :: "u8 \<Rightarrow> nat \<Rightarrow> nat" where
  "scan_offset b offset =
     (if push_bit offset BIT_MASK AND ucast b \<noteq> 0 then scan_offset b (offset + 1) else offset)"
  by pat_completeness auto
termination
proof (relation "measure (\<lambda>(b, offset). 8 - offset)")
  fix b :: u8 and offset :: nat
  assume "push_bit offset BIT_MASK AND ucast b \<noteq> 0"
  then have "bit b offset"
    by (simp add: BIT_MASK_def and.commute[of "2 ^ offset"] bit_ucast_iff and_exp_eq_0_iff_not_bit)
  then have "offset < 8" using bit_imp_le_length[of b offset] by simp
  then show "((b, offset + 1), b, offset) \<in> measure (\<lambda>(b, offset). 8 - offset)" by simp
qed simp

text \<open>
  \<^verbatim>\<open>bit_left\<close> is compared as a signed number; \<open>bit_index + 1 - cnt\<close> is the source's
  \<^verbatim>\<open>bit_index - cnt\<close> after the increment.
\<close>

function scan_run :: "bitmap \<Rightarrow> u32 \<Rightarrow> u32 \<Rightarrow> u32 \<Rightarrow> u32 \<Rightarrow> error + u32" where
  "scan_run btmp cnt counter bit_index bit_left =
     (if 0 <s bit_left
      then bnd (bitmap_scan_test btmp bit_index) (\<lambda>t.
           if t = 0
           then (if counter + 1 = cnt then Inr (bit_index + 1 - cnt)
                 else scan_run btmp cnt (counter + 1) (bit_index + 1) (bit_left - 1))
           else scan_run btmp cnt 0 (bit_index + 1) (bit_left - 1))
      else Inr (-1))"
  by pat_completeness auto
termination
  by (relation "measure (\<lambda>(btmp, cnt, counter, bit_index, bit_left). unat bit_left)")
    (auto simp: unat_minus_one unat_gt_0)

definition bitmap_scan :: "bitmap \<Rightarrow> u32 \<Rightarrow> error + u32" where
  "bitmap_scan btmp cnt =
     bnd (scan_byte btmp 0) (\<lambda>index.
     if index = bitmap_len btmp then Inr (-1)
     else bnd (get_at (bits btmp) (unat index)) (\<lambda>b.
       let offset = scan_offset b 0;
           bit_index = index * 8 + of_nat offset;
           bit_left = bitmap_len btmp * 8 - bit_index
       in if cnt = 1 then Inr bit_index
          else scan_run btmp cnt 1 (bit_index + 1) bit_left))"

definition bitmap_set :: "bitmap \<Rightarrow> u32 \<Rightarrow> u8 \<Rightarrow> error + bitmap" where
  "bitmap_set btmp index value =
     bnd (ASSERT (value = 1 \<or> value = 0) ''value == 1 || value == 0'') (\<lambda>_.
     let base = unat (index div 8); offset = unat (index mod 8) in
     bnd (get_at (bits btmp) base) (\<lambda>b.
     bnd (put_at (bits btmp) base
           (if value \<noteq> 0 then ucast (ucast b OR push_bit offset BIT_MASK)
            else ucast (ucast b AND NOT (push_bit offset BIT_MASK)))) (\<lambda>bs.
     Inr (btmp\<lparr>bits := bs\<rparr>))))"

declare scan_byte.simps [simp del] scan_offset.simps [simp del] scan_run.simps [simp del]

section \<open>The set of used bits\<close>

text \<open>
  \<open>used bm i\<close>: bit \<open>i\<close> is set. \<open>nbits\<close>: how many bits the bitmap has. \<open>bitmap_wf\<close>: the bytes exist,
  and a bit index fits a positive \<^verbatim>\<open>int\<close>. \<open>free_run bm r n\<close>: the \<open>n\<close> bits from \<open>r\<close> are
  clear. \<open>first_run bm n m res\<close>: \<open>res\<close> is the first run of \<open>n\<close> clear bits among the first \<open>m\<close>, or \<open>- 1\<close>
  where there is none.
\<close>

definition used :: "bitmap \<Rightarrow> nat \<Rightarrow> bool" where
  "used bm i \<longleftrightarrow> bit (bits bm ! (i div 8)) (i mod 8)"

definition nbits :: "bitmap \<Rightarrow> nat" where
  "nbits bm = 8 * unat (bitmap_len bm)"

definition bitmap_wf :: "bitmap \<Rightarrow> bool" where
  "bitmap_wf bm \<longleftrightarrow> unat (bitmap_len bm) \<le> length (bits bm) \<and> unat (bitmap_len bm) < 2 ^ 28"

definition free_run :: "bitmap \<Rightarrow> nat \<Rightarrow> nat \<Rightarrow> bool" where
  "free_run bm r n \<longleftrightarrow> (\<forall>k < n. \<not> used bm (r + k))"

definition first_run :: "bitmap \<Rightarrow> nat \<Rightarrow> nat \<Rightarrow> u32 \<Rightarrow> bool" where
  "first_run bm n m res \<longleftrightarrow>
     (if res = -1 then \<forall>r. r + n \<le> m \<longrightarrow> \<not> free_run bm r n
      else unat res + n \<le> m \<and> free_run bm (unat res) n \<and> (\<forall>r < unat res. \<not> free_run bm r n))"

definition no_run_before :: "bitmap \<Rightarrow> nat \<Rightarrow> nat \<Rightarrow> nat \<Rightarrow> bool" where
  "no_run_before bm n r0 j \<longleftrightarrow> (\<forall>r < r0. \<exists>k. r \<le> k \<and> k < j \<and> k < r + n \<and> used bm k)"

lemmas bitmap_preds = used_def nbits_def bitmap_wf_def free_run_def

section \<open>One bit\<close>

lemma mask_eq_0: "push_bit n BIT_MASK AND ucast (b::u8) = 0 \<longleftrightarrow> \<not> bit b n"
  by (auto simp: BIT_MASK_def and.commute[of "2 ^ n"] bit_ucast_iff and_exp_eq_0_iff_not_bit
      dest: bit_imp_le_length)

lemma byte_mask_eq_0:
  assumes "n < 8"
  shows "(ucast (ucast (b::u8) AND push_bit n BIT_MASK) :: u8) = 0 \<longleftrightarrow> \<not> bit b n"
proof -
  have "(ucast (ucast b AND push_bit n BIT_MASK) :: u8) = b AND 2 ^ n"
    by (rule bit_word_eqI) (auto simp: BIT_MASK_def bit_simps)
  then show ?thesis by (simp add: and_exp_eq_0_iff_not_bit)
qed

lemma scan_test_ok:
  assumes "unat i div 8 < length (bits bm)"
  shows "\<exists>t. bitmap_scan_test bm i = Inr t \<and> (t = 0 \<longleftrightarrow> \<not> used bm (unat i))"
proof -
  have "unat (i div 8) = unat i div 8" "unat (i mod 8) = unat i mod 8"
    by (simp_all add: unat_div unat_mod)
  with assms show ?thesis
    by (simp add: bitmap_scan_test_def Let_def byte_mask_eq_0 used_def)
qed

lemma bitmap_set_ok:
  assumes "unat i div 8 < length (bits bm)" "v = 0 \<or> v = 1"
  shows "\<exists>bm'. bitmap_set bm i v = Inr bm' \<and> bitmap_len bm' = bitmap_len bm \<and>
     length (bits bm') = length (bits bm) \<and> used bm' = (used bm)(unat i := v = 1)"
proof -
  let ?o = "unat i mod 8" and ?b = "unat i div 8"
  have d: "unat (i div 8) = ?b" "unat (i mod 8) = ?o"
    by (simp_all add: unat_div unat_mod)
  let ?w = "if v \<noteq> 0 then ucast (ucast (bits bm ! ?b) OR push_bit ?o BIT_MASK)
            else ucast (ucast (bits bm ! ?b) AND NOT (push_bit ?o BIT_MASK)) :: u8"
  have w: "bit ?w n \<longleftrightarrow> (if n = ?o then v = 1 else bit (bits bm ! ?b) n)" if "n < 8" for n
    using assms(2) that by (auto simp: BIT_MASK_def bit_simps)
  have "used (bm\<lparr>bits := (bits bm)[?b := ?w]\<rparr>) = (used bm)(unat i := v = 1)"
  proof
    fix k
    have "k = unat i \<longleftrightarrow> k div 8 = ?b \<and> k mod 8 = ?o"
      by (metis div_mult_mod_eq)
    then show "used (bm\<lparr>bits := (bits bm)[?b := ?w]\<rparr>) k = ((used bm)(unat i := v = 1)) k"
      using assms(1) w[of "k mod 8"] by (auto simp: used_def nth_list_update)
  qed
  then show ?thesis using assms d
    by (auto simp: bitmap_set_def Let_def)
qed

lemma scan_offset_least:
  assumes "\<not> bit b k" "o0 \<le> k" "\<forall>j. o0 \<le> j \<and> j < k \<longrightarrow> bit (b::u8) j"
  shows "scan_offset b o0 = k"
  using assms
proof (induction b o0 rule: scan_offset.induct)
  case (1 b o0)
  show ?case
  proof (cases "o0 = k")
    case True
    then show ?thesis using 1(2) by (simp add: scan_offset.simps mask_eq_0)
  next
    case False
    then have "bit b o0" using 1(3,4) by auto
    then show ?thesis using 1 False by (simp add: scan_offset.simps[of b o0] mask_eq_0)
  qed
qed

lemma byte_full_iff: "(b::u8) = 0xff \<longleftrightarrow> (\<forall>k < 8. bit b k)"
proof -
  have "(0xff::u8) = mask 8" by (simp add: mask_eq_exp_minus_1)
  then show ?thesis
    by (simp only:) (auto simp: bit_eq_iff bit_mask_iff dest: bit_imp_le_length)
qed

lemma scan_offset_free:
  assumes "(b::u8) \<noteq> 0xff"
  shows "scan_offset b 0 < 8 \<and> \<not> bit b (scan_offset b 0) \<and> (\<forall>j < scan_offset b 0. bit b j)"
proof -
  obtain k where k: "k < 8" "\<not> bit b k" using assms by (auto simp: byte_full_iff)
  then obtain m where m: "\<not> bit b m" "\<forall>j < m. bit b j"
    using exists_least_iff[of "\<lambda>k. \<not> bit b k"] by blast
  then have "m \<le> k" using k(2) not_less by blast
  moreover have "scan_offset b 0 = m" using m by (intro scan_offset_least) auto
  ultimately show ?thesis using m k(1) by auto
qed

lemma scan_byte_least:
  assumes "unat (bitmap_len bm) \<le> length (bits bm)" "i \<le> bitmap_len bm"
  shows "\<exists>j. scan_byte bm i = Inr j \<and> i \<le> j \<and> j \<le> bitmap_len bm \<and>
      (\<forall>k. unat i \<le> k \<and> k < unat j \<longrightarrow> bits bm ! k = 0xff) \<and>
      (j \<noteq> bitmap_len bm \<longrightarrow> bits bm ! unat j \<noteq> 0xff)"
  using assms
proof (induction bm i rule: scan_byte.induct)
  case (1 bm i)
  show ?case
  proof (cases "i < bitmap_len bm \<and> bits bm ! unat i = 0xff")
    case True
    have lt: "unat i < length (bits bm)" using True 1(2) by (simp add: word_less_nat_alt)
    have s: "unat (i + 1) = Suc (unat i)" using True by (blast intro: unat_plus1_less)
    have "i + 1 \<le> bitmap_len bm" using True unat_plus1_le by (auto simp: word_le_nat_alt)
    then obtain j where j: "scan_byte bm (i + 1) = Inr j" "i + 1 \<le> j" "j \<le> bitmap_len bm"
      "\<forall>k. unat (i + 1) \<le> k \<and> k < unat j \<longrightarrow> bits bm ! k = 0xff"
      "j \<noteq> bitmap_len bm \<longrightarrow> bits bm ! unat j \<noteq> 0xff"
      using 1 True by metis
    have "\<forall>k. unat i \<le> k \<and> k < unat j \<longrightarrow> bits bm ! k = 0xff"
      using j(4) True s by (metis Suc_leI le_neq_implies_less)
    moreover have "i \<le> j" using j(2) s by (simp add: word_le_nat_alt)
    ultimately show ?thesis
      using j lt True by (simp add: scan_byte.simps[of bm i])
  next
    case False
    then have "scan_byte bm i = Inr i" using 1(2)
      by (auto simp: scan_byte.simps[of bm i] word_less_nat_alt)
    then show ?thesis using 1(3) False by (auto simp: order_le_less)
  qed
qed

section \<open>Searching a run\<close>

lemma no_run_beforeD: "no_run_before bm n r0 j \<Longrightarrow> r < r0 \<Longrightarrow> \<not> free_run bm r n"
  unfolding no_run_before_def free_run_def
  by (metis le_Suc_ex nat_add_left_cancel_less)

lemma no_run_before_mono: "no_run_before bm n r0 j \<Longrightarrow> no_run_before bm n r0 (Suc j)"
  unfolding no_run_before_def using less_SucI by blast

lemma no_run_before_used:
  assumes "no_run_before bm n (j - c) j" "used bm j" "c < n"
  shows "no_run_before bm n (Suc j) (Suc j)"
  unfolding no_run_before_def
proof (intro allI impI)
  fix r assume r: "r < Suc j"
  show "\<exists>k. r \<le> k \<and> k < Suc j \<and> k < r + n \<and> used bm k"
  proof (cases "r < j - c")
    case True
    then show ?thesis using assms(1) less_SucI unfolding no_run_before_def by blast
  next
    case False
    then have "j < r + n" using assms(3) by linarith
    then show ?thesis using r assms(2) by (intro exI[of _ j]) simp
  qed
qed

lemma free_run_snoc: "free_run bm r (Suc n) \<longleftrightarrow> free_run bm r n \<and> \<not> used bm (r + n)"
  by (auto simp: free_run_def less_Suc_eq)

lemma scan_run_first:
  assumes "unat j + unat l \<le> 8 * length (bits bm)" "unat j + unat l < 2 ^ 31"
    "unat c < unat n" "unat c \<le> unat j" "free_run bm (unat j - unat c) (unat c)"
    "no_run_before bm (unat n) (unat j - unat c) (unat j)"
  shows "\<exists>res. scan_run bm n c j l = Inr res \<and> first_run bm (unat n) (unat j + unat l) res"
  using assms
proof (induction bm n c j l rule: scan_run.induct)
  case (1 bm n c j l)
  have j1: "unat (j + 1) = Suc (unat j)" 
    using 1(4) by (intro unat_plus1) simp
  have c1: "unat (c + 1) = Suc (unat c)"
    using 1(5) by (intro unat_plus1_less[of _ n]) (simp add: word_less_nat_alt)
  show ?case
  proof (cases "l = 0")
    case True
    have "\<not> free_run bm r (unat n)" if "r + unat n \<le> unat j" for r
      by (rule no_run_beforeD[OF 1(8)]) (use that 1(5) in linarith)
    then show ?thesis using True by (simp add: scan_run.simps first_run_def)
  next
    case False
    have pos: "0 <s l" using False 1(4) by (simp add: unat_pos_sless)
    have l1: "unat l = Suc (unat (l - 1))" using False by (simp add: unat_minus_one unat_gt_0)
    obtain t where t: "bitmap_scan_test bm j = Inr t" "t = 0 \<longleftrightarrow> \<not> used bm (unat j)"
      using scan_test_ok[of j bm] 1(3) l1 by fastforce
    have sum: "unat j + unat l = unat (j + 1) + unat (l - 1)" using j1 l1 by simp
    show ?thesis
    proof (cases "t = 0")
      case t0: True
      have run: "free_run bm (unat j - unat c) (Suc (unat c))"
        using 1(6,7) t t0 by (simp add: free_run_snoc)
      show ?thesis
      proof (cases "c + 1 = n")
        case True
        have "unat (j + 1 - n) = unat j - unat c"
          using 1(6) c1 j1 True by (simp add: unat_sub word_le_nat_alt)
        moreover have "j + 1 - n \<noteq> -1"
          using calculation 1(4) by (intro small_neq_minus1) linarith
        moreover have "scan_run bm n c j l = Inr (j + 1 - n)"
          using pos t t0 True by (simp add: scan_run.simps[of bm n c j l])
        ultimately show ?thesis
          using run True c1 1(6) l1 no_run_beforeD[OF 1(8)] by (auto simp: first_run_def)
      next
        case neq: False
        have "scan_run bm n c j l = scan_run bm n (c + 1) (j + 1) (l - 1)"
          using pos t t0 neq by (simp add: scan_run.simps[of bm n c j l])
        moreover have "unat (c + 1) < unat n"
          using c1 1(5) neq by (metis Suc_lessI word_eq_iff_unsigned)
        ultimately show ?thesis
          using 1(1)[OF pos t0 neq] 1(3,4,6) run no_run_before_mono[OF 1(8)] c1 j1 l1 sum by simp
      qed
    next
      case used: False
      have "scan_run bm n c j l = scan_run bm n 0 (j + 1) (l - 1)"
        using pos t used by (simp add: scan_run.simps[of bm n c j l])
      then show ?thesis
        using 1(2)[OF pos used] 1(3,4,5) no_run_before_used[OF 1(8)] t used j1 l1 sum
        by (simp add: free_run_def)
    qed
  qed
qed

lemma scan_first_byte:
  assumes "bitmap_wf bm"
  shows "(\<exists>j. scan_byte bm 0 = Inr j \<and> j < bitmap_len bm \<and>
            (let f = 8 * unat j + scan_offset (bits bm ! unat j) 0 in
             scan_offset (bits bm ! unat j) 0 < 8 \<and>
             f < nbits bm \<and> \<not> used bm f \<and> (\<forall>k < f. used bm k)))
       \<or> (scan_byte bm 0 = Inr (bitmap_len bm) \<and> (\<forall>k < nbits bm. used bm k))"
proof -
  have full: "used bm k" if "k div 8 < m" "\<forall>b < m. bits bm ! b = 0xff" for k m
    using that byte_full_iff[of "bits bm ! (k div 8)"] by (simp add: used_def)
  obtain j where j: "scan_byte bm 0 = Inr j" "j \<le> bitmap_len bm"
      "\<forall>k < unat j. bits bm ! k = 0xff" "j \<noteq> bitmap_len bm \<longrightarrow> bits bm ! unat j \<noteq> 0xff"
    using scan_byte_least[of bm 0] assms by (auto simp: bitmap_wf_def)
  show ?thesis
  proof (cases "j = bitmap_len bm")
    case True
    then have "\<forall>k < nbits bm. used bm k" using j(3) full[of _ "unat j"] by (auto simp: nbits_def)
    then show ?thesis using j True by simp
  next
    case False
    let ?o = "scan_offset (bits bm ! unat j) 0"
    have o: "?o < 8" "\<not> bit (bits bm ! unat j) ?o" "\<forall>i < ?o. bit (bits bm ! unat j) i"
      using scan_offset_free[of "bits bm ! unat j"] j(4) False by auto
    have lt: "j < bitmap_len bm" using j(2) False by simp
    have "used bm k" if "k < 8 * unat j + ?o" for k
    proof (cases "k div 8 < unat j")
      case True
      then show ?thesis using full j(3) by blast
    next
      case nj: False
      then have "k div 8 = unat j" using that o(1) by linarith
      moreover from this have "k mod 8 < ?o" using that div_mult_mod_eq[of k 8] by linarith
      ultimately show ?thesis using o(3) by (simp add: used_def)
    qed
    moreover have "\<not> used bm (8 * unat j + ?o)" using o(1,2) by (simp add: used_def)
    moreover have "8 * unat j + ?o < nbits bm"
      using lt o(1) by (simp add: nbits_def word_less_nat_alt)
    ultimately show ?thesis using j(1) lt o(1) by (auto simp: Let_def)
  qed
qed

lemma bitmap_scan_cases:
  assumes wf: "bitmap_wf bm"
  obtains (full) "bitmap_scan bm cnt = Inr (-1)" "\<forall>k < nbits bm. used bm k"
  | (free) f where "unat f < nbits bm" "\<not> used bm (unat f)" "\<forall>k < unat f. used bm k"
      "bitmap_scan bm cnt =
         (if cnt = 1 then Inr f else scan_run bm cnt 1 (f + 1) (of_nat (nbits bm) - f))"
proof -
  consider "scan_byte bm 0 = Inr (bitmap_len bm)" "\<forall>k < nbits bm. used bm k"
    | j where "scan_byte bm 0 = Inr j" "j < bitmap_len bm"
       "scan_offset (bits bm ! unat j) 0 < 8"
       "8 * unat j + scan_offset (bits bm ! unat j) 0 < nbits bm"
       "\<not> used bm (8 * unat j + scan_offset (bits bm ! unat j) 0)"
       "\<forall>k < 8 * unat j + scan_offset (bits bm ! unat j) 0. used bm k"
    using scan_first_byte[OF wf] by (auto simp: Let_def)
  then show thesis
  proof cases
    case 1
    then show ?thesis by (intro full) (simp_all add: bitmap_scan_def)
  next
    case (2 j)
    let ?o = "scan_offset (bits bm ! unat j) 0"
    let ?f = "j * 8 + of_nat ?o :: u32"
    have "unat (of_nat (8 * unat j + ?o) :: u32) = 8 * unat j + ?o"
      using 2(4) wf by (intro unat_of_nat_small) (simp add: bitmap_wf_def nbits_def)
    moreover have "(of_nat (8 * unat j + ?o) :: u32) = ?f" by simp
    ultimately have f: "unat ?f = 8 * unat j + ?o" by metis
    have lt: "unat j < length (bits bm)" using 2(2) wf by (simp add: bitmap_wf_def word_less_nat_alt)
    have n: "(of_nat (nbits bm) :: u32) = bitmap_len bm * 8" by (simp add: nbits_def)
    show ?thesis
    proof (rule free[of ?f])
      show "bitmap_scan bm cnt =
         (if cnt = 1 then Inr ?f else scan_run bm cnt 1 (?f + 1) (of_nat (nbits bm) - ?f))"
        using 2(1) less_imp_neq[OF 2(2)] lt n by (simp add: bitmap_scan_def Let_def)
    qed (use 2 f in simp_all)
  qed
qed

lemma bitmap_scan_run:
  assumes "bitmap_wf bm" "unat (bitmap_len bm) < length (bits bm)" "2 \<le> unat cnt"
  shows "\<exists>r. bitmap_scan bm cnt = Inr r \<and> first_run bm (unat cnt) (nbits bm + 1) r"
  using assms(1)
proof (cases rule: bitmap_scan_cases[where cnt = cnt])
  case full
  have "\<not> free_run bm r (unat cnt)" if "r + unat cnt \<le> nbits bm + 1" for r
  proof -
    have "used bm (r + 0)" using full(2) that assms(3) by simp
    then show ?thesis using assms(3) unfolding free_run_def
      by (metis less_le_trans zero_less_numeral)
  qed
  then show ?thesis using full(1) by (simp add: first_run_def)
next
  case (free f)
  let ?l = "of_nat (nbits bm) - f :: u32"
  have N: "nbits bm + 1 < 2 ^ 31" using assms(1) by (simp add: bitmap_wf_def nbits_def)
  then have "unat (of_nat (nbits bm) :: u32) = nbits bm" by (intro unat_of_nat_small) simp
  then have l: "unat ?l = nbits bm - unat f"
    using free(1) by (simp add: unat_sub word_le_nat_alt)
  have f1: "unat (f + 1) = Suc (unat f)" using free(1) N by (intro unat_plus1) simp
  have sum: "unat (f + 1) + unat ?l = nbits bm + 1" using f1 l free(1) by simp
  have "\<exists>r. scan_run bm cnt 1 (f + 1) ?l = Inr r \<and>
      first_run bm (unat cnt) (unat (f + 1) + unat ?l) r"
  proof (rule scan_run_first)
    show "unat (f + 1) + unat ?l \<le> 8 * length (bits bm)"
      using sum assms(2) by (simp add: nbits_def)
    show "unat (f + 1) + unat ?l < 2 ^ 31" using sum N by simp
    show "free_run bm (unat (f + 1) - unat 1) (unat 1)" using f1 free(2) by (simp add: free_run_def)
    show "no_run_before bm (unat cnt) (unat (f + 1) - unat 1) (unat (f + 1))"
      using f1 free(3) assms(3) unfolding no_run_before_def by (auto intro: less_SucI)
  qed (use f1 assms(3) in simp_all)
  moreover have "cnt \<noteq> 1" using assms(3) by auto
  ultimately show ?thesis using free sum by auto
qed

lemma bitmap_scan_single:
  assumes "bitmap_wf bm"
  shows "\<exists>r. bitmap_scan bm 1 = Inr r \<and> first_run bm 1 (nbits bm) r"
  using assms
proof (cases rule: bitmap_scan_cases[where cnt = 1])
  case full
  then show ?thesis by (auto simp: first_run_def free_run_def)
next
  case (free f)
  have "unat f < 2 ^ 31" using free(1) assms by (simp add: bitmap_wf_def nbits_def)
  then have "f \<noteq> -1" by (rule small_neq_minus1)
  then show ?thesis using free by (auto simp: first_run_def free_run_def)
qed

text \<open>Searching for one bit and setting it, the way every allocator of the kernel does.\<close>

lemma bitmap_take_one:
  assumes "bitmap_wf bm"
  obtains (full) "bitmap_scan bm 1 = Inr (-1)" "\<forall>k < nbits bm. used bm k"
  | (free) i bm' where "bitmap_scan bm 1 = Inr i" "i \<noteq> -1" "unat i < nbits bm" "\<not> used bm (unat i)"
      "bitmap_set bm i 1 = Inr bm'" "bitmap_wf bm'" "nbits bm' = nbits bm"
      "used bm' = (used bm)(unat i := True)"
proof -
  obtain r where r: "bitmap_scan bm 1 = Inr r" "first_run bm 1 (nbits bm) r"
    using bitmap_scan_single[OF assms] by blast
  show ?thesis
  proof (cases "r = -1")
    case True
    then show ?thesis using r full by (auto simp: first_run_def free_run_def)
  next
    case False
    then have i: "unat r < nbits bm" "\<not> used bm (unat r)"
      using r(2) by (auto simp: first_run_def free_run_def)
    then have "unat r div 8 < length (bits bm)"
      using assms by (auto simp: bitmap_wf_def nbits_def)
    then obtain bm' where "bitmap_set bm r 1 = Inr bm'" "bitmap_len bm' = bitmap_len bm"
      "length (bits bm') = length (bits bm)" "used bm' = (used bm)(unat r := True)"
      using bitmap_set_ok[of r bm 1] by auto
    then show ?thesis using free[OF r(1) False i] assms by (simp add: bitmap_wf_def nbits_def)
  qed
qed

section \<open>Properties\<close>

text \<open>
  \<^verbatim>\<open>bitmap_set\<close> with value 0 or 1, at an index whose byte exists, sets that bit to
  that value and changes no other bit, nor the length.
\<close>

theorem bitmap_set_exact:
  assumes "unat i div 8 < length (bits bm)" and "v = 0 \<or> v = 1"
  shows "\<exists>bm'. bitmap_set bm i v = Inr bm' \<and> bitmap_len bm' = bitmap_len bm \<and>
     length (bits bm') = length (bits bm) \<and> used bm' = (used bm)(unat i := v = 1)"
  by (rule bitmap_set_ok[OF assms])

theorem bitmap_set_exact_witness:
  "\<exists>bm'. bitmap_set \<lparr>bitmap_len = 2, bits = [0, 0]\<rparr> 11 1 = Inr bm' \<and>
     used bm' = (used \<lparr>bitmap_len = 2, bits = [0, 0]\<rparr>)(11 := True)"
  using bitmap_set_exact[of 11 "\<lparr>bitmap_len = 2, bits = [0, 0]\<rparr>" 1] by auto

text \<open>
  \<^verbatim>\<open>bitmap_scan\<close> for one bit returns the first clear bit of the bitmap, and -1
  exactly when every bit is set; it reads no byte outside of the bitmap.
\<close>

theorem bitmap_scan_one:
  assumes "bitmap_wf bm"
  shows "\<exists>r. bitmap_scan bm 1 = Inr r \<and> first_run bm 1 (nbits bm) r"
  by (rule bitmap_scan_single[OF assms])

theorem bitmap_scan_one_witness:
  "\<exists>r. bitmap_scan \<lparr>bitmap_len = 2, bits = [0xff, 0x07]\<rparr> 1 = Inr r \<and>
     first_run \<lparr>bitmap_len = 2, bits = [0xff, 0x07]\<rparr> 1 16 r"
  using bitmap_scan_one[of "\<lparr>bitmap_len = 2, bits = [0xff, 0x07]\<rparr>"]
  by (simp add: bitmap_wf_def nbits_def)

text \<open>
  C30: for two bits or more, with a readable byte behind the bitmap, \<^verbatim>\<open>bitmap_scan\<close>
  returns the first run of that many clear bits among the bits of the bitmap and the one bit
  that follows it, and -1 where there is none.
\<close>

theorem bitmap_scan_first_fit:
  assumes "bitmap_wf bm" and "unat (bitmap_len bm) < length (bits bm)" and "2 \<le> unat cnt"
  shows "\<exists>r. bitmap_scan bm cnt = Inr r \<and> first_run bm (unat cnt) (nbits bm + 1) r"
  by (rule bitmap_scan_run[OF assms])

theorem bitmap_scan_first_fit_witness:
  "\<exists>r. bitmap_scan \<lparr>bitmap_len = 2, bits = [0x5f, 0x01, 0xff]\<rparr> 3 = Inr r \<and>
     first_run \<lparr>bitmap_len = 2, bits = [0x5f, 0x01, 0xff]\<rparr> 3 17 r"
  using bitmap_scan_first_fit[of "\<lparr>bitmap_len = 2, bits = [0x5f, 0x01, 0xff]\<rparr>" 3]
  by (simp add: bitmap_wf_def nbits_def)

text \<open>
  The run found may include the bit behind the bitmap: if all bits of the bitmap and that one
  are clear, a request for one bit more than the bitmap has is granted.
\<close>

theorem bitmap_scan_grants_bit_behind:
  assumes "bitmap_wf bm" and "unat (bitmap_len bm) < length (bits bm)" and "0 < nbits bm"
    and "free_run bm 0 (nbits bm + 1)"
  shows "bitmap_scan bm (of_nat (nbits bm + 1)) = Inr 0"
proof -
  have "nbits bm + 1 < 2 ^ 32" using assms(1) by (simp add: bitmap_wf_def nbits_def)
  then have n: "unat (of_nat (nbits bm + 1) :: u32) = nbits bm + 1"
    by (intro unat_of_nat_small) simp
  then obtain r where r: "bitmap_scan bm (of_nat (nbits bm + 1)) = Inr r"
      "first_run bm (nbits bm + 1) (nbits bm + 1) r"
    using bitmap_scan_run[OF assms(1,2), of "of_nat (nbits bm + 1)"] assms(3) by auto
  from r(2) assms(4) have "unat r = 0" by (auto simp: first_run_def split: if_splits)
  then show ?thesis using r(1) by (simp add: unat_eq_zero)
qed

lemma free_bits: "free_run \<lparr>bitmap_len = 1, bits = [0, 0]\<rparr> 0 9"
proof -
  have "[0, 0] ! (k div 8) = (0::u8)" if "k < 9" for k
    using that by (cases "k div 8") (auto simp: nth_Cons')
  then show ?thesis by (simp add: free_run_def used_def)
qed

theorem bitmap_scan_grants_bit_behind_witness:
  "bitmap_scan \<lparr>bitmap_len = 1, bits = [0, 0]\<rparr> 9 = Inr 0"
  using bitmap_scan_grants_bit_behind[of "\<lparr>bitmap_len = 1, bits = [0, 0]\<rparr>"]
    free_bits
  by (simp add: bitmap_wf_def nbits_def)

end
