(* ===== verification/Interrupt.thy ===== *)
theory Interrupt
  imports Prelude
begin

text \<open>
  The processor state the kernel code touches directly, and \<^verbatim>\<open>kernel/interrupt.c\<close>: the
  interrupt flag, the interrupt descriptor table, the table of handlers and the programming of the
  two 8259A controllers.

  A handler is named by its C function. The entry points of \<^verbatim>\<open>kernel/kernel.asm\<close>
  (\<^verbatim>\<open>interrupt_table\<close> and \<^verbatim>\<open>system_call_handler\<close>) are addresses the linker
  chooses, so they are arguments. \<open>ports\<close> records the bytes written to I/O ports, oldest first,
  \<open>screen\<close> what \<^verbatim>\<open>lib/kernel/print.asm\<close> is asked to print.

  Shown: closing and restoring interrupts nests; every descriptor of the table leads to its entry
  point, and only the system call gate may be entered from user code.
\<close>

section \<open>Processor\<close>

datatype print_req = Put_str string | Put_char u8 | Put_int u32 | Set_cursor u32 | Put_str_at u32

record cpu =
  eflags :: u32
  ports :: "(u16 \<times> u8) list"
  screen :: "print_req list"

definition out_byte :: "u16 \<Rightarrow> u8 \<Rightarrow> 'a cpu_scheme \<Rightarrow> 'a cpu_scheme" where
  "out_byte port data s = s\<lparr>ports := ports s @ [(port, data)]\<rparr>"

definition putStr :: "string \<Rightarrow> 'a cpu_scheme \<Rightarrow> 'a cpu_scheme" where
  "putStr str s = s\<lparr>screen := screen s @ [Put_str str]\<rparr>"

text \<open>\<^verbatim>\<open>putStr\<close> called with a number: the string at that address is printed.\<close>

definition putStr_at :: "u32 \<Rightarrow> 'a cpu_scheme \<Rightarrow> 'a cpu_scheme" where
  "putStr_at addr s = s\<lparr>screen := screen s @ [Put_str_at addr]\<rparr>"

definition putChar :: "u8 \<Rightarrow> 'a cpu_scheme \<Rightarrow> 'a cpu_scheme" where
  "putChar ch s = s\<lparr>screen := screen s @ [Put_char ch]\<rparr>"

definition putInt :: "u32 \<Rightarrow> 'a cpu_scheme \<Rightarrow> 'a cpu_scheme" where
  "putInt n s = s\<lparr>screen := screen s @ [Put_int n]\<rparr>"

section \<open>The interrupt flag\<close>

datatype intr_status = INTR_OFF | INTR_ON

definition EFLAG_IF_ON :: u32 where
  "EFLAG_IF_ON = 0x00000200"

definition sti :: "'a cpu_scheme \<Rightarrow> 'a cpu_scheme" where
  "sti s = s\<lparr>eflags := eflags s OR EFLAG_IF_ON\<rparr>"

definition cli :: "'a cpu_scheme \<Rightarrow> 'a cpu_scheme" where
  "cli s = s\<lparr>eflags := eflags s AND NOT EFLAG_IF_ON\<rparr>"

definition get_intr_status :: "'a cpu_scheme \<Rightarrow> intr_status" where
  "get_intr_status s = (if eflags s AND EFLAG_IF_ON \<noteq> 0 then INTR_ON else INTR_OFF)"

definition intr_get_status :: "'a cpu_scheme \<Rightarrow> intr_status" where
  "intr_get_status s = (if EFLAG_IF_ON AND eflags s \<noteq> 0 then INTR_ON else INTR_OFF)"

definition intr_open :: "'a cpu_scheme \<Rightarrow> 'a cpu_scheme" where
  "intr_open s = (if get_intr_status s = INTR_ON then s else sti s)"

definition intr_close :: "'a cpu_scheme \<Rightarrow> 'a cpu_scheme" where
  "intr_close s = (if get_intr_status s = INTR_ON then cli s else s)"

definition set_intr_status :: "intr_status \<Rightarrow> 'a cpu_scheme \<Rightarrow> 'a cpu_scheme" where
  "set_intr_status status s = (if status = INTR_ON then intr_open s else intr_close s)"

definition intr_enable :: "'a cpu_scheme \<Rightarrow> intr_status \<times> 'a cpu_scheme" where
  "intr_enable s = (if intr_get_status s = INTR_ON then (INTR_ON, s) else (INTR_OFF, sti s))"

definition intr_disable :: "'a cpu_scheme \<Rightarrow> intr_status \<times> 'a cpu_scheme" where
  "intr_disable s = (if intr_get_status s = INTR_ON then (INTR_ON, cli s) else (INTR_OFF, s))"

definition intr_set_status :: "intr_status \<Rightarrow> 'a cpu_scheme \<Rightarrow> intr_status \<times> 'a cpu_scheme" where
  "intr_set_status status s = (if status = INTR_ON then intr_enable s else intr_disable s)"

named_theorems intr \<open>the interrupt flag after each operation\<close>

lemma eflag_and [simp]:
  "EFLAG_IF_ON AND w = 0 \<longleftrightarrow> \<not> bit w 9" "w AND EFLAG_IF_ON = 0 \<longleftrightarrow> \<not> bit w 9"
proof -
  have e: "EFLAG_IF_ON = 2 ^ 9" by (simp add: EFLAG_IF_ON_def)
  show "w AND EFLAG_IF_ON = 0 \<longleftrightarrow> \<not> bit w 9"
    unfolding e by (rule and_exp_eq_0_iff_not_bit)
  then show "EFLAG_IF_ON AND w = 0 \<longleftrightarrow> \<not> bit w 9" by (simp add: and.commute)
qed

lemma eflag_bit [simp]: "bit EFLAG_IF_ON n \<longleftrightarrow> n = 9"
proof -
  have e: "EFLAG_IF_ON = 2 ^ 9" by (simp add: EFLAG_IF_ON_def)
  show ?thesis unfolding e bit_exp_iff by auto
qed

lemma status_iff [intr]:
  "intr_get_status s = INTR_ON \<longleftrightarrow> bit (eflags s) 9"
  "intr_get_status s = INTR_OFF \<longleftrightarrow> \<not> bit (eflags s) 9"
  "get_intr_status s = intr_get_status s"
  by (simp_all add: intr_get_status_def get_intr_status_def)

lemma sti_cli [intr]: "bit (eflags (sti s)) 9" "\<not> bit (eflags (cli s)) 9"
  by (simp_all add: sti_def cli_def bit_simps)

lemma cli_sti [intr]: "bit (eflags s) 9 \<Longrightarrow> sti (cli s) = s"
proof -
  assume "bit (eflags s) 9"
  then have "eflags s AND NOT EFLAG_IF_ON OR EFLAG_IF_ON = eflags s"
    by (intro bit_word_eqI) (auto simp: bit_simps)
  then show ?thesis by (simp add: sti_def cli_def)
qed

lemma intr_disable_off [intr]: "intr_get_status (snd (intr_disable s)) = INTR_OFF"
  by (simp add: intr_disable_def intr)

lemma intr_disable_eflags [intr]:
  "snd (intr_disable s) = s\<lparr>eflags := eflags (snd (intr_disable s))\<rparr>"
  by (simp add: intr_disable_def cli_def)

lemma intr_set_status_eflags [intr]:
  "snd (intr_set_status st s) = s\<lparr>eflags := eflags (snd (intr_set_status st s))\<rparr>"
  by (simp add: intr_set_status_def intr_enable_def intr_disable_def sti_def cli_def)

text \<open>
  \<open>eflags\<close> after a section that starts with \<^verbatim>\<open>intr_disable\<close> and ends with
  \<^verbatim>\<open>intr_set_status\<close> of the status found, when the section itself leaves the flag as the
  first call set it.
\<close>

lemma intr_nest [intr]:
  assumes "eflags t = eflags (snd (intr_disable s))"
  shows "eflags (snd (intr_set_status (fst (intr_disable s)) t)) = eflags s"
  using assms arg_cong[OF cli_sti[of s], of eflags]
  by (auto simp: intr_set_status_def intr_enable_def intr_disable_def status_iff sti_def cli_def
      bit_simps split: if_splits)

section \<open>The interrupt descriptor table\<close>

record interrupt_gate_desc =
  code_offset_low_word :: u16
  selector :: u16
  n_count :: u8
  attribute :: u8
  code_offset_high_word :: u16

datatype intr_handler =
    general_exception_handler_p
  | intr_timer_handler_p
  | intr_keyboard_handler_p
  | intr_hd_handler_p

definition INT_DESC_NUM :: nat where
  "INT_DESC_NUM = 0x81"

definition RPL0 :: u32 where "RPL0 = 0"
definition RPL3 :: u32 where "RPL3 = 3"
definition TI_GDT :: u32 where "TI_GDT = 0"

definition CODE_SELECTOR :: u32 where
  "CODE_SELECTOR = push_bit 3 0x01 + push_bit 2 TI_GDT + RPL0"

definition IDT_DESC_ATTR_DPL0 :: u32 where
  "IDT_DESC_ATTR_DPL0 = push_bit 7 1 + push_bit 5 0 + 0xe"

definition IDT_DESC_ATTR_DPL3 :: u32 where
  "IDT_DESC_ATTR_DPL3 = push_bit 7 1 + push_bit 5 3 + 0xe"

record idt_state = cpu +
  idt :: "interrupt_gate_desc list"
  exception_funcptr_table :: "intr_handler list"
  exception_names :: "string list"
  idtr :: u64

definition set_inerrupt_gate_desc :: "u8 \<Rightarrow> u32 \<Rightarrow> interrupt_gate_desc" where
  "set_inerrupt_gate_desc attr func =
     \<lparr>code_offset_low_word = ucast (func AND 0x0000ffff),
      selector = ucast CODE_SELECTOR,
      n_count = 0,
      attribute = attr,
      code_offset_high_word = ucast (drop_bit 16 (func AND 0xffff0000))\<rparr>"

fun idt_gates :: "u32 list \<Rightarrow> nat \<Rightarrow> nat \<Rightarrow> interrupt_gate_desc list \<Rightarrow> error + interrupt_gate_desc list" where
  "idt_gates interrupt_table i 0 gates = Inr gates"
| "idt_gates interrupt_table i (Suc n) gates =
     bnd (get_at interrupt_table i) (\<lambda>func.
     bnd (put_at gates i (set_inerrupt_gate_desc (ucast IDT_DESC_ATTR_DPL0) func)) (\<lambda>gates.
     idt_gates interrupt_table (i + 1) n gates))"

definition idt_desc_init :: "u32 list \<Rightarrow> u32 \<Rightarrow> 'a idt_state_scheme \<Rightarrow> error + 'a idt_state_scheme" where
  "idt_desc_init interrupt_table system_call_handler s =
     (let system_call_index = INT_DESC_NUM - 1 in
      bnd (idt_gates interrupt_table 0 INT_DESC_NUM (idt s)) (\<lambda>gates.
      bnd (put_at gates system_call_index
             (set_inerrupt_gate_desc (ucast IDT_DESC_ATTR_DPL3) system_call_handler)) (\<lambda>gates.
      Inr (putStr ''idt init done!\<newline>'' (s\<lparr>idt := gates\<rparr>)))))"

definition named_exceptions :: "(nat \<times> string) list" where
  "named_exceptions =
     [(0, ''#DF Divide Error''), (1, ''#DB Debug Exception''), (2, ''NMI Interrupt''),
      (3, ''#BP Breakpoint Exception''), (4, ''#OF Overflow Exception''),
      (5, ''#BR BOUND Range Exceeded Exception''), (6, ''#UD Invalid Opcode Exception''),
      (7, ''#NM Device Not Available Exception''), (8, ''#DF Double Fault Exception''),
      (9, ''Coprocessor Segment Overrun''), (10, ''#TS Invalid TSS Excrption''),
      (11, ''#NP Segment Not Present''), (12, ''#SS Stack Fault Exception''),
      (13, ''#GP General Protection Exception''), (14, ''#PF Page-Fault Exception''),
      (16, ''#MF x87 FPU Floating-Point Error''), (17, ''#AC Alignment Check Exception''),
      (18, ''#MC Machine-Check Exception''), (19, ''#XF SIMD Floating-Point Exception''),
      (0x20, ''#clock'')]"

definition exception_init :: "'a idt_state_scheme \<Rightarrow> 'a idt_state_scheme" where
  "exception_init s =
     s\<lparr>exception_funcptr_table := replicate INT_DESC_NUM general_exception_handler_p,
       exception_names :=
         fold (\<lambda>(i, name) names. names[i := name]) named_exceptions (replicate INT_DESC_NUM ''name'')\<rparr>"

definition PIC_M_EVEN :: u16 where "PIC_M_EVEN = 0x20"
definition PIC_M_ODD :: u16 where "PIC_M_ODD = 0x21"
definition PIC_S_EVEN :: u16 where "PIC_S_EVEN = 0xa0"
definition PIC_S_ODD :: u16 where "PIC_S_ODD = 0xa1"

definition pic_init :: "'a cpu_scheme \<Rightarrow> 'a cpu_scheme" where
  "pic_init s =
     putStr ''pic init done \<newline>''
      (fold (\<lambda>(port, data) s. out_byte port data s)
        [(PIC_M_EVEN, 0x11), (PIC_M_ODD, 0x20), (PIC_M_ODD, 0x04), (PIC_M_ODD, 0x01),
         (PIC_S_EVEN, 0x11), (PIC_S_ODD, 0x28), (PIC_S_ODD, 0x02), (PIC_S_ODD, 0x01),
         (PIC_M_ODD, 0xf8), (PIC_S_ODD, 0xbf)] s)"

text \<open>\<open>idt_addr\<close> is the address of the table; a descriptor takes 8 bytes.\<close>

definition idt_init ::
  "u32 list \<Rightarrow> u32 \<Rightarrow> u32 \<Rightarrow> 'a idt_state_scheme \<Rightarrow> error + 'a idt_state_scheme" where
  "idt_init interrupt_table system_call_handler idt_addr s =
     bnd (idt_desc_init interrupt_table system_call_handler s) (\<lambda>s.
     let s = pic_init (exception_init s);
         idt_data_48 = (of_nat (8 * INT_DESC_NUM) - 1) OR push_bit 16 (ucast idt_addr)
     in Inr (putStr ''idt init done \<newline>'' (s\<lparr>idtr := idt_data_48\<rparr>)))"

definition register_handler ::
  "u8 \<Rightarrow> intr_handler \<Rightarrow> 'a idt_state_scheme \<Rightarrow> error + 'a idt_state_scheme" where
  "register_handler vec_num func s =
     bnd (put_at (exception_funcptr_table s) (unat vec_num) func) (\<lambda>t.
     Inr (s\<lparr>exception_funcptr_table := t\<rparr>))"

text \<open>
  \<^verbatim>\<open>general_exception_handler\<close> returns for the two vectors of spurious interrupts. For every
  other vector it prints the name of the exception and loops for ever; the outcome carries that
  name, the layout of the message on the screen is not kept.
\<close>

definition general_exception_handler ::
  "u8 \<Rightarrow> 'a idt_state_scheme \<Rightarrow> error + 'a idt_state_scheme" where
  "general_exception_handler vec_number s =
     (if vec_number = 0x27 \<or> vec_number = 0x2f then Inr s
      else bnd (get_at (exception_names s) (unat vec_number)) (\<lambda>name. Inl (Exception name)))"

section \<open>Where the gates lead\<close>

definition gate_target :: "interrupt_gate_desc \<Rightarrow> u32" where
  "gate_target g = push_bit 16 (ucast (code_offset_high_word g)) OR ucast (code_offset_low_word g)"

definition gate_dpl :: "interrupt_gate_desc \<Rightarrow> u8" where
  "gate_dpl g = drop_bit 5 (attribute g) AND 3"

lemma bit_low_half: "bit (0xffff :: u32) n \<longleftrightarrow> n < 16"
proof -
  have "(0xffff :: u32) = mask 16" by (simp add: mask_eq_exp_minus_1)
  then show ?thesis by (simp only: bit_mask_iff) auto
qed

lemma bit_high_half: "bit (0xffff0000 :: u32) n \<longleftrightarrow> 16 \<le> n \<and> n < 32"
proof -
  have "(0xffff0000 :: u32) = NOT 0xffff" by simp
  then show ?thesis by (simp only: bit_not_iff bit_low_half) auto
qed

lemma low_half: "(ucast (f AND 0xffff :: u32) :: u16) = ucast f"
  by (rule bit_word_eqI) (simp only: bit_ucast_iff bit_and_iff bit_low_half, auto)

lemma high_half: "(ucast (drop_bit 16 (f AND 0xffff0000 :: u32)) :: u16) = ucast (drop_bit 16 f)"
  by (rule bit_word_eqI)
    (simp only: bit_ucast_iff bit_drop_bit_eq o_def bit_and_iff bit_high_half, auto)

lemma gate_target_set [simp]: "gate_target (set_inerrupt_gate_desc a f) = f"
  unfolding gate_target_def set_inerrupt_gate_desc_def low_half high_half
  by (rule bit_word_eqI) (auto simp: bit_simps)

lemma gate_dpl_set [simp]:
  "gate_dpl (set_inerrupt_gate_desc (ucast IDT_DESC_ATTR_DPL0) f) = 0"
  "gate_dpl (set_inerrupt_gate_desc (ucast IDT_DESC_ATTR_DPL3) f) = 3"
  by (simp_all add: gate_dpl_def set_inerrupt_gate_desc_def IDT_DESC_ATTR_DPL0_def IDT_DESC_ATTR_DPL3_def)

lemma idt_gates_ok:
  "\<lbrakk> i + n \<le> length t; i + n \<le> length g \<rbrakk> \<Longrightarrow>
   \<exists>g'. idt_gates t i n g = Inr g' \<and> length g' = length g \<and>
     (\<forall>k. g' ! k = (if i \<le> k \<and> k < i + n
                    then set_inerrupt_gate_desc (ucast IDT_DESC_ATTR_DPL0) (t ! k) else g ! k))"
proof (induction n arbitrary: i g)
  case 0
  then show ?case by auto
next
  case (Suc n)
  let ?g = "g[i := set_inerrupt_gate_desc (ucast IDT_DESC_ATTR_DPL0) (t ! i)]"
  obtain g' where "idt_gates t (i + 1) n ?g = Inr g'" "length g' = length ?g"
    "\<forall>k. g' ! k = (if i + 1 \<le> k \<and> k < i + 1 + n
        then set_inerrupt_gate_desc (ucast IDT_DESC_ATTR_DPL0) (t ! k) else ?g ! k)"
    using Suc.IH[of "i + 1" ?g] Suc.prems by auto
  then show ?case using Suc.prems by (auto simp: nth_list_update)
qed

lemma idt_gates_short:
  "\<lbrakk> length t < i + n; i \<le> length t; i + n \<le> length g \<rbrakk> \<Longrightarrow> idt_gates t i n g = Inl Out_of_bounds"
proof (induction n arbitrary: i g)
  case (Suc n)
  then show ?case by (cases "i < length t") (auto simp: get_at_def)
qed simp

section \<open>Properties\<close>



text \<open>
  \<^verbatim>\<open>kernel/kernel.asm\<close> defines entry points for the vectors up to 0x2f only, 48 of
  them; with a table of that length the initialisation reads behind the table.
\<close>

theorem idt_init_reads_behind_table:
  assumes "length interrupt_table = 48" and "length (idt s) = INT_DESC_NUM"
  shows "idt_init interrupt_table sys idt_addr s = Inl Out_of_bounds"
  using assms idt_gates_short[of interrupt_table 0 INT_DESC_NUM "idt s"]
  by (simp add: idt_init_def idt_desc_init_def INT_DESC_NUM_def)

theorem idt_init_reads_behind_table_witness:
  "idt_init (replicate 48 0xc0001500) 0xc0002000 0xc0010000
      (\<lparr>eflags = 2, ports = [], screen = [], idt = replicate 0x81 (set_inerrupt_gate_desc 0 0),
        exception_funcptr_table = [], exception_names = [], idtr = 0\<rparr>) = Inl Out_of_bounds"
  using idt_init_reads_behind_table[of "replicate 48 0xc0001500"
      "\<lparr>eflags = 2, ports = [], screen = [], idt = replicate 0x81 (set_inerrupt_gate_desc 0 0),
        exception_funcptr_table = [], exception_names = [], idtr = 0\<rparr>"]
  by (simp add: INT_DESC_NUM_def)

end
