(* ===== verification/Fifo.thy ===== *)
theory Fifo
  imports Prelude
begin

text \<open>
  The contract of a first-in first-out container, which two parts of the kernel provide: the
  doubly linked lists, through \<^verbatim>\<open>list_append\<close> and \<^verbatim>\<open>list_pop\<close>, and the
  ring buffer of the keyboard, through the unblocked \<^verbatim>\<open>ioq_putchar\<close> and
  \<^verbatim>\<open>ioq_getchar\<close>. \<open>holds s xs\<close> relates a state to the sequence it stands for, \<open>room x s\<close>
  says that \<open>x\<close> can be put in.
\<close>

fun run_puts :: "('a \<Rightarrow> 's \<Rightarrow> error + 's) \<Rightarrow> 'a list \<Rightarrow> 's \<Rightarrow> error + 's" where
  "run_puts put [] s = Inr s"
| "run_puts put (x # xs) s = bnd (put x s) (\<lambda>s. run_puts put xs s)"

fun run_gets :: "('s \<Rightarrow> error + ('a \<times> 's)) \<Rightarrow> nat \<Rightarrow> 's \<Rightarrow> error + ('a list \<times> 's)" where
  "run_gets get 0 s = Inr ([], s)"
| "run_gets get (Suc n) s =
     bnd (get s) (\<lambda>(x, s). bnd (run_gets get n s) (\<lambda>(xs, s). Inr (x # xs, s)))"

locale fifo =
  fixes holds :: "'s \<Rightarrow> 'a list \<Rightarrow> bool"
    and room :: "'a list \<Rightarrow> 's \<Rightarrow> bool"
    and put :: "'a \<Rightarrow> 's \<Rightarrow> error + 's"
    and get :: "'s \<Rightarrow> error + ('a \<times> 's)"
  assumes put_holds: "\<lbrakk> holds s xs; room (x # ys) s \<rbrakk> \<Longrightarrow>
      \<exists>s'. put x s = Inr s' \<and> holds s' (xs @ [x]) \<and> room ys s'"
    and get_holds: "holds s (x # xs) \<Longrightarrow> \<exists>s'. get s = Inr (x, s') \<and> holds s' xs"
begin

lemma puts_hold:
  "\<lbrakk> holds s xs; room ys s \<rbrakk> \<Longrightarrow> \<exists>s'. run_puts put ys s = Inr s' \<and> holds s' (xs @ ys)"
proof (induction ys arbitrary: s xs)
  case Nil
  then show ?case by simp
next
  case (Cons y ys)
  obtain t where t: "put y s = Inr t" "holds t (xs @ [y])" "room ys t"
    using put_holds[OF Cons.prems] by blast
  obtain s' where "run_puts put ys t = Inr s'" "holds s' ((xs @ [y]) @ ys)"
    using Cons.IH[OF t(2,3)] by blast
  then show ?case using t(1) by simp
qed

lemma gets_hold:
  "holds s (xs @ ys) \<Longrightarrow> \<exists>s'. run_gets get (length xs) s = Inr (xs, s') \<and> holds s' ys"
proof (induction xs arbitrary: s)
  case Nil
  then show ?case by simp
next
  case (Cons x xs)
  obtain t where t: "get s = Inr (x, t)" "holds t (xs @ ys)"
    using get_holds[of s x "xs @ ys"] Cons.prems by auto
  then show ?case using Cons.IH[OF t(2)] by auto
qed

text \<open>What goes into an empty container comes out in the same order.\<close>

lemma in_order:
  assumes "holds s []" "room ys s"
  shows "\<exists>s' s''. run_puts put ys s = Inr s' \<and> run_gets get (length ys) s' = Inr (ys, s'') \<and>
    holds s'' []"
proof -
  obtain s' where s': "run_puts put ys s = Inr s'" "holds s' ys"
    using puts_hold[OF assms] by auto
  then obtain s'' where "run_gets get (length ys) s' = Inr (ys, s'')" "holds s'' []"
    using gets_hold[of s' ys "[]"] by auto
  with s' show ?thesis by blast
qed

end

end
