(* ===== verification/KList.thy ===== *)
theory KList
  imports Interrupt Fifo
begin

text \<open>
  The doubly linked lists of \<^verbatim>\<open>lib/kernel/list.c\<close>. The nodes are a store \<open>lheap\<close> from
  addresses to \<^verbatim>\<open>struct list_elem\<close>; a \<^verbatim>\<open>struct list\<close> at address \<open>p\<close> is its two
  sentinel nodes, \<^verbatim>\<open>head\<close> at \<open>p\<close> and \<^verbatim>\<open>tail\<close> at \<open>p + 8\<close>. The routines follow
  the pointers, whatever the store holds; a traversal that meets no end is \<open>Diverges\<close>.

  \<open>list_at h p xs\<close> says that the list at \<open>p\<close> is well linked and holds the nodes \<open>xs\<close>; \<open>lists_at h Q\<close>
  says so for a whole family of lists that share no node. Shown: under this invariant every
  routine acts as the corresponding operation on sequences, leaves all other lists of the
  family as they were and restores the interrupt flag.
\<close>

section \<open>Data and operations\<close>

record list_elem =
  l_prev :: u32
  l_next :: u32

record list_state = idt_state +
  lheap :: "u32 \<Rightarrow> list_elem"

definition head_of :: "u32 \<Rightarrow> u32" where "head_of plist = plist"
definition tail_of :: "u32 \<Rightarrow> u32" where "tail_of plist = plist + 8"

definition set_prev :: "u32 \<Rightarrow> u32 \<Rightarrow> 'a list_state_scheme \<Rightarrow> 'a list_state_scheme" where
  "set_prev e v s = s\<lparr>lheap := (lheap s)(e := (lheap s e)\<lparr>l_prev := v\<rparr>)\<rparr>"

definition set_next :: "u32 \<Rightarrow> u32 \<Rightarrow> 'a list_state_scheme \<Rightarrow> 'a list_state_scheme" where
  "set_next e v s = s\<lparr>lheap := (lheap s)(e := (lheap s e)\<lparr>l_next := v\<rparr>)\<rparr>"

definition prev_of :: "u32 \<Rightarrow> 'a list_state_scheme \<Rightarrow> u32" where
  "prev_of e s = l_prev (lheap s e)"

definition next_of :: "u32 \<Rightarrow> 'a list_state_scheme \<Rightarrow> u32" where
  "next_of e s = l_next (lheap s e)"

definition list_init :: "u32 \<Rightarrow> 'a list_state_scheme \<Rightarrow> 'a list_state_scheme" where
  "list_init plist s =
     (let s = set_prev (head_of plist) 0 s;
          s = set_next (tail_of plist) 0 s;
          s = set_next (head_of plist) (tail_of plist) s
      in set_prev (tail_of plist) (head_of plist) s)"

definition list_insert_before :: "u32 \<Rightarrow> u32 \<Rightarrow> 'a list_state_scheme \<Rightarrow> 'a list_state_scheme" where
  "list_insert_before before elem s =
     (let (old_status, s) = intr_disable s;
          s = set_next (prev_of before s) elem s;
          s = set_prev elem (prev_of before s) s;
          s = set_next elem before s;
          s = set_prev before elem s
      in snd (intr_set_status old_status s))"

definition list_push :: "u32 \<Rightarrow> u32 \<Rightarrow> 'a list_state_scheme \<Rightarrow> 'a list_state_scheme" where
  "list_push plist elem s = list_insert_before (next_of (head_of plist) s) elem s"

definition list_append :: "u32 \<Rightarrow> u32 \<Rightarrow> 'a list_state_scheme \<Rightarrow> 'a list_state_scheme" where
  "list_append plist elem s = list_insert_before (tail_of plist) elem s"

definition list_remove :: "u32 \<Rightarrow> 'a list_state_scheme \<Rightarrow> 'a list_state_scheme" where
  "list_remove elem s =
     (let (old_status, s) = intr_disable s;
          s = set_next (prev_of elem s) (next_of elem s) s;
          s = set_prev (next_of elem s) (prev_of elem s) s
      in snd (intr_set_status old_status s))"

definition list_pop :: "u32 \<Rightarrow> 'a list_state_scheme \<Rightarrow> u32 \<times> 'a list_state_scheme" where
  "list_pop plist s =
     (let pop_elem = next_of (head_of plist) s in (pop_elem, list_remove pop_elem s))"

partial_function (option) elem_find_loop ::
  "(u32 \<Rightarrow> list_elem) \<Rightarrow> u32 \<Rightarrow> u32 \<Rightarrow> u32 \<Rightarrow> bool option" where
  "elem_find_loop h stop obj help_elem =
     (if help_elem \<noteq> stop
      then (if help_elem = obj then Some True else elem_find_loop h stop obj (l_next (h help_elem)))
      else Some False)"

definition returned :: "'b option \<Rightarrow> error + 'b" where
  "returned r = (case r of None \<Rightarrow> Inl Diverges | Some x \<Rightarrow> Inr x)"

definition elem_find :: "u32 \<Rightarrow> u32 \<Rightarrow> 'a list_state_scheme \<Rightarrow> error + bool" where
  "elem_find plist obj s =
     returned (elem_find_loop (lheap s) (tail_of plist) obj (next_of (head_of plist) s))"

partial_function (option) list_len_loop ::
  "(u32 \<Rightarrow> list_elem) \<Rightarrow> u32 \<Rightarrow> u32 \<Rightarrow> u32 \<Rightarrow> u32 option" where
  "list_len_loop h stop help_elem len =
     (if help_elem \<noteq> stop then list_len_loop h stop (l_next (h help_elem)) (len + 1)
      else Some len)"

definition list_len :: "u32 \<Rightarrow> 'a list_state_scheme \<Rightarrow> error + u32" where
  "list_len plist s =
     returned (list_len_loop (lheap s) (tail_of plist) (next_of (head_of plist) s) 0)"

definition list_empty :: "u32 \<Rightarrow> 'a list_state_scheme \<Rightarrow> bool" where
  "list_empty plist s \<longleftrightarrow> next_of (head_of plist) s = tail_of plist"

text \<open>
  The callback of \<^verbatim>\<open>list_traveral\<close> reads and changes the state; it may also fail. The
  source's loop reads the successor after the call.
\<close>

partial_function (option) list_traveral_loop ::
  "(u32 \<Rightarrow> u32 \<Rightarrow> 'a list_state_scheme \<Rightarrow> error + (bool \<times> 'a list_state_scheme)) \<Rightarrow> u32 \<Rightarrow> u32 \<Rightarrow> u32
   \<Rightarrow> 'a list_state_scheme \<Rightarrow> (error + (u32 \<times> 'a list_state_scheme)) option" where
  "list_traveral_loop func arg stop help_elem s =
     (if help_elem \<noteq> stop
      then (case func help_elem arg s of
              Inl e \<Rightarrow> Some (Inl e)
            | Inr r \<Rightarrow> (if fst r then Some (Inr (help_elem, snd r))
                       else list_traveral_loop func arg stop (next_of help_elem (snd r)) (snd r)))
      else Some (Inr (0, s)))"

definition list_traveral ::
  "u32 \<Rightarrow> (u32 \<Rightarrow> u32 \<Rightarrow> 'a list_state_scheme \<Rightarrow> error + (bool \<times> 'a list_state_scheme)) \<Rightarrow> u32
   \<Rightarrow> 'a list_state_scheme \<Rightarrow> error + (u32 \<times> 'a list_state_scheme)" where
  "list_traveral plist func arg s =
     (if list_empty plist s then Inr (0, s)
      else bnd (returned (list_traveral_loop func arg (tail_of plist) (next_of (head_of plist) s) s))
             (\<lambda>r. r))"

section \<open>The effect on the store\<close>

definition insert_heap :: "u32 \<Rightarrow> u32 \<Rightarrow> (u32 \<Rightarrow> list_elem) \<Rightarrow> (u32 \<Rightarrow> list_elem)" where
  "insert_heap b e h =
     (let h = h(l_prev (h b) := (h (l_prev (h b)))\<lparr>l_next := e\<rparr>);
          h = h(e := (h e)\<lparr>l_prev := l_prev (h b)\<rparr>);
          h = h(e := (h e)\<lparr>l_next := b\<rparr>)
      in h(b := (h b)\<lparr>l_prev := e\<rparr>))"

definition remove_heap :: "u32 \<Rightarrow> (u32 \<Rightarrow> list_elem) \<Rightarrow> (u32 \<Rightarrow> list_elem)" where
  "remove_heap e h =
     (let h = h(l_prev (h e) := (h (l_prev (h e)))\<lparr>l_next := l_next (h e)\<rparr>)
      in h(l_next (h e) := (h (l_next (h e)))\<lparr>l_prev := l_prev (h e)\<rparr>))"

lemma intr_section:
  assumes "\<And>t. eflags (body t) = eflags t" "\<And>t. lheap (body t) = f (lheap t)"
    "\<And>t. body t = t\<lparr>lheap := lheap (body t)\<rparr>"
  shows "(let (old, t) = intr_disable s in snd (intr_set_status old (body t))) = s\<lparr>lheap := f (lheap s)\<rparr>"
proof -
  obtain old t where t: "intr_disable s = (old, t)" by fastforce
  obtain x where x: "t = s\<lparr>eflags := x\<rparr>" using intr_disable_eflags[of s] t by auto
  let ?u = "snd (intr_set_status old (body t))"
  have e: "eflags ?u = eflags s"
    using intr_nest[of "body t" s] t assms(1)[of t] by simp
  have b: "body t = t\<lparr>lheap := f (lheap s)\<rparr>"
    using assms(2)[of t] assms(3)[of t] x by simp
  have "?u = (body t)\<lparr>eflags := eflags s\<rparr>"
    using intr_set_status_eflags[of old "body t"] unfolding e .
  then show ?thesis using t b x by simp
qed

lemma list_insert_before_eq:
  "list_insert_before b e s = s\<lparr>lheap := insert_heap b e (lheap s)\<rparr>"
proof -
  let ?body = "\<lambda>s. set_prev b e (set_next e b (let s = set_next (prev_of b s) e s in
      set_prev e (prev_of b s) s))"
  have "list_insert_before b e s
      = (let (old, t) = intr_disable s in snd (intr_set_status old (?body t)))"
    by (simp add: list_insert_before_def Let_def)
  also have "\<dots> = s\<lparr>lheap := insert_heap b e (lheap s)\<rparr>"
    by (rule intr_section)
      (simp_all add: set_prev_def set_next_def prev_of_def insert_heap_def Let_def
        del: fun_upd_apply)
  finally show ?thesis .
qed

lemma list_remove_eq: "list_remove e s = s\<lparr>lheap := remove_heap e (lheap s)\<rparr>"
proof -
  let ?body = "\<lambda>s. let s = set_next (prev_of e s) (next_of e s) s in
      set_prev (next_of e s) (prev_of e s) s"
  have "list_remove e s
      = (let (old, t) = intr_disable s in snd (intr_set_status old (?body t)))"
    by (simp add: list_remove_def Let_def)
  also have "\<dots> = s\<lparr>lheap := remove_heap e (lheap s)\<rparr>"
    by (rule intr_section)
      (simp_all add: set_prev_def set_next_def prev_of_def next_of_def remove_heap_def Let_def
        del: fun_upd_apply)
  finally show ?thesis .
qed

section \<open>Well linked lists\<close>

fun links :: "(u32 \<Rightarrow> list_elem) \<Rightarrow> u32 list \<Rightarrow> bool" where
  "links h (a # b # ns) \<longleftrightarrow> l_next (h a) = b \<and> l_prev (h b) = a \<and> links h (b # ns)"
| "links h [a] \<longleftrightarrow> True"
| "links h [] \<longleftrightarrow> True"

definition nodes :: "u32 \<Rightarrow> u32 list \<Rightarrow> u32 list" where
  "nodes p xs = head_of p # xs @ [tail_of p]"

definition list_at :: "(u32 \<Rightarrow> list_elem) \<Rightarrow> u32 \<Rightarrow> u32 list \<Rightarrow> bool" where
  "list_at h p xs \<longleftrightarrow> distinct (nodes p xs) \<and> links h (nodes p xs)"

definition lists_at :: "(u32 \<Rightarrow> list_elem) \<Rightarrow> (u32 \<rightharpoonup> u32 list) \<Rightarrow> bool" where
  "lists_at h Q \<longleftrightarrow> (\<forall>p xs. Q p = Some xs \<longrightarrow> list_at h p xs) \<and>
     (\<forall>p q xs ys. Q p = Some xs \<longrightarrow> Q q = Some ys \<longrightarrow> p \<noteq> q \<longrightarrow>
        set (nodes p xs) \<inter> set (nodes q ys) = {})"

definition unlinked :: "u32 \<Rightarrow> (u32 \<rightharpoonup> u32 list) \<Rightarrow> bool" where
  "unlinked e Q \<longleftrightarrow> (\<forall>p xs. Q p = Some xs \<longrightarrow> e \<notin> set (nodes p xs))"

lemma links_append: "links h (xs @ a # ys) \<longleftrightarrow> links h (xs @ [a]) \<and> links h (a # ys)"
  by (induction xs rule: induct_list012) auto

lemma links_cong:
  "\<lbrakk> \<And>a. a \<in> set (butlast ns) \<Longrightarrow> l_next (h' a) = l_next (h a);
     \<And>a. a \<in> set (tl ns) \<Longrightarrow> l_prev (h' a) = l_prev (h a) \<rbrakk> \<Longrightarrow> links h' ns = links h ns"
  by (induction ns rule: induct_list012) auto

lemma in_set_tl: "a \<in> set (tl ns) \<Longrightarrow> a \<in> set ns"
  by (cases ns) auto

lemma links_same: "(\<And>a. a \<in> set ns \<Longrightarrow> h' a = h a) \<Longrightarrow> links h' ns = links h ns"
  by (rule links_cong) (metis in_set_butlastD, metis in_set_tl)

lemma links_upto:
  "\<lbrakk> \<And>a. a \<in> set xs \<Longrightarrow> h' a = h a; l_prev (h' l) = l_prev (h l) \<rbrakk> \<Longrightarrow>
   links h' (xs @ [l]) = links h (xs @ [l])"
  by (rule links_cong) (auto dest!: in_set_tl)

lemma links_from:
  "\<lbrakk> \<And>a. a \<in> set ys \<Longrightarrow> h' a = h a; l_next (h' b) = l_next (h b) \<rbrakk> \<Longrightarrow>
   links h' (b # ys) = links h (b # ys)"
  by (rule links_cong) (auto dest: in_set_butlastD split: if_splits)

lemma links_insert:
  assumes "links h (xs @ l # b # ys)" "distinct (xs @ l # b # ys)" "e \<notin> set (xs @ l # b # ys)"
  shows "links (insert_heap b e h) (xs @ l # e # b # ys)"
    and "\<And>a. a \<notin> {l, e, b} \<Longrightarrow> insert_heap b e h a = h a"
proof -
  have p: "l_prev (h b) = l" "links h (xs @ [l])" "links h (b # ys)"
    using assms(1) links_append[of h xs l "b # ys"] by auto
  let ?h = "insert_heap b e h"
  have l: "l \<noteq> e" "b \<noteq> e" "l \<noteq> b" using assms(2,3) by auto
  have h': "?h = h(l := (h l)\<lparr>l_next := e\<rparr>, e := (h e)\<lparr>l_prev := l, l_next := b\<rparr>,
      b := (h b)\<lparr>l_prev := e\<rparr>)"
    using l p(1) by (auto simp: insert_heap_def Let_def fun_upd_twist)
  have "links ?h (xs @ [l]) = links h (xs @ [l])"
    using assms(2,3) l by (intro links_upto) (auto simp: h')
  moreover have "links ?h (b # ys) = links h (b # ys)"
    using assms(2,3) l by (intro links_from) (auto simp: h')
  ultimately show "links ?h (xs @ l # e # b # ys)"
    using l p(2,3) by (subst links_append) (simp add: h')
  show "insert_heap b e h a = h a" if "a \<notin> {l, e, b}" for a
    using that by (simp add: h')
qed

lemma links_remove:
  assumes "links h (xs @ l # e # b # ys)" "distinct (xs @ l # e # b # ys)"
  shows "links (remove_heap e h) (xs @ l # b # ys)"
    and "\<And>a. a \<notin> {l, b} \<Longrightarrow> remove_heap e h a = h a"
proof -
  have p: "l_prev (h e) = l" "l_next (h e) = b" "links h (xs @ [l])" "links h (b # ys)"
    using assms(1) links_append[of h xs l "e # b # ys"] by auto
  let ?h = "remove_heap e h"
  have l: "l \<noteq> e" "b \<noteq> e" "l \<noteq> b" using assms(2) by auto
  have h': "?h = h(l := (h l)\<lparr>l_next := b\<rparr>, b := (h b)\<lparr>l_prev := l\<rparr>)"
    using l p(1,2) by (auto simp: remove_heap_def Let_def)
  have "links ?h (xs @ [l]) = links h (xs @ [l])"
    using assms(2) l by (intro links_upto) (auto simp: h')
  moreover have "links ?h (b # ys) = links h (b # ys)"
    using assms(2) l by (intro links_from) (auto simp: h')
  ultimately show "links ?h (xs @ l # b # ys)"
    using l p(3,4) by (subst links_append) (simp add: h')
  show "remove_heap e h a = h a" if "a \<notin> {l, b}" for a
    using that by (simp add: h')
qed

section \<open>Families of lists\<close>

lemma nodes_split: "nodes p (xs @ ys) = (head_of p # xs) @ ys @ [tail_of p]"
  by (simp add: nodes_def)

lemma head_neq_tail [simp]: "head_of p \<noteq> tail_of p"
  by (simp add: head_of_def tail_of_def)

lemma lists_atD:
  assumes "lists_at h Q" "Q p = Some xs"
  shows "list_at h p xs" "\<And>q ys. Q q = Some ys \<Longrightarrow> q \<noteq> p \<Longrightarrow> set (nodes p xs) \<inter> set (nodes q ys) = {}"
  using assms unfolding lists_at_def by blast+

text \<open>
  One list of a family is built or changed, within a set \<open>R\<close> of addresses where no other list of
  the family has a node: the others are as they were.
\<close>

lemma lists_at_change:
  assumes Q: "lists_at h Q" and new: "list_at h' p ys" "set (nodes p ys) \<subseteq> R"
    and other: "\<And>q zs. Q q = Some zs \<Longrightarrow> q \<noteq> p \<Longrightarrow> set (nodes q zs) \<inter> R = {}"
    and frame: "\<And>a. a \<notin> R \<Longrightarrow> h' a = h a"
  shows "lists_at h' (Q(p \<mapsto> ys))"
proof -
  have "list_at h' q zs" if "Q q = Some zs" "q \<noteq> p" for q zs
  proof -
    have "links h' (nodes q zs) = links h (nodes q zs)"
      using other[OF that] frame by (intro links_same) blast
    then show ?thesis using lists_atD(1)[OF Q that(1)] by (simp add: list_at_def)
  qed
  then show ?thesis
    using new other lists_atD(2)[OF Q] unfolding lists_at_def
    by (auto simp: map_upd_Some_unfold; blast)
qed

lemma lists_at_update:
  assumes Q: "lists_at h Q" and p: "Q p = Some xs"
    and new: "list_at h' p ys" and ns: "set ys \<subseteq> set xs \<union> E"
    and frame: "\<And>a. a \<notin> set (nodes p xs) \<union> E \<Longrightarrow> h' a = h a"
    and fresh: "\<And>e. e \<in> E \<Longrightarrow> unlinked e Q"
  shows "lists_at h' (Q(p \<mapsto> ys))"
proof (rule lists_at_change[OF Q new])
  show "set (nodes p ys) \<subseteq> set (nodes p xs) \<union> E" using ns by (auto simp: nodes_def)
  show "set (nodes q zs) \<inter> (set (nodes p xs) \<union> E) = {}" if "Q q = Some zs" "q \<noteq> p" for q zs
    using lists_atD(2)[OF Q p that] fresh that(1) by (auto simp: unlinked_def)
qed (rule frame)

lemma list_append_eq: "list_append p e s = s\<lparr>lheap := insert_heap (tail_of p) e (lheap s)\<rparr>"
  by (simp add: list_append_def list_insert_before_eq)

lemma list_push_eq:
  "list_push p e s = s\<lparr>lheap := insert_heap (l_next (lheap s (head_of p))) e (lheap s)\<rparr>"
  by (simp add: list_push_def list_insert_before_eq next_of_def)

lemma list_pop_eq:
  "list_pop p s = (l_next (lheap s (head_of p)),
     s\<lparr>lheap := remove_heap (l_next (lheap s (head_of p))) (lheap s)\<rparr>)"
  by (simp add: list_pop_def list_remove_eq next_of_def Let_def)

lemmas list_op_eqs = list_append_eq list_push_eq list_pop_eq list_remove_eq

lemma list_at_insert:
  assumes "list_at h p (xs @ ys)" "e \<notin> set (nodes p (xs @ ys))" "b = hd (ys @ [tail_of p])"
  shows "list_at (insert_heap b e h) p (xs @ e # ys)"
    and "\<And>a. a \<notin> insert e (set (nodes p (xs @ ys))) \<Longrightarrow> insert_heap b e h a = h a"
proof -
  define l as where "l = last (head_of p # xs)" and "as = butlast (head_of p # xs)"
  have "head_of p # xs = as @ [l]" unfolding l_def as_def by simp
  then have as: "head_of p # xs @ zs = as @ l # zs" for zs
    by (metis append.assoc append_Cons append_Nil)
  define bs where "bs = tl (ys @ [tail_of p])"
  have bs: "ys @ [tail_of p] = b # bs" using assms(3) bs_def by (cases ys) auto
  have n: "nodes p (xs @ ys) = as @ l # b # bs" "nodes p (xs @ e # ys) = as @ l # e # b # bs"
    using as bs by (simp_all add: nodes_def)
  have d: "links h (as @ l # b # bs)" "distinct (as @ l # b # bs)" "e \<notin> set (as @ l # b # bs)"
    using assms(1,2) n(1) by (simp_all add: list_at_def)
  show "list_at (insert_heap b e h) p (xs @ e # ys)"
    using links_insert(1)[OF d] d(2,3) unfolding list_at_def n(2) by auto
  show "insert_heap b e h a = h a" if "a \<notin> insert e (set (nodes p (xs @ ys)))" for a
    using links_insert(2)[OF d, of a] that n(1) by auto
qed

lemma list_at_remove:
  assumes "list_at h p (xs @ e # ys)"
  shows "list_at (remove_heap e h) p (xs @ ys)"
    and "\<And>a. a \<notin> set (nodes p (xs @ e # ys)) \<Longrightarrow> remove_heap e h a = h a"
proof -
  define l as where "l = last (head_of p # xs)" and "as = butlast (head_of p # xs)"
  have "head_of p # xs = as @ [l]" unfolding l_def as_def by simp
  then have as: "head_of p # xs @ zs = as @ l # zs" for zs
    by (metis append.assoc append_Cons append_Nil)
  define b bs where "b = hd (ys @ [tail_of p])" and "bs = tl (ys @ [tail_of p])"
  have bs: "ys @ [tail_of p] = b # bs" using b_def bs_def by (cases ys) auto
  have n: "nodes p (xs @ ys) = as @ l # b # bs" "nodes p (xs @ e # ys) = as @ l # e # b # bs"
    using as bs by (simp_all add: nodes_def)
  have d: "links h (as @ l # e # b # bs)" "distinct (as @ l # e # b # bs)"
    using assms n(2) by (simp_all add: list_at_def)
  show "list_at (remove_heap e h) p (xs @ ys)"
    using links_remove(1)[OF d] d(2) unfolding list_at_def n(1) by auto
  show "remove_heap e h a = h a" if "a \<notin> set (nodes p (xs @ e # ys))" for a
    using links_remove(2)[OF d, of a] that n(2) by auto
qed

lemma list_at_first: "list_at h p xs \<Longrightarrow> l_next (h (head_of p)) = hd (xs @ [tail_of p])"
  by (cases xs) (auto simp: list_at_def nodes_def)

lemma lists_at_append:
  assumes "lists_at h Q" "Q p = Some xs" "unlinked e Q"
  shows "lists_at (insert_heap (tail_of p) e h) (Q(p \<mapsto> xs @ [e]))"
proof -
  have l: "list_at h p (xs @ [])" "e \<notin> set (nodes p (xs @ []))"
    using assms by (auto simp: unlinked_def dest: lists_atD)
  show ?thesis
    by (rule lists_at_update[where E = "{e}", OF assms(1,2)])
      (use list_at_insert[OF l, of "tail_of p"] assms(3) in auto)
qed

lemma lists_at_push:
  assumes "lists_at h Q" "Q p = Some xs" "unlinked e Q"
  shows "lists_at (insert_heap (l_next (h (head_of p))) e h) (Q(p \<mapsto> e # xs))"
proof -
  have l: "list_at h p ([] @ xs)" "e \<notin> set (nodes p ([] @ xs))"
    using assms by (auto simp: unlinked_def dest: lists_atD)
  show ?thesis
    by (rule lists_at_update[where E = "{e}", OF assms(1,2)])
      (use list_at_insert[OF l] list_at_first[of h p xs] l(1) assms(3) in auto)
qed

lemma lists_at_remove:
  assumes "lists_at h Q" "Q p = Some (xs @ e # ys)"
  shows "lists_at (remove_heap e h) (Q(p \<mapsto> xs @ ys))"
  by (rule lists_at_update[where E = "{}", OF assms])
    (use list_at_remove[OF lists_atD(1)[OF assms]] in auto)

lemma lists_at_pop:
  assumes "lists_at h Q" "Q p = Some (x # xs)"
  shows "l_next (h (head_of p)) = x" "lists_at (remove_heap x h) (Q(p \<mapsto> xs))"
  using list_at_first[OF lists_atD(1)[OF assms]] lists_at_remove[of h Q p "[]" x xs] assms by auto

lemma unlinked_removed:
  assumes "lists_at h Q" "Q p = Some (xs @ e # ys)"
  shows "unlinked e (Q(p \<mapsto> xs @ ys))"
proof -
  have "distinct (nodes p (xs @ e # ys))" using lists_atD(1)[OF assms] by (simp add: list_at_def)
  then show ?thesis
    using lists_atD(2)[OF assms] unfolding unlinked_def
    by (auto simp: map_upd_Some_unfold nodes_def)
qed

lemma unlinked_update:
  assumes "unlinked e Q" "Q p = Some xs" "e \<notin> set ys"
  shows "unlinked e (Q(p \<mapsto> ys))"
  using assms unfolding unlinked_def by (auto simp: map_upd_Some_unfold nodes_def)

lemma linked_elsewhere:
  assumes "lists_at h Q" "Q p = Some xs" "Q q = Some ys" "e \<in> set xs" "p \<noteq> q"
  shows "e \<notin> set ys"
  using lists_atD(2)[OF assms(1,2,3)] assms(4,5) by (auto simp: nodes_def)

lemma lists_distinct: "lists_at h Q \<Longrightarrow> Q p = Some xs \<Longrightarrow> distinct xs"
  by (drule (1) lists_atD(1)) (simp add: list_at_def nodes_def)

lemma lists_at_init:
  assumes "lists_at (lheap s) Q" "unlinked (head_of p) Q" "unlinked (tail_of p) Q"
  shows "lists_at (lheap (list_init p s)) (Q(p \<mapsto> []))"
  using assms(1)
proof (rule lists_at_change[where R = "{head_of p, tail_of p}"])
  show "list_at (lheap (list_init p s)) p []"
    by (simp add: list_at_def nodes_def list_init_def set_prev_def set_next_def Let_def)
  show "lheap (list_init p s) a = lheap s a" if "a \<notin> {head_of p, tail_of p}" for a
    using that by (simp add: list_init_def set_prev_def set_next_def Let_def)
qed (use assms(2,3) in \<open>auto simp: unlinked_def nodes_def\<close>)

section \<open>Traversals\<close>

lemma links_step:
  "links h ((x # xs) @ [t]) \<Longrightarrow> l_next (h x) = hd (xs @ [t]) \<and> links h (xs @ [t])"
  by (cases xs) auto

lemma elem_find_loop_links:
  "\<lbrakk> links h (xs @ [t]); t \<notin> set xs \<rbrakk> \<Longrightarrow>
   elem_find_loop h t e (hd (xs @ [t])) = Some (e \<in> set xs)"
proof (induction xs)
  case Nil
  then show ?case by (simp add: elem_find_loop.simps)
next
  case (Cons x xs)
  have "l_next (h x) = hd (xs @ [t])" "links h (xs @ [t])"
    using links_step[OF Cons.prems(1)] by simp_all
  then show ?case using Cons by (auto simp: elem_find_loop.simps[of h t e x])
qed

lemma elem_find_ok: "list_at (lheap s) p xs \<Longrightarrow> elem_find p e s = Inr (e \<in> set xs)"
  using list_at_first[of "lheap s" p xs] elem_find_loop_links[of "lheap s" xs "tail_of p" e]
  by (cases xs) (auto simp: elem_find_def next_of_def returned_def list_at_def nodes_def)

lemma list_len_loop_links:
  "\<lbrakk> links h (xs @ [t]); t \<notin> set xs \<rbrakk> \<Longrightarrow>
   list_len_loop h t (hd (xs @ [t])) n = Some (n + of_nat (length xs))"
proof (induction xs arbitrary: n)
  case Nil
  then show ?case by (simp add: list_len_loop.simps)
next
  case (Cons x xs)
  have "l_next (h x) = hd (xs @ [t])" "links h (xs @ [t])"
    using links_step[OF Cons.prems(1)] by simp_all
  then show ?case using Cons by (auto simp: list_len_loop.simps[of h t x] algebra_simps)
qed

lemma list_len_ok: "list_at (lheap s) p xs \<Longrightarrow> list_len p s = Inr (of_nat (length xs))"
  using list_at_first[of "lheap s" p xs] list_len_loop_links[of "lheap s" xs "tail_of p" 0]
  by (cases xs) (auto simp: list_len_def next_of_def returned_def list_at_def nodes_def)

lemma list_empty_ok: "list_at (lheap s) p xs \<Longrightarrow> list_empty p s \<longleftrightarrow> xs = []"
  using list_at_first[of "lheap s" p xs]
  by (cases xs) (auto simp: list_empty_def next_of_def list_at_def nodes_def)

lemma list_traveral_loop_links:
  assumes "\<And>e s. func e arg s = Inr (P e, s)"
  shows "\<lbrakk> links (lheap s) (xs @ [t]); t \<notin> set xs \<rbrakk> \<Longrightarrow>
   list_traveral_loop func arg t (hd (xs @ [t])) s =
     Some (Inr (case List.find P xs of None \<Rightarrow> 0 | Some e \<Rightarrow> e, s))"
proof (induction xs)
  case Nil
  then show ?case by (simp add: list_traveral_loop.simps)
next
  case (Cons x xs)
  have "next_of x s = hd (xs @ [t])" "links (lheap s) (xs @ [t])"
    using links_step[OF Cons.prems(1)] by (simp_all add: next_of_def)
  then show ?case using Cons assms by (auto simp: list_traveral_loop.simps[of func arg t x])
qed

lemma list_traveral_ok:
  assumes "\<And>e s. func e arg s = Inr (P e, s)" "list_at (lheap s) p xs"
  shows "list_traveral p func arg s = Inr (case List.find P xs of None \<Rightarrow> 0 | Some e \<Rightarrow> e, s)"
  using list_at_first[OF assms(2)] list_traveral_loop_links[of func arg P s xs "tail_of p"] assms(1) assms(2)
    list_empty_ok[OF assms(2)]
  by (cases xs) (auto simp: list_traveral_def next_of_def returned_def list_at_def nodes_def)

lemma links_unique:
  "\<lbrakk> links h (xs @ [t]); links h (ys @ [t]); hd (xs @ [t]) = hd (ys @ [t]);
     t \<notin> set xs; t \<notin> set ys \<rbrakk> \<Longrightarrow> xs = ys"
proof (induction xs arbitrary: ys)
  case Nil
  then show ?case by (cases ys) auto
next
  case (Cons x xs)
  then obtain zs where ys: "ys = x # zs" by (cases ys) auto
  show ?case
    using Cons.IH[of zs] links_step[OF Cons.prems(1)] links_step[of h x zs t] Cons.prems(2,4,5) ys
    by simp
qed

lemma list_at_unique:
  assumes "list_at h p xs" "list_at h p ys"
  shows "xs = ys"
proof (rule links_unique)
  have x: "links h (head_of p # xs @ [tail_of p])" "tail_of p \<notin> set xs"
    and y: "links h (head_of p # ys @ [tail_of p])" "tail_of p \<notin> set ys"
    using assms unfolding list_at_def nodes_def by auto
  have sx: "hd (xs @ [tail_of p]) = l_next (h (head_of p)) \<and> links h (xs @ [tail_of p])"
    using links_step[of h "head_of p" xs "tail_of p"] x(1) by simp
  have sy: "hd (ys @ [tail_of p]) = l_next (h (head_of p)) \<and> links h (ys @ [tail_of p])"
    using links_step[of h "head_of p" ys "tail_of p"] y(1) by simp
  show "links h (xs @ [tail_of p])" "links h (ys @ [tail_of p])"
    "hd (xs @ [tail_of p]) = hd (ys @ [tail_of p])"
    using sx sy by metis+
  show "tail_of p \<notin> set xs" "tail_of p \<notin> set ys" using x(2) y(2) .
qed

section \<open>A list is a first-in first-out container\<close>

definition list_room :: "u32 \<Rightarrow> u32 list \<Rightarrow> 'a list_state_scheme \<Rightarrow> bool" where
  "list_room p ys s \<longleftrightarrow> (\<forall>xs. list_at (lheap s) p xs \<longrightarrow> distinct (nodes p xs @ ys))"

interpretation kl: fifo
  "\<lambda>s xs. list_at (lheap s) p xs" "list_room p"
  "\<lambda>e s. Inr (list_append p e s)" "\<lambda>s. Inr (list_pop p s)" for p
proof unfold_locales
  fix s :: "'a list_state_scheme" and xs x ys
  assume at: "list_at (lheap s) p xs" and room: "list_room p (x # ys) s"
  have d: "distinct (nodes p xs @ x # ys)" using at room by (simp add: list_room_def)
  then have new: "list_at (lheap (list_append p x s)) p (xs @ [x])"
    using list_at_insert(1)[of "lheap s" p xs "[]" x "tail_of p"] at by (simp add: list_append_eq)
  have "list_room p ys (list_append p x s)" unfolding list_room_def
  proof (intro allI impI)
    fix zs assume "list_at (lheap (list_append p x s)) p zs"
    then have "zs = xs @ [x]" using new list_at_unique by blast
    then show "distinct (nodes p zs @ ys)" using d by (auto simp: nodes_def)
  qed
  with new show "\<exists>s'. Inr (list_append p x s) = (Inr s' :: error + _) \<and> list_at (lheap s') p (xs @ [x]) \<and>
      list_room p ys s'" by blast
next
  fix s :: "'a list_state_scheme" and x xs
  assume at: "list_at (lheap s) p (x # xs)"
  then show "\<exists>s'. Inr (list_pop p s) = (Inr (x, s') :: error + _) \<and> list_at (lheap s') p xs"
    using list_at_first[OF at] list_at_remove(1)[of "lheap s" p "[]" x xs] by (simp add: list_pop_eq)
qed

section \<open>Properties\<close>

text \<open>
  C29: in a family of well linked lists that share no node, the list routines act on the one list
  they are called for as the operations on sequences: append at the end, push at the front, pop
  from the front, remove anywhere, find, length and the test for emptiness; all other lists of
  the family are unchanged, and the interrupt flag is as before the call.
\<close>

theorem list_routines_refine_sequences:
  assumes "lists_at (lheap s) Q" and "Q p = Some xs"
  shows "(unlinked e Q \<longrightarrow> lists_at (lheap (list_append p e s)) (Q(p \<mapsto> xs @ [e]))) \<and>
    (unlinked e Q \<longrightarrow> lists_at (lheap (list_push p e s)) (Q(p \<mapsto> e # xs))) \<and>
    (\<forall>x ys. xs = x # ys \<longrightarrow> fst (list_pop p s) = x \<and>
       lists_at (lheap (snd (list_pop p s))) (Q(p \<mapsto> ys))) \<and>
    (\<forall>us vs. xs = us @ e # vs \<longrightarrow> lists_at (lheap (list_remove e s)) (Q(p \<mapsto> us @ vs))) \<and>
    elem_find p e s = Inr (e \<in> set xs) \<and>
    list_len p s = Inr (of_nat (length xs)) \<and>
    (list_empty p s \<longleftrightarrow> xs = []) \<and>
    eflags (list_append p e s) = eflags s \<and> eflags (list_remove e s) = eflags s"
proof -
  note at = lists_atD(1)[OF assms]
  show ?thesis
    using assms lists_at_append[OF assms] lists_at_push[OF assms]
    by (simp add: list_op_eqs elem_find_ok[OF at] list_len_ok[OF at] list_empty_ok[OF at]
        lists_at_pop[OF assms(1)] lists_at_remove[OF assms(1)])
qed

definition two_lists :: "unit list_state_scheme" where
  "two_lists =
     \<lparr>eflags = 0x202, ports = [], screen = [], idt = [], exception_funcptr_table = [],
      exception_names = [], idtr = 0,
      lheap = (\<lambda>_. \<lparr>l_prev = 0, l_next = 0\<rparr>)
        (0x100 := \<lparr>l_prev = 0, l_next = 0x300\<rparr>, 0x300 := \<lparr>l_prev = 0x100, l_next = 0x108\<rparr>,
         0x108 := \<lparr>l_prev = 0x300, l_next = 0\<rparr>,
         0x200 := \<lparr>l_prev = 0, l_next = 0x208\<rparr>, 0x208 := \<lparr>l_prev = 0x200, l_next = 0\<rparr>)\<rparr>"

lemma two_lists_at: "lists_at (lheap two_lists) [0x100 \<mapsto> [0x300], 0x200 \<mapsto> []]"
  by (auto simp: lists_at_def list_at_def nodes_def head_of_def tail_of_def two_lists_def
      split: if_splits)

theorem list_routines_refine_sequences_witness:
  "lists_at (lheap (list_append 0x100 0x400 two_lists)) [0x100 \<mapsto> [0x300, 0x400], 0x200 \<mapsto> []]
   \<and> elem_find 0x100 0x400 two_lists = Inr False"
proof -
  have "unlinked 0x400 [0x100 \<mapsto> [0x300], 0x200 \<mapsto> []]"
    by (auto simp: unlinked_def nodes_def head_of_def tail_of_def split: if_splits)
  then show ?thesis
    using list_routines_refine_sequences[OF two_lists_at, of "0x100" "[0x300]" "0x400"]
    by (simp add: fun_upd_twist)
qed

text \<open>
  Nodes appended to an empty list are popped in the order they were appended, and the list is
  empty again.
\<close>

theorem list_append_pop_in_order:
  assumes "list_at (lheap s) p []" and "distinct (nodes p es)"
  shows "\<exists>s' s''. run_puts (\<lambda>e s. Inr (list_append p e s)) es s = Inr s' \<and>
    run_gets (\<lambda>s. Inr (list_pop p s)) (length es) s' = Inr (es, s'') \<and> list_at (lheap s'') p []"
proof (rule kl.in_order[OF assms(1)])
  show "list_room p es s"
    unfolding list_room_def
  proof (intro allI impI)
    fix xs assume "list_at (lheap s) p xs"
    with assms(1) have "[] = xs" by (rule list_at_unique)
    then show "distinct (nodes p xs @ es)" using assms(2) by (auto simp: nodes_def)
  qed
qed

theorem list_append_pop_in_order_witness:
  "\<exists>s' s''. run_puts (\<lambda>e s. Inr (list_append 0x200 e s)) [0x500, 0x400] two_lists = Inr s' \<and>
    run_gets (\<lambda>s. Inr (list_pop 0x200 s)) (Suc (Suc 0)) s' = Inr ([0x500, 0x400], s'') \<and>
    list_at (lheap s'') 0x200 []"
  using list_append_pop_in_order[of two_lists "0x200" "[0x500, 0x400]"]
    lists_atD(1)[OF two_lists_at, of "0x200"]
  by (simp add: nodes_def head_of_def tail_of_def)

end
