(* ===== verification/Alloc.thy ===== *)
theory Alloc
  imports Prelude
begin

text \<open>
  The contract of an allocator that hands out one unit at a time, which the frame pools
  (\<^verbatim>\<open>palloc\<close>) and the bitmaps of the file system provide. \<open>avail s\<close> are the units the
  allocator manages, \<open>taken s\<close> those that are in use. \<open>None\<close> stands for the value by which the
  source reports that nothing is left.
\<close>

fun run_allocs :: "('s \<Rightarrow> error + ('r option \<times> 's)) \<Rightarrow> nat \<Rightarrow> 's \<Rightarrow> error + ('r option list \<times> 's)" where
  "run_allocs alloc 0 s = Inr ([], s)"
| "run_allocs alloc (Suc n) s =
     bnd (alloc s) (\<lambda>(r, s). bnd (run_allocs alloc n s) (\<lambda>(rs, s). Inr (r # rs, s)))"

locale unit_alloc =
  fixes inv :: "'s \<Rightarrow> bool"
    and avail :: "'s \<Rightarrow> 'r set"
    and taken :: "'s \<Rightarrow> 'r set"
    and alloc :: "'s \<Rightarrow> error + ('r option \<times> 's)"
  assumes alloc_ok: "inv s \<Longrightarrow> \<exists>r s'. alloc s = Inr (r, s') \<and> inv s' \<and> avail s' = avail s \<and>
      (case r of None \<Rightarrow> avail s \<subseteq> taken s \<and> s' = s
       | Some u \<Rightarrow> u \<in> avail s - taken s \<and> taken s' = insert u (taken s))"
    and avail_finite: "inv s \<Longrightarrow> finite (avail s)"
begin

text \<open>As long as enough units are free, every request is granted, and no unit is granted twice.\<close>

lemma allocs_distinct:
  "\<lbrakk> inv s; n \<le> card (avail s - taken s) \<rbrakk> \<Longrightarrow>
   \<exists>us s'. run_allocs alloc n s = Inr (map Some us, s') \<and> length us = n \<and> distinct us \<and>
     set us \<subseteq> avail s - taken s \<and> inv s' \<and> avail s' = avail s \<and> taken s' = taken s \<union> set us"
proof (induction n arbitrary: s)
  case 0
  then show ?case by simp
next
  case (Suc n)
  obtain r t where t: "alloc s = Inr (r, t)" "inv t" "avail t = avail s"
    and r: "case r of None \<Rightarrow> avail s \<subseteq> taken s \<and> t = s
       | Some u \<Rightarrow> u \<in> avail s - taken s \<and> taken t = insert u (taken s)"
    using alloc_ok[OF Suc.prems(1)] by blast
  have fin: "finite (avail s - taken s)" using avail_finite[OF Suc.prems(1)] by simp
  have "avail s - taken s \<noteq> {}" using Suc.prems(2) by (metis card.empty not_less_eq_eq zero_le)
  then obtain u where u: "r = Some u" "u \<in> avail s - taken s" "taken t = insert u (taken s)"
    using r by (cases r) auto
  have "avail t - taken t = (avail s - taken s) - {u}" using t(3) u(3) by auto
  then have "n \<le> card (avail t - taken t)" using Suc.prems(2) u(2) fin by simp
  from Suc.IH[OF t(2) this] obtain us s' where
    "run_allocs alloc n t = Inr (map Some us, s')" "length us = n" "distinct us"
    "set us \<subseteq> avail t - taken t" "inv s'" "avail s' = avail t" "taken s' = taken t \<union> set us"
    by blast
  then show ?case using t u by (intro exI[of _ "u # us"] exI[of _ s']) auto
qed

end

end
