(* ===== verification/Paging.thy ===== *)
theory Paging
  imports Bitmap KList Alloc
begin

text \<open>
  Page frames and page tables (\<^verbatim>\<open>kernel/memory.c\<close>): the pools of frames with
  \<^verbatim>\<open>palloc\<close> and \<^verbatim>\<open>pfree\<close>, and the routines that read and write the page
  tables through the addresses 0xffc00000 and above.

  \<open>phys\<close> is physical memory, one 32-bit word for each address that is a multiple of 4. A memory
  access of the kernel goes through \<open>translate\<close>, the processor's walk of the two-level table that
  \<open>cr3\<close> points to, and faults where an entry is not present. Access rights and the translation
  cache are not modelled: the kernel runs at privilege 0, and \<^verbatim>\<open>invlpg\<close> has no effect here.

  Shown: with the last entry of the directory leading to the directory itself,
  \<^verbatim>\<open>pde_addr\<close> and \<^verbatim>\<open>pte_addr\<close> name the words the walk reads;
  \<^verbatim>\<open>page_table_add\<close> maps the page it is given and no other; a mapping that is removed
  faults.
\<close>

section \<open>Memory and the walk\<close>

record pool =
  pool_bitmap :: bitmap
  phy_start_addr :: u32
  mem_size :: u32
  pool_lock :: u32

record virtual_addrs =
  vaddr_bitmap :: bitmap
  vaddr_start :: u32

record mem_state = list_state +
  phys :: "u32 \<Rightarrow> u32"
  cr3 :: u32
  kernel_pool :: pool
  user_pool :: pool
  kernel_vaddr :: virtual_addrs

definition PAGE_SIZE :: u32 where "PAGE_SIZE = 4096"
definition PG_P_1 :: u32 where "PG_P_1 = 1"
definition PG_RW_W :: u32 where "PG_RW_W = 2"
definition PG_US_U :: u32 where "PG_US_U = 4"

definition frame_of :: "u32 \<Rightarrow> u32" where
  "frame_of w = w AND 0xfffff000"

definition pd_index :: "u32 \<Rightarrow> u32" where
  "pd_index va = drop_bit 22 va"

definition pt_index :: "u32 \<Rightarrow> u32" where
  "pt_index va = drop_bit 12 va AND 0x3ff"

definition entry_at :: "u32 \<Rightarrow> u32 \<Rightarrow> u32" where
  "entry_at table i = frame_of table OR push_bit 2 i"

definition pde_of :: "u32 \<Rightarrow> 'a mem_state_scheme \<Rightarrow> u32" where
  "pde_of va s = phys s (entry_at (cr3 s) (pd_index va))"

definition pte_of :: "u32 \<Rightarrow> 'a mem_state_scheme \<Rightarrow> u32" where
  "pte_of va s = phys s (entry_at (pde_of va s) (pt_index va))"

definition translate :: "u32 \<Rightarrow> 'a mem_state_scheme \<Rightarrow> error + u32" where
  "translate va s =
     (if \<not> bit (pde_of va s) 0 \<or> \<not> bit (pte_of va s) 0 then Inl (Page_fault va)
      else Inr (frame_of (pte_of va s) OR va AND 0xfff))"

definition load_word :: "u32 \<Rightarrow> 'a mem_state_scheme \<Rightarrow> error + u32" where
  "load_word va s = bnd (translate va s) (\<lambda>pa. Inr (phys s pa))"

definition store_word :: "u32 \<Rightarrow> u32 \<Rightarrow> 'a mem_state_scheme \<Rightarrow> error + 'a mem_state_scheme" where
  "store_word va v s = bnd (translate va s) (\<lambda>pa. Inr (s\<lparr>phys := (phys s)(pa := v)\<rparr>))"

text \<open>\<^verbatim>\<open>memset\<close> with value 0 on \<open>n\<close> whole words.\<close>

fun zero_words :: "u32 \<Rightarrow> nat \<Rightarrow> 'a mem_state_scheme \<Rightarrow> error + 'a mem_state_scheme" where
  "zero_words va 0 s = Inr s"
| "zero_words va (Suc n) s = bnd (store_word va 0 s) (\<lambda>s. zero_words (va + 4) n s)"

section \<open>The routines\<close>

definition pte_addr :: "u32 \<Rightarrow> u32" where
  "pte_addr ptr = 0xffc00000 OR drop_bit 10 (ptr AND 0xffc00000) OR 4 * drop_bit 12 (ptr AND 0x003ff000)"

definition pde_addr :: "u32 \<Rightarrow> u32" where
  "pde_addr ptr = 0xfffff000 OR drop_bit 22 (ptr AND 0xffc00000) * 4"

definition palloc :: "pool \<Rightarrow> error + (u32 \<times> pool)" where
  "palloc mem_pool =
     bnd (bitmap_scan (pool_bitmap mem_pool) 1) (\<lambda>bit_index.
     if bit_index = -1 then Inr (0, mem_pool)
     else bnd (bitmap_set (pool_bitmap mem_pool) bit_index 1) (\<lambda>b.
       Inr (phy_start_addr mem_pool + PAGE_SIZE * bit_index, mem_pool\<lparr>pool_bitmap := b\<rparr>)))"

definition page_table_add :: "u32 \<Rightarrow> u32 \<Rightarrow> 'a mem_state_scheme \<Rightarrow> error + 'a mem_state_scheme" where
  "page_table_add vir_addr phy_addr s =
     (let pte_ptr = pte_addr vir_addr; pde_ptr = pde_addr vir_addr in
      bnd (load_word pde_ptr s) (\<lambda>pde.
      if pde AND 0x00000001 \<noteq> 0
      then bnd (load_word pte_ptr s) (\<lambda>pte.
           bnd (ASSERT (pte AND 0x00000001 = 0) ''!(*pte_ptr & 0x00000001)'') (\<lambda>_.
           if pte AND 0x00000001 = 0
           then store_word pte_ptr (phy_addr OR PG_P_1 OR PG_RW_W OR PG_US_U) s
           else Inr s))
      else bnd (palloc (kernel_pool s)) (\<lambda>(alloc_pde, kp).
           bnd (store_word pde_ptr (alloc_pde OR PG_P_1 OR PG_RW_W OR PG_US_U) (s\<lparr>kernel_pool := kp\<rparr>)) (\<lambda>s.
           bnd (zero_words (pte_ptr AND 0xfffff000) 1024 s) (\<lambda>s.
           bnd (load_word pte_ptr s) (\<lambda>pte.
           bnd (ASSERT (pte AND 0x00000001 = 0) ''!(*pte_ptr & 0x00000001)'') (\<lambda>_.
           store_word pte_ptr (phy_addr OR PG_P_1 OR PG_RW_W OR PG_US_U) s)))))))"

definition addr_virtual_to_phy :: "u32 \<Rightarrow> 'a mem_state_scheme \<Rightarrow> error + u32" where
  "addr_virtual_to_phy vaddr s =
     bnd (load_word (pte_addr vaddr) s) (\<lambda>pte. Inr ((pte AND 0xfffff000) + (vaddr AND 0x00000fff)))"

definition pfree :: "u32 \<Rightarrow> 'a mem_state_scheme \<Rightarrow> error + 'a mem_state_scheme" where
  "pfree phy_addr s =
     (if phy_addr > phy_start_addr (user_pool s)
      then let pool_idx = (phy_addr - phy_start_addr (user_pool s)) div PAGE_SIZE in
           bnd (bitmap_set (pool_bitmap (user_pool s)) pool_idx 0) (\<lambda>b.
           Inr (s\<lparr>user_pool := (user_pool s)\<lparr>pool_bitmap := b\<rparr>\<rparr>))
      else let pool_idx = (phy_addr - phy_start_addr (kernel_pool s)) div PAGE_SIZE in
           bnd (bitmap_set (pool_bitmap (kernel_pool s)) pool_idx 0) (\<lambda>b.
           Inr (s\<lparr>kernel_pool := (kernel_pool s)\<lparr>pool_bitmap := b\<rparr>\<rparr>)))"

definition page_table_pte_remove :: "u32 \<Rightarrow> 'a mem_state_scheme \<Rightarrow> error + 'a mem_state_scheme" where
  "page_table_pte_remove vir_addr s =
     (let pte = pte_addr vir_addr in
      bnd (load_word pte s) (\<lambda>w. store_word pte (w AND NOT PG_P_1) s))"

section \<open>Fields of an address\<close>

lemma bit_consts:
  "bit (0xfffff000 :: u32) n \<longleftrightarrow> 12 \<le> n \<and> n < 32"
  "bit (0xfff :: u32) n \<longleftrightarrow> n < 12"
  "bit (0xffc00000 :: u32) n \<longleftrightarrow> 22 \<le> n \<and> n < 32"
  "bit (0x3ff :: u32) n \<longleftrightarrow> n < 10"
  "bit (0x3ff000 :: u32) n \<longleftrightarrow> 12 \<le> n \<and> n < 22"
proof -
  have m: "(0xfff :: u32) = mask 12" "(0x3ff :: u32) = mask 10" "(0x3fffff :: u32) = mask 22"
    by (simp_all add: mask_eq_exp_minus_1)
  have n: "(0xfffff000 :: u32) = NOT 0xfff" "(0xffc00000 :: u32) = NOT 0x3fffff"
    "(0x3ff000 :: u32) = push_bit 12 0x3ff" by (simp_all add: push_bit_eq_mult)
  show b12: "bit (0xfff :: u32) n \<longleftrightarrow> n < 12" unfolding m by (auto simp: bit_mask_iff)
  show b10: "bit (0x3ff :: u32) n \<longleftrightarrow> n < 10" for n unfolding m by (auto simp: bit_mask_iff)
  have b22: "bit (0x3fffff :: u32) n \<longleftrightarrow> n < 22" unfolding m by (auto simp: bit_mask_iff)
  show "bit (0xfffff000 :: u32) n \<longleftrightarrow> 12 \<le> n \<and> n < 32"
    unfolding n by (simp only: bit_not_iff b12) auto
  show "bit (0xffc00000 :: u32) n \<longleftrightarrow> 22 \<le> n \<and> n < 32"
    unfolding n by (simp only: bit_not_iff b22) auto
  show "bit (0x3ff000 :: u32) n \<longleftrightarrow> 12 \<le> n \<and> n < 22"
    unfolding n by (simp only: bit_push_bit_iff b10) auto
qed

lemma times4: "(4 :: u32) * w = push_bit 2 w" "w * 4 = push_bit 2 w"
  by (simp_all add: push_bit_eq_mult mult.commute)

lemmas addr_bits = frame_of_def pd_index_def pt_index_def entry_at_def pte_addr_def pde_addr_def times4

lemma pde_addr_fields:
  "pd_index (pde_addr v) = 0x3ff" "pt_index (pde_addr v) = 0x3ff"
  "pde_addr v AND 0xfff = push_bit 2 (pd_index v)"
  unfolding addr_bits
  by (rule bit_word_eqI;
      auto simp only: bit_simps bit_consts o_def;
      auto dest: bit_imp_le_length)+

lemma pte_addr_fields:
  "pd_index (pte_addr v) = 0x3ff" "pt_index (pte_addr v) = pd_index v"
  "pte_addr v AND 0xfff = push_bit 2 (pt_index v)"
  unfolding addr_bits
  by (rule bit_word_eqI;
      auto simp only: bit_simps bit_consts o_def;
      auto dest: bit_imp_le_length)+

definition index :: "u32 \<Rightarrow> bool" where
  "index i \<longleftrightarrow> i AND 0x3ff = i"

lemma index_fields [simp]: "index (pd_index v)" "index (pt_index v)" "index 0x3ff"
  unfolding index_def addr_bits
  by (rule bit_word_eqI; auto simp only: bit_simps bit_consts o_def; auto dest: bit_imp_le_length)+

lemma index_bits: "index i \<Longrightarrow> bit i n \<Longrightarrow> n < 10"
  unfolding index_def by (metis bit_and_iff bit_consts(4))

lemma frame_of_entry [simp]: "index i \<Longrightarrow> frame_of (entry_at b i) = frame_of b"
  unfolding addr_bits
  by (rule bit_word_eqI; auto simp only: bit_simps bit_consts o_def; auto dest: bit_imp_le_length index_bits)

lemma frame_of_frame [simp]: "frame_of (frame_of w) = frame_of w"
  unfolding addr_bits by (rule bit_word_eqI) (auto simp only: bit_simps bit_consts)

lemma entry_low: "index i \<Longrightarrow> drop_bit 2 (entry_at b i AND 0xfff) = i"
  unfolding addr_bits
  by (rule bit_word_eqI; auto simp only: bit_simps bit_consts o_def; auto dest: bit_imp_le_length index_bits)

lemma entry_eq:
  assumes "index i" "index j"
  shows "entry_at b i = entry_at c j \<longleftrightarrow> frame_of b = frame_of c \<and> i = j"
proof
  assume e: "entry_at b i = entry_at c j"
  then have "frame_of (entry_at b i) = frame_of (entry_at c j)"
    "drop_bit 2 (entry_at b i AND 0xfff) = drop_bit 2 (entry_at c j AND 0xfff)" by simp_all
  then show "frame_of b = frame_of c \<and> i = j" using assms by (simp only: frame_of_entry entry_low)
next
  show "frame_of b = frame_of c \<and> i = j \<Longrightarrow> entry_at b i = entry_at c j"
    by (simp add: entry_at_def)
qed

lemma frame_flags:
  "frame_of (w OR PG_P_1 OR PG_RW_W OR PG_US_U) = frame_of w" "bit (w OR PG_P_1 OR PG_RW_W OR PG_US_U) 0"
proof -
  have e: "PG_P_1 = 2 ^ 0" "PG_RW_W = 2 ^ 1" "PG_US_U = 2 ^ 2"
    by (simp_all add: PG_P_1_def PG_RW_W_def PG_US_U_def)
  show "frame_of (w OR PG_P_1 OR PG_RW_W OR PG_US_U) = frame_of w"
    unfolding e addr_bits by (rule bit_word_eqI) (auto simp only: bit_simps bit_consts)
  show "bit (w OR PG_P_1 OR PG_RW_W OR PG_US_U) 0" unfolding e by (simp add: bit_simps)
qed

lemma present_bit: "w AND 1 = 0 \<longleftrightarrow> \<not> bit (w :: u32) 0"
  using and_exp_eq_0_iff_not_bit[of w 0] by simp

lemma cleared_present: "\<not> bit (w AND NOT PG_P_1) 0"
  by (simp add: PG_P_1_def bit_simps)

lemma frame_off_sum: "(w AND 0xfffff000) + (v AND 0xfff) = frame_of w OR v AND (0xfff :: u32)"
proof -
  have "(w AND 0xfffff000) AND (v AND 0xfff) = (0 :: u32)"
    by (rule bit_word_eqI; auto simp only: bit_simps bit_consts; simp)
  then show ?thesis by (simp add: frame_of_def disjunctive_add_eq_or)
qed

lemma same_page_fields:
  assumes "frame_of w = frame_of v"
  shows "pd_index w = pd_index v" "pt_index w = pt_index v"
proof -
  have b: "bit w n = bit v n" if "12 \<le> n" for n
    using arg_cong[OF assms, of "\<lambda>x. bit x n"] that bit_imp_le_length[of w n] bit_imp_le_length[of v n]
    by (cases "n < 32") (simp_all only: frame_of_def bit_and_iff bit_consts, auto)
  show "pd_index w = pd_index v" "pt_index w = pt_index v"
    unfolding addr_bits
    by (rule bit_word_eqI; simp add: bit_simps b)+
qed

section \<open>The self map\<close>

definition self_mapped :: "'a mem_state_scheme \<Rightarrow> bool" where
  "self_mapped s \<longleftrightarrow> (let d = phys s (entry_at (cr3 s) 0x3ff) in bit d 0 \<and> frame_of d = frame_of (cr3 s))"

lemma entry_frame_cong: "frame_of b = frame_of c \<Longrightarrow> entry_at b i = entry_at c i"
  by (simp add: entry_at_def)

lemma translate_self:
  assumes "self_mapped s" "pd_index va = 0x3ff"
  shows "translate va s = (let e = phys s (entry_at (cr3 s) (pt_index va)) in
    if bit e 0 then Inr (frame_of e OR va AND 0xfff) else Inl (Page_fault va))"
proof -
  have "pde_of va s = phys s (entry_at (cr3 s) 0x3ff)" using assms(2) by (simp add: pde_of_def)
  then have d: "bit (pde_of va s) 0" "frame_of (pde_of va s) = frame_of (cr3 s)"
    using assms(1) by (simp_all add: self_mapped_def Let_def)
  then show ?thesis
    by (simp add: translate_def pte_of_def entry_frame_cong[OF d(2)] Let_def)
qed

lemma translate_pde_addr:
  assumes "self_mapped s"
  shows "translate (pde_addr v) s = Inr (entry_at (cr3 s) (pd_index v))"
  using assms translate_self[OF assms pde_addr_fields(1)]
  by (simp add: pde_addr_fields self_mapped_def Let_def entry_at_def)

lemma translate_pte_addr:
  assumes "self_mapped s"
  shows "translate (pte_addr v) s = (if bit (pde_of v s) 0 then Inr (entry_at (pde_of v s) (pt_index v))
    else Inl (Page_fault (pte_addr v)))"
  using translate_self[OF assms pte_addr_fields(1), of v]
  by (simp add: pte_addr_fields pde_of_def Let_def entry_at_def)

lemma load_entries:
  assumes "self_mapped s"
  shows "load_word (pde_addr v) s = Inr (pde_of v s)"
    "bit (pde_of v s) 0 \<Longrightarrow> load_word (pte_addr v) s = Inr (pte_of v s)"
  using assms by (simp_all add: load_word_def translate_pde_addr translate_pte_addr pde_of_def pte_of_def)

lemma store_entries:
  assumes "self_mapped s"
  shows "store_word (pde_addr v) w s = Inr (s\<lparr>phys := (phys s)(entry_at (cr3 s) (pd_index v) := w)\<rparr>)"
    "bit (pde_of v s) 0 \<Longrightarrow>
     store_word (pte_addr v) w s = Inr (s\<lparr>phys := (phys s)(entry_at (pde_of v s) (pt_index v) := w)\<rparr>)"
  using assms by (simp_all add: store_word_def translate_pde_addr translate_pte_addr)

section \<open>The frame pools\<close>

text \<open>
  \<open>frame_no pl k\<close> is the address of frame \<open>k\<close> of a pool. A pool is well formed when its bitmap is,
  it starts at a page boundary behind address 0, and all its frames are 32-bit addresses.
\<close>

definition frame_no :: "pool \<Rightarrow> nat \<Rightarrow> u32" where
  "frame_no pl k = phy_start_addr pl + PAGE_SIZE * of_nat k"

definition pool_wf :: "pool \<Rightarrow> bool" where
  "pool_wf pl \<longleftrightarrow> bitmap_wf (pool_bitmap pl) \<and> phy_start_addr pl \<noteq> 0 \<and>
     unat (phy_start_addr pl) mod 4096 = 0 \<and>
     unat (phy_start_addr pl) + 4096 * nbits (pool_bitmap pl) \<le> 2 ^ 32"

definition pool_frames :: "pool \<Rightarrow> u32 set" where
  "pool_frames pl = frame_no pl ` {k. k < nbits (pool_bitmap pl)}"

definition used_frames :: "pool \<Rightarrow> u32 set" where
  "used_frames pl = frame_no pl ` {k. k < nbits (pool_bitmap pl) \<and> used (pool_bitmap pl) k}"

lemma unat_frame_no:
  assumes "pool_wf pl" "k < nbits (pool_bitmap pl)"
  shows "unat (frame_no pl k) = unat (phy_start_addr pl) + 4096 * k"
proof -
  have k: "unat (phy_start_addr pl) + 4096 * k < 2 ^ 32" "4096 * k < 2 ^ 32" "k < 2 ^ 32"
    using assms by (auto simp: pool_wf_def)
  then have "unat (of_nat k :: u32) = k" by (intro unat_of_nat_small) simp
  then have "unat (PAGE_SIZE * of_nat k) = 4096 * k"
    using k by (simp add: PAGE_SIZE_def unat_word_ariths)
  then show ?thesis using k by (simp add: frame_no_def unat_word_ariths)
qed

lemma frame_no_inj:
  "\<lbrakk> pool_wf pl; j < nbits (pool_bitmap pl); k < nbits (pool_bitmap pl); frame_no pl j = frame_no pl k \<rbrakk>
   \<Longrightarrow> j = k"
  using unat_frame_no[of pl j] unat_frame_no[of pl k] by (metis add_left_cancel mult_left_cancel zero_neq_numeral)

lemma frame_no_neq0: "\<lbrakk> pool_wf pl; k < nbits (pool_bitmap pl) \<rbrakk> \<Longrightarrow> frame_no pl k \<noteq> 0"
  using unat_frame_no[of pl k] unat_gt_0[of "phy_start_addr pl"] by (auto simp: pool_wf_def)

lemma frame_of_aligned: "unat w mod 4096 = 0 \<Longrightarrow> frame_of w = w"
proof -
  assume a: "unat w mod 4096 = 0"
  have t: "take_bit 12 w = 0"
  proof -
    have "unat (take_bit 12 w) = take_bit 12 (unat w)" by (simp add: unsigned_take_bit_eq)
    also have "\<dots> = 0" using a by (simp add: take_bit_eq_mod)
    finally show ?thesis by (simp only: unat_eq_zero)
  qed
  have low: "\<not> bit w n" if "n < 12" for n
    using arg_cong[OF t, of "\<lambda>x. bit x n"] that by (simp add: bit_take_bit_iff)
  show ?thesis unfolding frame_of_def
    by (rule bit_word_eqI) (use low in \<open>force simp only: bit_and_iff bit_consts not_less[symmetric] len_of_numeral_defs\<close>)
qed

lemma frame_of_frame_no [simp]:
  "\<lbrakk> pool_wf pl; k < nbits (pool_bitmap pl) \<rbrakk> \<Longrightarrow> frame_of (frame_no pl k) = frame_no pl k"
  by (rule frame_of_aligned) (simp add: unat_frame_no pool_wf_def)

lemma palloc_cases:
  assumes wf: "pool_wf pl"
  obtains (full) "palloc pl = Inr (0, pl)" "\<forall>k < nbits (pool_bitmap pl). used (pool_bitmap pl) k"
  | (free) k bm where "palloc pl = Inr (frame_no pl k, pl\<lparr>pool_bitmap := bm\<rparr>)"
      "k < nbits (pool_bitmap pl)" "\<not> used (pool_bitmap pl) k" "nbits bm = nbits (pool_bitmap pl)"
      "used bm = (used (pool_bitmap pl))(k := True)" "pool_wf (pl\<lparr>pool_bitmap := bm\<rparr>)"
proof -
  have "bitmap_wf (pool_bitmap pl)" using wf by (simp add: pool_wf_def)
  then show ?thesis
  proof (cases rule: bitmap_take_one)
    case full
    then show ?thesis using that(1) by (simp add: palloc_def)
  next
    case (free i bm)
    then have "palloc pl = Inr (frame_no pl (unat i), pl\<lparr>pool_bitmap := bm\<rparr>)"
      by (simp add: palloc_def frame_no_def)
    moreover have "pool_wf (pl\<lparr>pool_bitmap := bm\<rparr>)" using wf free by (simp add: pool_wf_def)
    ultimately show ?thesis using that(2) free by blast
  qed
qed

definition palloc_opt :: "pool \<Rightarrow> error + (u32 option \<times> pool)" where
  "palloc_opt pl = bnd (palloc pl) (\<lambda>(a, pl). Inr (if a = 0 then None else Some a, pl))"

lemma frame_no_bitmap [simp]: "frame_no (pl\<lparr>pool_bitmap := bm\<rparr>) = frame_no pl"
  by (simp add: frame_no_def fun_eq_iff)

interpretation fr: unit_alloc pool_wf pool_frames used_frames palloc_opt
proof unfold_locales
  fix pl assume wf: "pool_wf pl"
  show "finite (pool_frames pl)" by (simp add: pool_frames_def)
  show "\<exists>r pl'. palloc_opt pl = Inr (r, pl') \<and> pool_wf pl' \<and> pool_frames pl' = pool_frames pl \<and>
      (case r of None \<Rightarrow> pool_frames pl \<subseteq> used_frames pl \<and> pl' = pl
       | Some u \<Rightarrow> u \<in> pool_frames pl - used_frames pl \<and> used_frames pl' = insert u (used_frames pl))"
    using wf
  proof (cases rule: palloc_cases)
    case full
    then show ?thesis using wf by (auto simp: palloc_opt_def pool_frames_def used_frames_def)
  next
    case (free k bm)
    have k: "frame_no pl k \<noteq> 0" using frame_no_neq0[OF wf free(2)] .
    have "frame_no pl k \<notin> used_frames pl"
      using frame_no_inj[OF wf free(2)] free(3) by (auto simp: used_frames_def)
    moreover have "{j. j < nbits bm \<and> used bm j} =
        insert k {j. j < nbits (pool_bitmap pl) \<and> used (pool_bitmap pl) j}"
      using free(2,4,5) by auto
    ultimately show ?thesis
      using k free by (auto simp: palloc_opt_def pool_frames_def used_frames_def)
  qed
qed

section \<open>Clearing a page table\<close>

lemma index_of_nat: "i < 1024 \<Longrightarrow> index (of_nat i)"
proof -
  assume "i < 1024"
  then have u: "unat (of_nat i :: u32) = i" by (intro unat_of_nat_small) simp
  have m: "(0x3ff :: u32) = mask 10" by (simp add: mask_eq_exp_minus_1)
  show ?thesis unfolding index_def m take_bit_eq_mask[symmetric]
    using \<open>i < 1024\<close> u by (intro word_unat_eq_iff[THEN iffD2]) (simp add: unsigned_take_bit_eq take_bit_nat_eq_self)
qed

lemma of_index: "index i \<Longrightarrow> \<exists>k < 1024. i = of_nat k"
proof -
  assume i: "index i"
  have m: "(0x3ff :: u32) = mask 10" by (simp add: mask_eq_exp_minus_1)
  have t: "take_bit 10 i = i" using i unfolding index_def m take_bit_eq_mask .
  have "unat i = take_bit 10 (unat i)" using arg_cong[OF t, of unat] by (simp add: unsigned_take_bit_eq)
  then have "unat i < 1024" using take_bit_nat_less_exp[of 10 "unat i"] by simp
  then show ?thesis by (intro exI[of _ "unat i"]) simp
qed

lemma table_word:
  assumes "frame_of T = T" "index j"
  shows "frame_of (T + 4 * j) = T" "(T + 4 * j) AND 0xfff = push_bit 2 j"
proof -
  note i = index_bits[OF assms(2)]
  have "frame_of T AND push_bit 2 j = 0" unfolding frame_of_def
    by (rule bit_word_eqI; auto simp only: bit_simps bit_consts; auto dest: i)
  then have e: "T + 4 * j = entry_at T j"
    using assms(1) by (simp add: times4 entry_at_def disjunctive_add_eq_or)
  show "frame_of (T + 4 * j) = T" unfolding e using assms by simp
  show "(T + 4 * j) AND 0xfff = push_bit 2 j" unfolding e entry_at_def frame_of_def
    by (rule bit_word_eqI; auto simp only: bit_simps bit_consts; auto dest: i)
qed

lemma zero_words_table:
  assumes "self_mapped s" "bit e 0" "frame_of e \<noteq> frame_of (cr3 s)" "phys s (entry_at (cr3 s) (pt_index T)) = e"
    "pd_index T = 0x3ff" "frame_of T = T" "i + n \<le> 1024"
  shows "zero_words (T + 4 * of_nat i) n s =
    Inr (s\<lparr>phys := \<lambda>a. if \<exists>k. i \<le> k \<and> k < i + n \<and> a = entry_at e (of_nat k) then 0 else phys s a\<rparr>)"
  using assms
proof (induction n arbitrary: i s)
  case 0
  have "(\<lambda>a. if \<exists>k. i \<le> k \<and> k < i + 0 \<and> a = entry_at e (of_nat k) then 0 else phys s a) = phys s"
    by (rule ext) auto
  then show ?case by (simp del: add_0_right)
next
  case (Suc n)
  let ?va = "T + 4 * of_nat i" and ?a = "entry_at e (of_nat i)"
  have i: "i < 1024" using Suc.prems(7) by simp
  note w = table_word[OF Suc.prems(6) index_of_nat[OF i]]
  have f: "frame_of ?va = frame_of T" using w(1) Suc.prems(6) by simp
  have "translate ?va s = Inr ?a"
    using translate_self[OF Suc.prems(1), of ?va] same_page_fields[OF f] w(2) Suc.prems(2,4,5)
    by (simp add: entry_at_def)
  then have st: "store_word ?va 0 s = Inr (s\<lparr>phys := (phys s)(?a := 0)\<rparr>)" (is "_ = Inr ?t")
    by (simp add: store_word_def)
  have dir: "entry_at (cr3 s) j \<noteq> ?a" if "index j" for j
    using that i Suc.prems(3) by (simp add: entry_eq index_of_nat)
  have z: "zero_words (T + 4 * of_nat (i + 1)) n ?t =
     Inr (?t\<lparr>phys := \<lambda>a. if \<exists>k. i + 1 \<le> k \<and> k < i + 1 + n \<and> a = entry_at e (of_nat k) then 0 else phys ?t a\<rparr>)"
    by (rule Suc.IH) (use Suc.prems dir in \<open>simp_all add: self_mapped_def Let_def\<close>)
  have va: "?va + 4 = T + 4 * of_nat (i + 1)" by (simp add: algebra_simps)
  have fn: "(\<lambda>a. if \<exists>k. i + 1 \<le> k \<and> k < i + 1 + n \<and> a = entry_at e (of_nat k) then 0 else phys ?t a) =
     (\<lambda>a. if \<exists>k. i \<le> k \<and> k < i + Suc n \<and> a = entry_at e (of_nat k) then 0 else phys s a)"
  proof
    fix a
    have "(\<exists>k. i \<le> k \<and> k < i + Suc n \<and> a = entry_at e (of_nat k)) \<longleftrightarrow>
        a = ?a \<or> (\<exists>k. i + 1 \<le> k \<and> k < i + 1 + n \<and> a = entry_at e (of_nat k))"
    proof (intro iffI; elim exE conjE disjE)
      fix k assume k: "i \<le> k" "k < i + Suc n" "a = entry_at e (of_nat k)"
      then show "a = ?a \<or> (\<exists>k. i + 1 \<le> k \<and> k < i + 1 + n \<and> a = entry_at e (of_nat k))"
        by (cases "k = i") (auto intro!: exI[of _ k])
    next
      assume "a = ?a"
      then show "\<exists>k. i \<le> k \<and> k < i + Suc n \<and> a = entry_at e (of_nat k)" by (intro exI[of _ i]) simp
    next
      fix k assume "i + 1 \<le> k" "k < i + 1 + n" "a = entry_at e (of_nat k)"
      then show "\<exists>k. i \<le> k \<and> k < i + Suc n \<and> a = entry_at e (of_nat k)" by (intro exI[of _ k]) simp
    qed
    moreover define P where "P \<longleftrightarrow> (\<exists>k. i + 1 \<le> k \<and> k < i + 1 + n \<and> a = entry_at e (of_nat k))"
    moreover have "phys ?t a = (if a = ?a then 0 else phys s a)" by simp
    ultimately show "(if \<exists>k. i + 1 \<le> k \<and> k < i + 1 + n \<and> a = entry_at e (of_nat k) then 0 else phys ?t a) =
        (if \<exists>k. i \<le> k \<and> k < i + Suc n \<and> a = entry_at e (of_nat k) then 0 else phys s a)"
      unfolding P_def[symmetric] by (cases P) (simp_all only: if_True if_False simp_thms)
  qed
  have "zero_words ?va (Suc n) s = zero_words (?va + 4) n ?t" by (simp only: zero_words.simps st bnd_simps)
  then show ?case unfolding va z fn by simp
qed

lemma clear_table:
  assumes "self_mapped s" "bit (pde_of v s) 0" "frame_of (pde_of v s) \<noteq> frame_of (cr3 s)"
  shows "zero_words (pte_addr v AND 0xfffff000) 1024 s =
    Inr (s\<lparr>phys := \<lambda>a. if \<exists>i. index i \<and> a = entry_at (pde_of v s) i then 0 else phys s a\<rparr>)"
proof -
  let ?T = "frame_of (pte_addr v)"
  have f: "frame_of ?T = frame_of (pte_addr v)" by simp
  have "(\<exists>k. 0 \<le> k \<and> k < 0 + 1024 \<and> a = entry_at (pde_of v s) (of_nat k)) \<longleftrightarrow>
      (\<exists>i. index i \<and> a = entry_at (pde_of v s) i)" for a
    using index_of_nat of_index by auto
  then show ?thesis
    using zero_words_table[OF assms, of ?T 0 1024] same_page_fields[OF f] pte_addr_fields[of v]
    by (simp add: pde_of_def frame_of_def[symmetric])
qed

section \<open>Adding and removing a mapping\<close>

definition free_frames :: "pool \<Rightarrow> u32 set" where
  "free_frames pl = frame_no pl ` {k. k < nbits (pool_bitmap pl) \<and> \<not> used (pool_bitmap pl) k}"

text \<open>
  The invariant of the tables: the directory maps itself through its last entry, no other entry
  does, and neither the directory nor a table in use is a free frame of the kernel pool.
\<close>

definition tables_wf :: "'a mem_state_scheme \<Rightarrow> bool" where
  "tables_wf s \<longleftrightarrow> self_mapped s \<and> pool_wf (kernel_pool s) \<and> frame_of (cr3 s) \<notin> free_frames (kernel_pool s) \<and>
     (\<forall>i. index i \<and> i \<noteq> 0x3ff \<and> bit (phys s (entry_at (cr3 s) i)) 0 \<longrightarrow>
        frame_of (phys s (entry_at (cr3 s) i)) \<noteq> frame_of (cr3 s) \<and>
        frame_of (phys s (entry_at (cr3 s) i)) \<notin> free_frames (kernel_pool s))"

definition same_slot :: "'a mem_state_scheme \<Rightarrow> u32 \<Rightarrow> u32 \<Rightarrow> bool" where
  "same_slot s v w \<longleftrightarrow> pt_index w = pt_index v \<and> (pd_index w = pd_index v \<or>
     bit (pde_of v s) 0 \<and> bit (pde_of w s) 0 \<and> frame_of (pde_of w s) = frame_of (pde_of v s))"

lemma translate_cong:
  assumes "cr3 s' = cr3 s" "phys s' (entry_at (cr3 s) (pd_index w)) = pde_of w s"
    "bit (pde_of w s) 0 \<Longrightarrow> phys s' (entry_at (pde_of w s) (pt_index w)) = pte_of w s"
  shows "translate w s' = translate w s"
proof -
  have "pde_of w s' = pde_of w s" using assms(1,2) by (simp add: pde_of_def)
  then show ?thesis using assms(3) by (auto simp: translate_def pte_of_def)
qed

lemma tables_wfD:
  assumes "tables_wf s"
  shows "self_mapped s" "pool_wf (kernel_pool s)" "frame_of (cr3 s) \<notin> free_frames (kernel_pool s)"
    and "\<And>v. pd_index v \<noteq> 0x3ff \<Longrightarrow> bit (pde_of v s) 0 \<Longrightarrow>
      frame_of (pde_of v s) \<noteq> frame_of (cr3 s) \<and> frame_of (pde_of v s) \<notin> free_frames (kernel_pool s)"
  using assms unfolding tables_wf_def pde_of_def by auto

text \<open>A word of a page table is written; the table is in use and is not the directory.\<close>

lemma set_entry:
  assumes wf: "tables_wf s" and v: "pd_index v \<noteq> 0x3ff" "bit (pde_of v s) 0"
    and s': "s' = s\<lparr>phys := (phys s)(entry_at (pde_of v s) (pt_index v) := e)\<rparr>"
  shows "tables_wf s'" "pde_of w s' = pde_of w s"
    and "frame_of w = frame_of v \<Longrightarrow> pte_of w s' = e"
    and "\<lbrakk> pd_index w \<noteq> 0x3ff; \<not> same_slot s v w \<rbrakk> \<Longrightarrow> translate w s' = translate w s"
proof -
  note wfs = tables_wfD[OF wf]
  let ?a = "entry_at (pde_of v s) (pt_index v)"
  have dir: "entry_at (cr3 s) i \<noteq> ?a" if "index i" for i
    using wfs(4)[OF v] that by (auto simp: entry_eq)
  then have pd: "phys s' (entry_at (cr3 s) i) = phys s (entry_at (cr3 s) i)" if "index i" for i
    using that by (simp add: s')
  have c: "cr3 s' = cr3 s" "kernel_pool s' = kernel_pool s" by (simp_all add: s')
  show "tables_wf s'" using wf pd c unfolding tables_wf_def self_mapped_def Let_def by auto
  show pde: "pde_of w s' = pde_of w s" for w using pd[of "pd_index w"] c by (simp add: pde_of_def)
  show "pte_of w s' = e" if "frame_of w = frame_of v"
    using pde[of w] same_page_fields[OF that] by (simp add: pte_of_def pde_of_def s')
  show "translate w s' = translate w s" if "pd_index w \<noteq> 0x3ff" "\<not> same_slot s v w"
  proof (rule translate_cong)
    show "phys s' (entry_at (pde_of w s) (pt_index w)) = pte_of w s" if "bit (pde_of w s) 0"
      using that \<open>\<not> same_slot s v w\<close> v by (auto simp: s' pte_of_def entry_eq same_slot_def)
  qed (use c pd[of "pd_index w"] in \<open>simp_all add: pde_of_def\<close>)
qed

text \<open>A cleared table, in a frame fresh from the kernel pool, is entered into the directory.\<close>

definition new_table :: "u32 \<Rightarrow> nat \<Rightarrow> bitmap \<Rightarrow> 'a mem_state_scheme \<Rightarrow> 'a mem_state_scheme" where
  "new_table v k bm s =
     (let f = frame_no (kernel_pool s) k OR PG_P_1 OR PG_RW_W OR PG_US_U in
      s\<lparr>kernel_pool := (kernel_pool s)\<lparr>pool_bitmap := bm\<rparr>,
        phys := \<lambda>a. if \<exists>i. index i \<and> a = entry_at f i then 0
                    else ((phys s)(entry_at (cr3 s) (pd_index v) := f)) a\<rparr>)"

lemma new_table:
  assumes wf: "tables_wf s" and v: "pd_index v \<noteq> 0x3ff" "\<not> bit (pde_of v s) 0"
    and k: "k < nbits (pool_bitmap (kernel_pool s))" "\<not> used (pool_bitmap (kernel_pool s)) k"
    and bm: "nbits bm = nbits (pool_bitmap (kernel_pool s))"
      "used bm = (used (pool_bitmap (kernel_pool s)))(k := True)" "bitmap_wf bm"
    and s': "s' = new_table v k bm s"
  shows "tables_wf s'" "bit (pde_of v s') 0" "pte_of v s' = 0"
    and "pd_index w \<noteq> 0x3ff \<Longrightarrow> translate w s' = translate w s"
    and "\<lbrakk> pd_index w \<noteq> 0x3ff; same_slot s' v w \<rbrakk> \<Longrightarrow> pd_index w = pd_index v"
proof -
  note wfs = tables_wfD[OF wf]
  let ?kp = "kernel_pool s"
  define f where "f = frame_no ?kp k OR PG_P_1 OR PG_RW_W OR PG_US_U"
  have s': "s' = s\<lparr>kernel_pool := ?kp\<lparr>pool_bitmap := bm\<rparr>,
        phys := \<lambda>a. if \<exists>i. index i \<and> a = entry_at f i then 0
                    else ((phys s)(entry_at (cr3 s) (pd_index v) := f)) a\<rparr>"
    unfolding s' new_table_def f_def Let_def ..
  have f: "frame_of f = frame_no ?kp k" "bit f 0"
    using frame_of_frame_no[OF wfs(2) k(1)] by (simp_all add: f_def frame_flags)
  have free: "frame_no ?kp k \<in> free_frames ?kp" using k by (auto simp: free_frames_def)
  then have fc: "frame_of f \<noteq> frame_of (cr3 s)" using wfs(3) f by auto
  have pd: "phys s' (entry_at (cr3 s) i) = (if i = pd_index v then f else phys s (entry_at (cr3 s) i))"
    if "index i" for i
    using that fc by (auto simp: s' entry_eq)
  have c: "cr3 s' = cr3 s" "kernel_pool s' = ?kp\<lparr>pool_bitmap := bm\<rparr>" by (simp_all add: s')
  have less: "free_frames (kernel_pool s') \<subseteq> free_frames ?kp"
    "frame_no ?kp k \<notin> free_frames (kernel_pool s')"
    using bm c frame_no_inj[OF wfs(2) k(1)] by (auto simp: free_frames_def split: if_splits)
  have "pool_wf (kernel_pool s')" using wfs(2) bm c by (simp add: pool_wf_def)
  moreover have "self_mapped s'" using wfs(1) v pd[of "0x3ff"] c by (auto simp: self_mapped_def Let_def)
  moreover have "frame_of (phys s' (entry_at (cr3 s) i)) \<noteq> frame_of (cr3 s) \<and>
      frame_of (phys s' (entry_at (cr3 s) i)) \<notin> free_frames (kernel_pool s')"
    if "index i" "i \<noteq> 0x3ff" "bit (phys s' (entry_at (cr3 s) i)) 0" for i
    using that pd[of i] wf less fc f(1) unfolding tables_wf_def by (cases "i = pd_index v") auto
  ultimately show "tables_wf s'" unfolding tables_wf_def using wfs(3) less c by auto
  show b: "bit (pde_of v s') 0" using pd[of "pd_index v"] f c by (simp add: pde_of_def)
  have pt: "phys s' (entry_at f i) = 0" if "index i" for i
  proof -
    have "\<exists>j. index j \<and> entry_at f i = entry_at f j" using that by blast
    then show ?thesis by (simp add: s')
  qed
  have f': "pde_of w s' = f" if "pd_index w = pd_index v" for w
    using pd[of "pd_index v"] c that by (simp add: pde_of_def)
  show "pte_of v s' = 0" using f'[of v] pt by (simp add: pte_of_def)
  show "pd_index w = pd_index v" if w: "pd_index w \<noteq> 0x3ff" "same_slot s' v w"
  proof (rule ccontr)
    assume "pd_index w \<noteq> pd_index v"
    moreover from this have "pde_of w s' = pde_of w s" using pd[of "pd_index w"] c by (simp add: pde_of_def)
    ultimately show False using w wfs(4)[OF w(1)] f'[of v] free f(1) by (auto simp: same_slot_def)
  qed
  show "translate w s' = translate w s" if w: "pd_index w \<noteq> 0x3ff"
  proof (cases "pd_index w = pd_index v")
    case True
    then have "\<not> bit (pde_of w s) 0" "\<not> bit (pte_of w s') 0"
      using v(2) f' pt by (simp_all add: pde_of_def pte_of_def)
    then show ?thesis by (simp add: translate_def)
  next
    case False
    show ?thesis
    proof (rule translate_cong)
      assume "bit (pde_of w s) 0"
      then have "frame_of (pde_of w s) \<noteq> frame_of f" "frame_of (pde_of w s) \<noteq> frame_of (cr3 s)"
        using wfs(4)[OF w] free f by auto
      then show "phys s' (entry_at (pde_of w s) (pt_index w)) = pte_of w s"
        by (auto simp: s' pte_of_def entry_eq)
    qed (use c pd[of "pd_index w"] False in \<open>simp_all add: pde_of_def\<close>)
  qed
qed

text \<open>The effect of \<^verbatim>\<open>page_table_add\<close> on a page that is not mapped.\<close>

definition unmapped :: "u32 \<Rightarrow> 'a mem_state_scheme \<Rightarrow> bool" where
  "unmapped v s \<longleftrightarrow> translate v s = Inl (Page_fault v)"

definition maps_page :: "u32 \<Rightarrow> u32 \<Rightarrow> 'a mem_state_scheme \<Rightarrow> bool" where
  "maps_page v p s \<longleftrightarrow> (\<forall>w. frame_of w = frame_of v \<longrightarrow> translate w s = Inr (frame_of p OR w AND 0xfff))"

definition only_changes :: "u32 \<Rightarrow> 'a mem_state_scheme \<Rightarrow> 'a mem_state_scheme \<Rightarrow> bool" where
  "only_changes v s s' \<longleftrightarrow>
     (\<forall>w. pd_index w \<noteq> 0x3ff \<and> \<not> same_slot s v w \<longrightarrow> translate w s' = translate w s)"

lemma unmapped_iff: "unmapped v s \<longleftrightarrow> \<not> bit (pde_of v s) 0 \<or> \<not> bit (pte_of v s) 0"
  by (simp add: unmapped_def translate_def)

lemma enter_page:
  assumes "tables_wf s" "pd_index v \<noteq> 0x3ff" "bit (pde_of v s) 0"
    and s': "s' = s\<lparr>phys := (phys s)(entry_at (pde_of v s) (pt_index v) := p OR PG_P_1 OR PG_RW_W OR PG_US_U)\<rparr>"
  shows "tables_wf s' \<and> maps_page v p s' \<and> only_changes v s s'"
proof -
  note e = set_entry[OF assms(1,2,3) s']
  have "translate w s' = Inr (frame_of p OR w AND 0xfff)" if "frame_of w = frame_of v" for w
  proof -
    have "bit (pde_of w s') 0"
      using assms(3) e(2) same_page_fields[OF that] by (simp add: pde_of_def)
    then show ?thesis using e(3)[OF that] by (simp add: translate_def frame_flags)
  qed
  then show ?thesis using e(1,4) by (auto simp: maps_page_def only_changes_def)
qed

definition table_frame_taken :: "u32 \<Rightarrow> 'a mem_state_scheme \<Rightarrow> 'a mem_state_scheme \<Rightarrow> bool" where
  "table_frame_taken v s s' \<longleftrightarrow> (\<exists>ph bm. s' = s\<lparr>phys := ph, kernel_pool := (kernel_pool s)\<lparr>pool_bitmap := bm\<rparr>\<rparr> \<and>
     nbits bm = nbits (pool_bitmap (kernel_pool s)) \<and>
     (if bit (pde_of v s) 0 then bm = pool_bitmap (kernel_pool s)
      else \<exists>k < nbits bm. \<not> used (pool_bitmap (kernel_pool s)) k \<and>
             used bm = (used (pool_bitmap (kernel_pool s)))(k := True)))"

lemma page_table_add_effect:
  assumes wf: "tables_wf s" and v: "pd_index v \<noteq> 0x3ff" "unmapped v s"
    and room: "bit (pde_of v s) 0 \<or> free_frames (kernel_pool s) \<noteq> {}"
  obtains s' where "page_table_add v p s = Inr s'" "tables_wf s'" "maps_page v p s'" "only_changes v s s'"
    "table_frame_taken v s s'"
proof (cases "bit (pde_of v s) 0")
  case True
  define s' where "s' = s\<lparr>phys := (phys s)(entry_at (pde_of v s) (pt_index v) := p OR PG_P_1 OR PG_RW_W OR PG_US_U)\<rparr>"
  note self = tables_wfD(1)[OF wf]
  have "page_table_add v p s = Inr s'"
    using True v(2) load_entries[OF self, of v] store_entries(2)[OF self True]
    by (simp add: page_table_add_def present_bit unmapped_iff s'_def)
  moreover have "table_frame_taken v s s'"
    unfolding table_frame_taken_def using True
    by (intro exI[of _ "phys s'"] exI[of _ "pool_bitmap (kernel_pool s)"]) (simp add: s'_def)
  ultimately show ?thesis using that enter_page[OF wf v(1) True s'_def] by blast
next
  case False
  note self = tables_wfD(1)[OF wf]
  obtain k bm where k: "palloc (kernel_pool s) = Inr (frame_no (kernel_pool s) k, (kernel_pool s)\<lparr>pool_bitmap := bm\<rparr>)"
      "k < nbits (pool_bitmap (kernel_pool s))" "\<not> used (pool_bitmap (kernel_pool s)) k"
      "nbits bm = nbits (pool_bitmap (kernel_pool s))"
      "used bm = (used (pool_bitmap (kernel_pool s)))(k := True)" "pool_wf ((kernel_pool s)\<lparr>pool_bitmap := bm\<rparr>)"
    using tables_wfD(2)[OF wf]
  proof (cases rule: palloc_cases)
    case full
    then show ?thesis using room False by (auto simp: free_frames_def)
  qed (rule that)
  let ?f = "frame_no (kernel_pool s) k OR PG_P_1 OR PG_RW_W OR PG_US_U"
  define t where "t = new_table v k bm s"
  note n = new_table[OF wf v(1) False k(2-5) _ t_def]
  have n1: "tables_wf t" "bit (pde_of v t) 0" "pte_of v t = 0"
    and n4: "\<And>w. pd_index w \<noteq> 0x3ff \<Longrightarrow> translate w t = translate w s"
    and n5: "\<And>w. pd_index w \<noteq> 0x3ff \<Longrightarrow> same_slot t v w \<Longrightarrow> pd_index w = pd_index v"
    using n k(6) by (auto simp: pool_wf_def)
  define s' where "s' = t\<lparr>phys := (phys t)(entry_at (pde_of v t) (pt_index v) := p OR PG_P_1 OR PG_RW_W OR PG_US_U)\<rparr>"
  let ?u = "s\<lparr>kernel_pool := (kernel_pool s)\<lparr>pool_bitmap := bm\<rparr>,
              phys := (phys s)(entry_at (cr3 s) (pd_index v) := ?f)\<rparr>"
  have u: "self_mapped ?u" "pde_of v ?u = ?f"
    using self v(1) by (simp_all add: self_mapped_def pde_of_def Let_def entry_eq)
  have "frame_no (kernel_pool s) k \<in> free_frames (kernel_pool s)" using k(2,3) by (auto simp: free_frames_def)
  then have "frame_of ?f \<noteq> frame_of (cr3 ?u)"
    using tables_wfD(3)[OF wf] frame_of_frame_no[OF tables_wfD(2)[OF wf] k(2)] by (auto simp: frame_flags)
  then have clr: "zero_words (pte_addr v AND 0xfffff000) 1024 ?u = Inr t"
    using clear_table[OF u(1), of v] by (simp add: u(2) frame_flags t_def new_table_def Let_def cong: if_cong)
  have st: "store_word (pde_addr v) ?f (s\<lparr>kernel_pool := (kernel_pool s)\<lparr>pool_bitmap := bm\<rparr>\<rparr>) = Inr ?u"
    using store_entries(1)[of "s\<lparr>kernel_pool := (kernel_pool s)\<lparr>pool_bitmap := bm\<rparr>\<rparr>" v ?f] self
    by (simp add: self_mapped_def)
  note selft = tables_wfD(1)[OF n1(1)]
  have "page_table_add v p s = Inr s'"
    using False k(1) st clr load_entries(1)[OF self, of v] load_entries(2)[OF selft n1(2)] n1(3)
      store_entries(2)[OF selft n1(2)]
    by (simp add: page_table_add_def present_bit s'_def)
  moreover have "tables_wf s' \<and> maps_page v p s' \<and> only_changes v t s'"
    by (rule enter_page[OF n1(1) v(1) n1(2) s'_def])
  moreover have "same_slot t v w \<Longrightarrow> pd_index w \<noteq> 0x3ff \<Longrightarrow> same_slot s v w" for w
    using n5[of w] by (auto simp: same_slot_def)
  moreover have "table_frame_taken v s s'"
    unfolding table_frame_taken_def using False k(2-5)
    by (intro exI[of _ "phys s'"] exI[of _ bm]) (auto simp: s'_def t_def new_table_def Let_def)
  ultimately show ?thesis using that n4 unfolding only_changes_def by metis
qed

lemma page_table_pte_remove_effect:
  assumes wf: "tables_wf s" and v: "pd_index v \<noteq> 0x3ff" "bit (pde_of v s) 0"
  obtains s' where "page_table_pte_remove v s = Inr s'" "tables_wf s'" "unmapped v s'" "only_changes v s s'"
    "\<exists>ph. s' = s\<lparr>phys := ph\<rparr>"
proof -
  note self = tables_wfD(1)[OF wf]
  define s' where "s' = s\<lparr>phys := (phys s)(entry_at (pde_of v s) (pt_index v) := pte_of v s AND NOT PG_P_1)\<rparr>"
  have "page_table_pte_remove v s = Inr s'"
    using v(2) load_entries(2)[OF self] store_entries(2)[OF self]
    by (simp add: page_table_pte_remove_def s'_def)
  moreover note e = set_entry[OF wf v s'_def]
  have "unmapped v s'" using e(3)[of v] by (simp add: unmapped_iff cleared_present)
  moreover have "only_changes v s s'" "\<exists>ph. s' = s\<lparr>phys := ph\<rparr>"
    using e(4) by (auto simp: only_changes_def s'_def)
  ultimately show ?thesis using that e(1) by blast
qed

lemma addr_virtual_to_phy_ok:
  assumes "self_mapped s" "translate v s = Inr pa"
  shows "addr_virtual_to_phy v s = Inr pa"
  using assms load_entries(2)[OF assms(1), of v]
  by (auto simp: addr_virtual_to_phy_def translate_def frame_off_sum split: if_splits)

section \<open>Properties\<close>

text \<open>
  C6: in an address space whose directory maps itself, the address computed by
  \<^verbatim>\<open>pde_addr\<close> is the word of the directory that the walk for \<open>v\<close> reads first, and, where
  that entry is present, the address computed by \<^verbatim>\<open>pte_addr\<close> is the word of the page
  table that it reads next; where it is not present, the access faults.
\<close>

theorem entry_addresses:
  assumes "self_mapped s"
  shows "translate (pde_addr v) s = Inr (entry_at (cr3 s) (pd_index v)) \<and>
    translate (pte_addr v) s = (if bit (pde_of v s) 0 then Inr (entry_at (pde_of v s) (pt_index v))
                                else Inl (Page_fault (pte_addr v)))"
  using assms by (simp add: translate_pde_addr translate_pte_addr)

text \<open>
  C5: \<^verbatim>\<open>page_table_add\<close> of an unmapped page, outside the window on the tables, succeeds
  when the page table exists or a frame is left for it: afterwards the whole page leads to the
  frame given, and every other address leads where it did, except through the very table entry
  that was written. The invariant of the tables is kept, so the next call may rely on it.
\<close>

theorem page_table_add_maps:
  assumes "tables_wf s" and "pd_index v \<noteq> 0x3ff" and "unmapped v s"
    and "bit (pde_of v s) 0 \<or> free_frames (kernel_pool s) \<noteq> {}"
  shows "\<exists>s'. page_table_add v p s = Inr s' \<and> tables_wf s' \<and>
    (\<forall>w. frame_of w = frame_of v \<longrightarrow> translate w s' = Inr (frame_of p OR w AND 0xfff)) \<and>
    (\<forall>w. pd_index w \<noteq> 0x3ff \<and> \<not> same_slot s v w \<longrightarrow> translate w s' = translate w s)"
  by (rule page_table_add_effect[OF assms, of p]) (auto simp: maps_page_def only_changes_def)


section \<open>Witnesses\<close>

text \<open>
  A directory at 0x100000 whose only entry is the one to itself, and a kernel pool of eight frames
  at 0x200000, the first of them in use.
\<close>

definition bare_memory :: "unit mem_state_scheme" where
  "bare_memory = \<lparr>eflags = 2, ports = [], screen = [], idt = [], exception_funcptr_table = [],
     exception_names = [], idtr = 0, lheap = \<lambda>_. \<lparr>l_prev = 0, l_next = 0\<rparr>,
     phys = (\<lambda>_. 0)(entry_at 0x100000 0x3ff := 0x100007), cr3 = 0x100000,
     kernel_pool = \<lparr>pool_bitmap = \<lparr>bitmap_len = 1, bits = [1]\<rparr>, phy_start_addr = 0x200000,
       mem_size = 0x8000, pool_lock = 0\<rparr>,
     user_pool = \<lparr>pool_bitmap = \<lparr>bitmap_len = 1, bits = [0]\<rparr>, phy_start_addr = 0x208000,
       mem_size = 0x8000, pool_lock = 0\<rparr>,
     kernel_vaddr = \<lparr>vaddr_bitmap = \<lparr>bitmap_len = 1, bits = [0]\<rparr>, vaddr_start = 0xc0100000\<rparr>\<rparr>"

lemma bare_memory_wf: "tables_wf bare_memory"
proof -
  have f: "frame_of 0x100007 = 0x100000" "frame_of 0x100000 = 0x100000" by (simp_all add: frame_of_def)
  have p: "pool_wf (kernel_pool bare_memory)" by (simp add: bare_memory_def pool_wf_def bitmap_wf_def nbits_def)
  have "0x100000 \<notin> free_frames (kernel_pool bare_memory)"
  proof
    assume "0x100000 \<in> free_frames (kernel_pool bare_memory)"
    then obtain k where "frame_no (kernel_pool bare_memory) k = 0x100000"
      "k < nbits (pool_bitmap (kernel_pool bare_memory))" by (auto simp: free_frames_def)
    with unat_frame_no[OF p this(2)] show False by (simp add: bare_memory_def)
  qed
  moreover have "phys bare_memory (entry_at 0x100000 i) = 0" if "index i" "i \<noteq> 0x3ff" for i
    using that by (simp add: bare_memory_def entry_eq)
  moreover have "phys bare_memory (entry_at 0x100000 0x3ff) = 0x100007" "cr3 bare_memory = 0x100000"
    by (simp_all add: bare_memory_def)
  ultimately show ?thesis using p f unfolding tables_wf_def self_mapped_def Let_def by auto
qed

lemma bare_memory_room: "free_frames (kernel_pool bare_memory) \<noteq> {}"
proof -
  have "\<not> used (pool_bitmap (kernel_pool bare_memory)) 1" "1 < nbits (pool_bitmap (kernel_pool bare_memory))"
    by (simp_all add: bare_memory_def used_def nbits_def)
  then show ?thesis unfolding free_frames_def by blast
qed

lemma bare_memory_unmapped: "pd_index 0xc0100000 = 0x300" "unmapped 0xc0100000 bare_memory"
proof -
  show i: "pd_index 0xc0100000 = 0x300" by (simp add: pd_index_def)
  have "index 0x300" by (simp add: index_def)
  then show "unmapped 0xc0100000 bare_memory"
    by (simp add: unmapped_iff pde_of_def i bare_memory_def entry_eq)
qed

theorem entry_addresses_witness:
  "translate (pde_addr 0xc0100000) bare_memory = Inr (entry_at 0x100000 0x300) \<and>
   translate (pte_addr 0xc0100000) bare_memory = Inl (Page_fault (pte_addr 0xc0100000))"
  using entry_addresses[of bare_memory "0xc0100000"] tables_wfD(1)[OF bare_memory_wf] bare_memory_unmapped
  by (auto simp: unmapped_iff bare_memory_def pde_of_def index_def entry_eq)

theorem page_table_add_maps_witness:
  "\<exists>s'. page_table_add 0xc0100000 0x201000 bare_memory = Inr s' \<and> translate 0xc0100abc s' = Inr 0x201abc"
  using page_table_add_maps[OF bare_memory_wf _ bare_memory_unmapped(2), of "0x201000"] bare_memory_room
    bare_memory_unmapped(1)
  by (force simp: frame_of_def)


end
