(* ===== verification/Thread.thy ===== *)
theory Thread
  imports Paging
begin

text \<open>
  Threads and the scheduler (\<^verbatim>\<open>thread/thread.c\<close>, and from \<^verbatim>\<open>userprog\<close>
  what a switch needs: \<^verbatim>\<open>process_activate\<close>, \<^verbatim>\<open>page_dir_activate\<close>,
  \<^verbatim>\<open>update_tss_esp0\<close>).

  Process control blocks, semaphores, locks and memory block descriptors are stores from addresses
  to records; the list nodes inside them live in the node store, at the offsets the compiler gives
  them. The addresses of the global lists and locks are chosen by the linker: they are fields of
  the state that no routine changes.

  A routine that calls \<^verbatim>\<open>schedule\<close> does not return at once: the processor goes on in
  another thread. What is left to do is therefore kept explicitly, as in the kernel stack of the
  thread, in \<open>kstack\<close>: before a call that may switch, the routine pushes a frame that names its
  remainder, and the thread runs its top frame when it is scheduled again. \<open>esp\<close> is the stack
  pointer at the call of \<^verbatim>\<open>switch_to\<close>; \<^verbatim>\<open>thread/switch.asm\<close> pushes a return
  address and four registers, 20 bytes, before it saves the pointer.
\<close>

section \<open>Data\<close>

datatype task_status = TASK_RUNNING | TASK_READY | TASK_BLOCKED | TASK_WAITING | TASK_HANGING | TASK_DIED

datatype frame =
    Restore intr_status
  | Sem_loop u32 intr_status
  | Lock_tail u32
  | Idle_hlt
  | Kernel_thread u32 u32
  | Iret u32

record pcb_struct =
  self_kernel_stack :: u32
  status :: task_status
  priority :: u8
  pid :: u16
  pcb_name :: "u8 list"
  pcb_ticks :: u8
  elapsed_ticks :: u32
  fd_table :: "u32 list"
  pgdir :: u32
  userprog_vaddr :: virtual_addrs
  stack_magic :: u32

record mem_block_desc =
  block_size :: u32
  blocks_per_arena :: u32

record lock_struct =
  holder :: u32
  holder_repeat_num :: u32

record thread_state = mem_state +
  pcbs :: "u32 \<Rightarrow> pcb_struct"
  block_descs :: "u32 \<Rightarrow> mem_block_desc"
  sem_value :: "u32 \<Rightarrow> u8"
  locks :: "u32 \<Rightarrow> lock_struct"
  kstack :: "u32 \<Rightarrow> frame list"
  esp :: u32
  tss_esp0 :: u32
  ready_thread_list :: u32
  all_thread_list :: u32
  pid_lock :: u32
  main_thread_pcb_ptr :: u32
  idle_thread :: u32
  thread_tag :: u32
  next_pid :: u16

definition general_tag :: "u32 \<Rightarrow> u32" where "general_tag p = p + 68"
definition all_list_tag :: "u32 \<Rightarrow> u32" where "all_list_tag p = p + 76"
definition u_mem_block_desc :: "u32 \<Rightarrow> u32" where "u_mem_block_desc p = p + 100"

definition get_pcb :: "u32 \<Rightarrow> u32" where "get_pcb tag = tag - 68"

definition upd_pcb :: "u32 \<Rightarrow> (pcb_struct \<Rightarrow> pcb_struct) \<Rightarrow> 'a thread_state_scheme \<Rightarrow> 'a thread_state_scheme" where
  "upd_pcb p f s = s\<lparr>pcbs := (pcbs s)(p := f (pcbs s p))\<rparr>"

definition push_frame :: "frame \<Rightarrow> u32 \<Rightarrow> 'a thread_state_scheme \<Rightarrow> 'a thread_state_scheme" where
  "push_frame f p s = s\<lparr>kstack := (kstack s)(p := f # kstack s p)\<rparr>"

section \<open>Switching\<close>

definition running_thread :: "'a thread_state_scheme \<Rightarrow> u32" where
  "running_thread s = esp s AND 0xfffff000"

definition switch_to :: "u32 \<Rightarrow> u32 \<Rightarrow> 'a thread_state_scheme \<Rightarrow> 'a thread_state_scheme" where
  "switch_to cur nxt s =
     (let s = upd_pcb cur (\<lambda>p. p\<lparr>self_kernel_stack := esp s - 20\<rparr>) s
      in s\<lparr>esp := self_kernel_stack (pcbs s nxt) + 20\<rparr>)"

definition update_tss_esp0 :: "u32 \<Rightarrow> 'a thread_state_scheme \<Rightarrow> 'a thread_state_scheme" where
  "update_tss_esp0 pthread s = s\<lparr>tss_esp0 := pthread + 4096\<rparr>"

definition page_dir_activate :: "u32 \<Rightarrow> 'a thread_state_scheme \<Rightarrow> error + 'a thread_state_scheme" where
  "page_dir_activate pthread s =
     bnd (if pgdir (pcbs s pthread) \<noteq> 0 then addr_virtual_to_phy (pgdir (pcbs s pthread)) s
          else Inr 0x00100000) (\<lambda>pg_dir.
     Inr (s\<lparr>cr3 := pg_dir\<rparr>))"

definition process_activate :: "u32 \<Rightarrow> 'a thread_state_scheme \<Rightarrow> error + 'a thread_state_scheme" where
  "process_activate pcb s =
     (let s = (if pcb = 0 then putStr ''process_activate error \<newline>'' s else s) in
      bnd (page_dir_activate pcb s) (\<lambda>s.
      Inr (if pgdir (pcbs s pcb) \<noteq> 0 then update_tss_esp0 pcb s else s)))"

section \<open>The scheduler\<close>

definition can_unlock :: "task_status \<Rightarrow> bool" where
  "can_unlock st \<longleftrightarrow> st = TASK_BLOCKED \<or> st = TASK_WAITING \<or> st = TASK_HANGING"

definition thread_unlock :: "u32 \<Rightarrow> 'a thread_state_scheme \<Rightarrow> error + 'a thread_state_scheme" where
  "thread_unlock unlock_thread s =
     (let (old_status, s) = intr_disable s; st = status (pcbs s unlock_thread) in
      bnd (ASSERT (can_unlock st)
        ''status == TASK_BLOCKED || status == TASK_WAITING || status == TASK_HANGING'') (\<lambda>_.
      bnd (if status (pcbs s unlock_thread) \<noteq> TASK_READY
           then bnd (elem_find (ready_thread_list s) (general_tag unlock_thread) s) (\<lambda>found.
                bnd (ASSERT (\<not> found) ''!elem_find(&ready_thread_list, &(unlock_thread->general_tag))'') (\<lambda>_.
                bnd (elem_find (ready_thread_list s) (general_tag unlock_thread) s) (\<lambda>found.
                if found then Inl (Exception ''blocked list is ready list'')
                else let s = upd_pcb unlock_thread (\<lambda>p. p\<lparr>status := TASK_READY\<rparr>) s in
                     Inr (list_push (ready_thread_list s) (general_tag unlock_thread) s))))
           else Inr s) (\<lambda>s.
      Inr (snd (intr_set_status old_status s)))))"

definition schedule :: "'a thread_state_scheme \<Rightarrow> error + 'a thread_state_scheme" where
  "schedule s =
     bnd (ASSERT (intr_get_status s = INTR_OFF) ''intr_get_status() == INTR_OFF'') (\<lambda>_.
     let cur = running_thread s in
     bnd (if status (pcbs s cur) = TASK_RUNNING
          then bnd (elem_find (ready_thread_list s) (general_tag cur) s) (\<lambda>found.
               bnd (ASSERT (\<not> found) ''!elem_find(&ready_thread_list, &curr->general_tag)'') (\<lambda>_.
               let s = upd_pcb cur (\<lambda>p. p\<lparr>pcb_ticks := priority p\<rparr>) s;
                   s = upd_pcb cur (\<lambda>p. p\<lparr>status := TASK_READY\<rparr>) s
               in Inr (list_append (ready_thread_list s) (general_tag cur) s)))
          else Inr s) (\<lambda>s.
     bnd (if list_empty (ready_thread_list s) s then thread_unlock (idle_thread s) s else Inr s) (\<lambda>s.
     bnd (ASSERT (\<not> list_empty (ready_thread_list s) s) ''!list_empty(&ready_thread_list)'') (\<lambda>_.
     let (tag, s) = list_pop (ready_thread_list s) (s\<lparr>thread_tag := 0\<rparr>);
         s = s\<lparr>thread_tag := tag\<rparr>;
         nxt = get_pcb tag;
         s = upd_pcb nxt (\<lambda>p. p\<lparr>status := TASK_RUNNING\<rparr>) s
     in bnd (process_activate nxt s) (\<lambda>s. Inr (switch_to cur nxt s))))))"

definition thread_lock :: "task_status \<Rightarrow> 'a thread_state_scheme \<Rightarrow> error + 'a thread_state_scheme" where
  "thread_lock st s =
     (let (old_status, s) = intr_disable s in
      bnd (ASSERT (can_unlock st)
        ''status == TASK_BLOCKED || status == TASK_WAITING || status == TASK_HANGING'') (\<lambda>_.
      let curr_ptr = running_thread s;
          s = upd_pcb curr_ptr (\<lambda>p. p\<lparr>status := st\<rparr>) s
      in schedule (push_frame (Restore old_status) curr_ptr s)))"

definition thread_yield :: "'a thread_state_scheme \<Rightarrow> error + 'a thread_state_scheme" where
  "thread_yield s =
     (let curr_thread = running_thread s;
          (old_status, s) = intr_disable s
      in bnd (elem_find (ready_thread_list s) curr_thread s) (\<lambda>found.
         bnd (ASSERT (\<not> found) ''!elem_find(&ready_thread_list, curr_thread)'') (\<lambda>_.
         let s = list_append (ready_thread_list s) (general_tag curr_thread) s;
             s = upd_pcb curr_thread (\<lambda>p. p\<lparr>status := TASK_READY\<rparr>) s
         in schedule (push_frame (Restore old_status) curr_thread s))))"

text \<open>
  One round of the loop of \<^verbatim>\<open>idle\<close>: the frame \<open>Idle_hlt\<close> is the
  \<^verbatim>\<open>sti; hlt\<close> that follows the call.
\<close>

definition idle :: "'a thread_state_scheme \<Rightarrow> error + 'a thread_state_scheme" where
  "idle s = thread_lock TASK_BLOCKED (push_frame Idle_hlt (running_thread s) s)"

section \<open>New threads\<close>

definition SIZEOF_INTR_STACK :: u32 where "SIZEOF_INTR_STACK = 76"
definition SIZEOF_THREAD_STACK :: u32 where "SIZEOF_THREAD_STACK = 32"

text \<open>
  \<^verbatim>\<open>self_kernel_stack\<close> points to 4-byte words, so each subtraction moves it by four times
  the size. The record the source builds there, with \<^verbatim>\<open>eip\<close> set to
  \<^verbatim>\<open>kernel_thread\<close> and the registers to 0, is the frame \<open>Kernel_thread\<close>.
\<close>

definition thread_create :: "u32 \<Rightarrow> u32 \<Rightarrow> u32 \<Rightarrow> 'a thread_state_scheme \<Rightarrow> 'a thread_state_scheme" where
  "thread_create pcb_ptr func func_args s =
     (let s = upd_pcb pcb_ptr (\<lambda>p. p\<lparr>self_kernel_stack := self_kernel_stack p - 4 * SIZEOF_INTR_STACK\<rparr>) s;
          s = upd_pcb pcb_ptr (\<lambda>p. p\<lparr>self_kernel_stack := self_kernel_stack p - 4 * SIZEOF_THREAD_STACK\<rparr>) s
      in s\<lparr>kstack := (kstack s)(pcb_ptr := [Kernel_thread func func_args])\<rparr>)"

definition kernel_thread :: "'a thread_state_scheme \<Rightarrow> 'a thread_state_scheme" where
  "kernel_thread s = snd (intr_enable s)"

section \<open>Sections with interrupts closed\<close>

lemma intr_restore:
  assumes "intr_disable s = (old, t)" "eflags u = eflags t"
  shows "snd (intr_set_status old u) = u\<lparr>eflags := eflags s\<rparr>"
  using intr_set_status_eflags[of old u] intr_nest[of u s] assms by simp

lemma intr_disabled:
  obtains old x where "intr_disable s = (old, s\<lparr>eflags := x\<rparr>)" "\<not> bit x 9"
proof -
  obtain old t where t: "intr_disable s = (old, t)" by fastforce
  have "t = s\<lparr>eflags := eflags t\<rparr>" "\<not> bit (eflags t) 9"
    using intr_disable_eflags[of s] intr_disable_off[of s] t by (simp_all add: status_iff)
  then show ?thesis using that t by metis
qed

lemma intr_already_off: "\<not> bit (eflags s) 9 \<Longrightarrow> intr_disable s = (INTR_OFF, s)"
  by (simp add: intr_disable_def status_iff)

section \<open>What the scheduler does to the lists\<close>

lemma general_tag_inj [simp]: "general_tag p = general_tag q \<longleftrightarrow> p = q"
  by (simp add: general_tag_def)

lemma general_tag_inj_on [simp]: "inj general_tag" "inj_on general_tag A"
  by (auto intro: injI inj_onI)

lemma get_pcb_general_tag [simp]: "get_pcb (general_tag p) = p"
  by (simp add: get_pcb_def general_tag_def)

lemma unlinked_not_member: "\<lbrakk> unlinked e Q; Q p = Some xs \<rbrakk> \<Longrightarrow> e \<notin> set xs"
  by (auto simp: unlinked_def nodes_def)

lemma thread_unlock_ok:
  assumes Q: "lists_at (lheap s) Q" "Q (ready_thread_list s) = Some xs"
    and t: "can_unlock (status (pcbs s t))" "unlinked (general_tag t) Q"
  obtains h where "thread_unlock t s = Inr (s\<lparr>pcbs := (pcbs s)(t := (pcbs s t)\<lparr>status := TASK_READY\<rparr>), lheap := h\<rparr>)"
    "lists_at h (Q(ready_thread_list s \<mapsto> general_tag t # xs))"
proof -
  obtain old x where d: "intr_disable s = (old, s\<lparr>eflags := x\<rparr>)" using intr_disabled[of s] by metis
  let ?t = "s\<lparr>eflags := x\<rparr>" and ?r = "ready_thread_list s"
  have f: "elem_find ?r (general_tag t) ?t = Inr False"
    using elem_find_ok[of ?t ?r xs] lists_atD(1)[OF Q] unlinked_not_member[OF t(2) Q(2)] by simp
  have st: "status (pcbs s t) \<noteq> TASK_READY" using t(1) by (auto simp: can_unlock_def)
  let ?u = "list_push ?r (general_tag t) (upd_pcb t (\<lambda>p. p\<lparr>status := TASK_READY\<rparr>) ?t)"
  have "thread_unlock t s = Inr (snd (intr_set_status old ?u))"
    using d f t(1) st by (simp add: thread_unlock_def Let_def upd_pcb_def)
  also have "snd (intr_set_status old ?u) = ?u\<lparr>eflags := eflags s\<rparr>"
    by (rule intr_restore[OF d]) (simp add: list_push_eq upd_pcb_def)
  also have "\<dots> = s\<lparr>pcbs := (pcbs s)(t := (pcbs s t)\<lparr>status := TASK_READY\<rparr>),
      lheap := insert_heap (l_next (lheap s (head_of ?r))) (general_tag t) (lheap s)\<rparr>"
    by (simp add: list_push_eq upd_pcb_def)
  finally show ?thesis using that lists_at_push[OF Q t(2)] by blast
qed

text \<open>Whatever the lists look like, \<^verbatim>\<open>thread_unlock\<close> changes one control block and the nodes.\<close>

lemma thread_unlock_fails:
  "\<not> can_unlock (status (pcbs s t)) \<Longrightarrow> \<exists>msg. thread_unlock t s = Inl (Assert_failed msg)"
  by (rule intr_disabled[of s]) (auto simp: thread_unlock_def Let_def)

lemma thread_unlock_frame:
  assumes "thread_unlock t s = Inr s'"
  shows "\<exists>h. s' = s\<lparr>lheap := h, pcbs := (pcbs s)(t := (pcbs s t)\<lparr>status := TASK_READY\<rparr>)\<rparr>"
proof -
  obtain old x where d: "intr_disable s = (old, s\<lparr>eflags := x\<rparr>)" using intr_disabled[of s] by metis
  let ?t = "s\<lparr>eflags := x\<rparr>" and ?r = "ready_thread_list s"
  let ?u = "list_push ?r (general_tag t) (upd_pcb t (\<lambda>p. p\<lparr>status := TASK_READY\<rparr>) ?t)"
  have "can_unlock (status (pcbs s t))" using thread_unlock_fails[of s t] assms by auto
  then have "status (pcbs s t) \<noteq> TASK_READY" by (auto simp: can_unlock_def)
  then have "s' = snd (intr_set_status old ?u)"
    using assms d by (auto simp: thread_unlock_def Let_def upd_pcb_def outcome split: if_splits)
  also have "\<dots> = ?u\<lparr>eflags := eflags s\<rparr>"
    by (rule intr_restore[OF d]) (simp add: list_push_eq upd_pcb_def)
  also have "\<dots> = s\<lparr>lheap := insert_heap (l_next (lheap s (head_of ?r))) (general_tag t) (lheap s),
      pcbs := (pcbs s)(t := (pcbs s t)\<lparr>status := TASK_READY\<rparr>)\<rparr>"
    by (cases s) (simp add: list_push_eq upd_pcb_def)
  finally show ?thesis by blast
qed

text \<open>
  The state in which \<^verbatim>\<open>schedule\<close> leaves the control blocks: the running thread goes back
  to the ready state if it still was running, the idle thread is made ready if nobody else is, the
  thread chosen runs, and the stack pointer of the old one is saved.
\<close>

definition requeued :: "u32 \<Rightarrow> (u32 \<Rightarrow> pcb_struct) \<Rightarrow> (u32 \<Rightarrow> pcb_struct)" where
  "requeued c P = (if status (P c) = TASK_RUNNING
     then P(c := (P c)\<lparr>pcb_ticks := priority (P c), status := TASK_READY\<rparr>) else P)"

definition candidates :: "u32 \<Rightarrow> (u32 \<Rightarrow> pcb_struct) \<Rightarrow> u32 list \<Rightarrow> u32 list" where
  "candidates c P rs = (if status (P c) = TASK_RUNNING then rs @ [c] else rs)"

definition woken :: "u32 list \<Rightarrow> u32 \<Rightarrow> (u32 \<Rightarrow> pcb_struct) \<Rightarrow> (u32 \<Rightarrow> pcb_struct)" where
  "woken rs i P = (if rs = [] then P(i := (P i)\<lparr>status := TASK_READY\<rparr>) else P)"

definition switched :: "u32 \<Rightarrow> u32 \<Rightarrow> u32 \<Rightarrow> (u32 \<Rightarrow> pcb_struct) \<Rightarrow> (u32 \<Rightarrow> pcb_struct)" where
  "switched c sp n P = (let P = P(n := (P n)\<lparr>status := TASK_RUNNING\<rparr>) in P(c := (P c)\<lparr>self_kernel_stack := sp - 20\<rparr>))"

lemma process_activate_kernel:
  "pgdir (pcbs s p) = 0 \<Longrightarrow> p \<noteq> 0 \<Longrightarrow> process_activate p s = Inr (s\<lparr>cr3 := 0x00100000\<rparr>)"
  by (simp add: process_activate_def page_dir_activate_def)

lemma requeue_ok:
  assumes Q: "lists_at (lheap s) Q" "Q (ready_thread_list s) = Some (map general_tag rs)"
    and c: "status (pcbs s c) = TASK_RUNNING \<Longrightarrow> unlinked (general_tag c) Q"
  shows "\<exists>h. (if status (pcbs s c) = TASK_RUNNING
          then bnd (elem_find (ready_thread_list s) (general_tag c) s) (\<lambda>found.
               bnd (ASSERT (\<not> found) msg) (\<lambda>_.
               let s = upd_pcb c (\<lambda>p. p\<lparr>pcb_ticks := priority p\<rparr>) s;
                   s = upd_pcb c (\<lambda>p. p\<lparr>status := TASK_READY\<rparr>) s
               in Inr (list_append (ready_thread_list s) (general_tag c) s)))
          else Inr s) = Inr (s\<lparr>pcbs := requeued c (pcbs s), lheap := h\<rparr>) \<and>
     lists_at h (Q(ready_thread_list s \<mapsto> map general_tag (candidates c (pcbs s) rs)))"
proof (cases "status (pcbs s c) = TASK_RUNNING")
  case True
  let ?r = "ready_thread_list s"
  have f: "elem_find ?r (general_tag c) s = Inr False"
    using elem_find_ok[OF lists_atD(1)[OF Q]] unlinked_not_member[OF c[OF True] Q(2)] by simp
  show ?thesis using True f lists_at_append[OF Q c[OF True]]
    by (intro exI[of _ "insert_heap (tail_of ?r) (general_tag c) (lheap s)"])
      (simp add: upd_pcb_def list_append_eq requeued_def candidates_def)
next
  case False
  then have "requeued c (pcbs s) = pcbs s" "candidates c (pcbs s) rs = rs"
    by (simp_all add: requeued_def candidates_def)
  moreover have "Q(ready_thread_list s \<mapsto> map general_tag rs) = Q" using Q(2) by (simp add: fun_upd_idem)
  ultimately show ?thesis using False Q(1) by (intro exI[of _ "lheap s"]) simp
qed

lemma wake_ok:
  assumes Q: "lists_at (lheap s) Q" "Q (ready_thread_list s) = Some (map general_tag rs)"
    and i: "rs = [] \<Longrightarrow> can_unlock (status (pcbs s (idle_thread s))) \<and> unlinked (general_tag (idle_thread s)) Q"
  shows "\<exists>h. (if list_empty (ready_thread_list s) s then thread_unlock (idle_thread s) s else Inr s) =
      Inr (s\<lparr>pcbs := woken rs (idle_thread s) (pcbs s), lheap := h\<rparr>) \<and>
     lists_at h (Q(ready_thread_list s \<mapsto> map general_tag (if rs = [] then [idle_thread s] else rs)))"
proof (cases "rs = []")
  case True
  obtain h where "thread_unlock (idle_thread s) s = Inr (s\<lparr>pcbs := (pcbs s)(idle_thread s :=
        (pcbs s (idle_thread s))\<lparr>status := TASK_READY\<rparr>), lheap := h\<rparr>)"
    "lists_at h (Q(ready_thread_list s \<mapsto> [general_tag (idle_thread s)]))"
    using thread_unlock_ok[OF Q, of "idle_thread s"] i[OF True] True by auto
  then show ?thesis using True list_empty_ok[OF lists_atD(1)[OF Q]] by (auto simp: woken_def)
next
  case False
  moreover have "Q(ready_thread_list s \<mapsto> map general_tag rs) = Q" using Q(2) by (simp add: fun_upd_idem)
  ultimately show ?thesis using Q(1) list_empty_ok[OF lists_atD(1)[OF Q]]
    by (intro exI[of _ "lheap s"]) (simp add: woken_def)
qed

lemma schedule_ok:
  assumes Q: "lists_at (lheap s) Q" "Q (ready_thread_list s) = Some (map general_tag rs)"
    and off: "\<not> bit (eflags s) 9"
    and c: "c = running_thread s" "status (pcbs s c) = TASK_RUNNING \<Longrightarrow> unlinked (general_tag c) Q"
    and rs: "rs' = candidates c (pcbs s) rs" "n # ns = (if rs' = [] then [idle_thread s] else rs')"
    and i: "rs' = [] \<Longrightarrow> can_unlock (status (pcbs s (idle_thread s))) \<and> unlinked (general_tag (idle_thread s)) Q"
    and n: "n \<noteq> 0" "pgdir (pcbs s n) = 0"
    and P: "P = switched c (esp s) n (woken rs' (idle_thread s) (requeued c (pcbs s)))"
  obtains h where "schedule s = Inr (s\<lparr>lheap := h, cr3 := 0x00100000, thread_tag := general_tag n,
      pcbs := P, esp := self_kernel_stack (P n) + 20\<rparr>)"
    "lists_at h (Q(ready_thread_list s \<mapsto> map general_tag ns))"
proof -
  let ?r = "ready_thread_list s" and ?P1 = "requeued c (pcbs s)"
  obtain h1 where s1: "(if status (pcbs s c) = TASK_RUNNING
          then bnd (elem_find (ready_thread_list s) (general_tag c) s) (\<lambda>found.
               bnd (ASSERT (\<not> found) ''!elem_find(&ready_thread_list, &curr->general_tag)'') (\<lambda>_.
               let s = upd_pcb c (\<lambda>p. p\<lparr>pcb_ticks := priority p\<rparr>) s;
                   s = upd_pcb c (\<lambda>p. p\<lparr>status := TASK_READY\<rparr>) s
               in Inr (list_append (ready_thread_list s) (general_tag c) s)))
          else Inr s) = Inr (s\<lparr>pcbs := ?P1, lheap := h1\<rparr>)" (is "_ = Inr ?s1")
      and l1: "lists_at h1 (Q(?r \<mapsto> map general_tag rs'))"
    using requeue_ok[OF Q c(2)] unfolding rs(1) by blast
  let ?Q1 = "Q(?r \<mapsto> map general_tag rs')" and ?P2 = "woken rs' (idle_thread s) ?P1"
  have i1: "can_unlock (status (pcbs ?s1 (idle_thread ?s1))) \<and> unlinked (general_tag (idle_thread ?s1)) ?Q1"
    if "rs' = []"
    using i[OF that] that rs(1) Q(2) by (auto simp: requeued_def candidates_def fun_upd_idem split: if_splits)
  obtain h2 where s2: "(if list_empty (ready_thread_list ?s1) ?s1 then thread_unlock (idle_thread ?s1) ?s1 else Inr ?s1) =
        Inr (?s1\<lparr>pcbs := ?P2, lheap := h2\<rparr>)" (is "_ = Inr ?s2")
      and l2: "lists_at h2 (Q(?r \<mapsto> map general_tag (n # ns)))"
  proof -
    have "\<exists>h. (if list_empty (ready_thread_list ?s1) ?s1 then thread_unlock (idle_thread ?s1) ?s1 else Inr ?s1) =
        Inr (?s1\<lparr>pcbs := woken rs' (idle_thread ?s1) (pcbs ?s1), lheap := h\<rparr>) \<and>
        lists_at h (?Q1(ready_thread_list ?s1 \<mapsto> map general_tag (if rs' = [] then [idle_thread ?s1] else rs')))"
      by (rule wake_ok) (use l1 i1 in simp_all)
    moreover have "idle_thread ?s1 = idle_thread s" "ready_thread_list ?s1 = ?r" "pcbs ?s1 = ?P1" by simp_all
    ultimately show ?thesis using that unfolding rs(2) by (metis fun_upd_upd)
  qed
  have ne: "\<not> list_empty (ready_thread_list ?s2) ?s2"
    using list_empty_ok[of ?s2 ?r "map general_tag (n # ns)"] lists_atD(1)[OF l2, of ?r] by simp
  have pop: "l_next (h2 (head_of ?r)) = general_tag n"
      "lists_at (remove_heap (general_tag n) h2) (Q(?r \<mapsto> map general_tag ns))"
    using lists_at_pop[OF l2, of ?r "general_tag n" "map general_tag ns"] by simp_all
  let ?h3 = "remove_heap (general_tag n) h2"
  let ?s3 = "upd_pcb n (\<lambda>p. p\<lparr>status := TASK_RUNNING\<rparr>)
      (?s2\<lparr>thread_tag := 0, lheap := ?h3, thread_tag := general_tag n\<rparr>)"
  have act: "process_activate n ?s3 = Inr (?s3\<lparr>cr3 := 0x00100000\<rparr>)"
    using n by (intro process_activate_kernel) (auto simp: upd_pcb_def woken_def requeued_def)
  have "schedule s = Inr (switch_to c n (?s3\<lparr>cr3 := 0x00100000\<rparr>))"
    unfolding schedule_def Let_def c(1)[symmetric] s1[unfolded Let_def]
    using off s2 ne act pop(1) by (simp add: status_iff list_pop_eq Let_def)
  also have "switch_to c n (?s3\<lparr>cr3 := 0x00100000\<rparr>) = s\<lparr>lheap := ?h3, cr3 := 0x00100000,
      thread_tag := general_tag n, pcbs := P, esp := self_kernel_stack (P n) + 20\<rparr>"
    by (simp add: switch_to_def upd_pcb_def P switched_def Let_def)
  finally show ?thesis using that pop(2) by blast
qed

end
