(* ===== verification/Sync.thy ===== *)
theory Sync
  imports Thread
begin

text \<open>
  Semaphores and locks (\<^verbatim>\<open>thread/sync.c\<close>). In memory a semaphore is its value byte and,
  4 bytes on, the list of waiting threads; a lock is the holder, 4 bytes on its semaphore, and the
  count of nested acquisitions.

  \<^verbatim>\<open>sem_down\<close> waits in a loop. One pass of the loop is \<open>sem_down_loop\<close>; a thread that has
  to wait leaves the frame \<open>Sem_loop\<close> behind, whose execution is the next pass. What
  \<^verbatim>\<open>lock_acquire\<close> does after \<^verbatim>\<open>sem_down\<close> is the frame \<open>Lock_tail\<close>.
\<close>

section \<open>Operations\<close>

definition sem_waiter :: "u32 \<Rightarrow> u32" where "sem_waiter sem = sem + 4"
definition lock_sem :: "u32 \<Rightarrow> u32" where "lock_sem plock = plock + 4"

definition sem_init :: "u32 \<Rightarrow> u8 \<Rightarrow> 'a thread_state_scheme \<Rightarrow> 'a thread_state_scheme" where
  "sem_init sem value s = list_init (sem_waiter sem) (s\<lparr>sem_value := (sem_value s)(sem := value)\<rparr>)"

definition lock_init :: "u32 \<Rightarrow> 'a thread_state_scheme \<Rightarrow> 'a thread_state_scheme" where
  "lock_init plock s =
     (let s = sem_init (lock_sem plock) 1 s;
          s = s\<lparr>locks := (locks s)(plock := (locks s plock)\<lparr>holder := 0\<rparr>)\<rparr>
      in s\<lparr>locks := (locks s)(plock := (locks s plock)\<lparr>holder_repeat_num := 0\<rparr>)\<rparr>)"

definition sem_down_loop :: "u32 \<Rightarrow> intr_status \<Rightarrow> 'a thread_state_scheme \<Rightarrow> error + 'a thread_state_scheme" where
  "sem_down_loop sem old_status s =
     (if sem_value s sem = 0
      then bnd (elem_find (sem_waiter sem) (general_tag (running_thread s)) s) (\<lambda>found.
           if found then Inl (Exception ''sem is in waiter'')
           else let s = list_append (sem_waiter sem) (general_tag (running_thread s)) s
                in thread_lock TASK_BLOCKED (push_frame (Sem_loop sem old_status) (running_thread s) s))
      else let s = s\<lparr>sem_value := (sem_value s)(sem := sem_value s sem - 1)\<rparr> in
           bnd (ASSERT (sem_value s sem = 0) ''sem->value == 0'') (\<lambda>_.
           Inr (snd (intr_set_status old_status s))))"

definition sem_down :: "u32 \<Rightarrow> 'a thread_state_scheme \<Rightarrow> error + 'a thread_state_scheme" where
  "sem_down sem s = (let (old_status, s) = intr_disable s in sem_down_loop sem old_status s)"

definition sem_up :: "u32 \<Rightarrow> 'a thread_state_scheme \<Rightarrow> error + 'a thread_state_scheme" where
  "sem_up sem s =
     (let (old_status, s) = intr_disable s in
      bnd (ASSERT (sem_value s sem = 0) ''sem->value == 0'') (\<lambda>_.
      bnd (if \<not> list_empty (sem_waiter sem) s
           then let (tag, s) = list_pop (sem_waiter sem) s in thread_unlock (get_pcb tag) s
           else Inr s) (\<lambda>s.
      let s = s\<lparr>sem_value := (sem_value s)(sem := sem_value s sem + 1)\<rparr> in
      bnd (ASSERT (sem_value s sem = 1) ''sem->value == 1'') (\<lambda>_.
      Inr (snd (intr_set_status old_status s))))))"

definition lock_acquire :: "u32 \<Rightarrow> 'a thread_state_scheme \<Rightarrow> error + 'a thread_state_scheme" where
  "lock_acquire plock s =
     (if holder (locks s plock) \<noteq> running_thread s
      then sem_down (lock_sem plock) (push_frame (Lock_tail plock) (running_thread s) s)
      else Inr (s\<lparr>locks := (locks s)(plock := (locks s plock)\<lparr>holder_repeat_num :=
             holder_repeat_num (locks s plock) + 1\<rparr>)\<rparr>))"

definition lock_acquire_tail :: "u32 \<Rightarrow> 'a thread_state_scheme \<Rightarrow> error + 'a thread_state_scheme" where
  "lock_acquire_tail plock s =
     (let s = s\<lparr>locks := (locks s)(plock := (locks s plock)\<lparr>holder := running_thread s\<rparr>)\<rparr> in
      bnd (ASSERT (holder_repeat_num (locks s plock) = 0) ''plock->holder_repeat_num == 0'') (\<lambda>_.
      Inr (s\<lparr>locks := (locks s)(plock := (locks s plock)\<lparr>holder_repeat_num := 1\<rparr>)\<rparr>)))"

definition lock_release :: "u32 \<Rightarrow> 'a thread_state_scheme \<Rightarrow> error + 'a thread_state_scheme" where
  "lock_release plock s =
     bnd (ASSERT (holder (locks s plock) = running_thread s) ''plock->holder == running_thread()'') (\<lambda>_.
     if holder_repeat_num (locks s plock) > 1
     then Inr (s\<lparr>locks := (locks s)(plock := (locks s plock)\<lparr>holder_repeat_num :=
             holder_repeat_num (locks s plock) - 1\<rparr>)\<rparr>)
     else let s = s\<lparr>locks := (locks s)(plock := (locks s plock)\<lparr>holder_repeat_num :=
                 holder_repeat_num (locks s plock) - 1\<rparr>)\<rparr>;
              s = s\<lparr>locks := (locks s)(plock := (locks s plock)\<lparr>holder := 0\<rparr>)\<rparr>;
              s = s\<lparr>locks := (locks s)(plock := (locks s plock)\<lparr>holder_repeat_num := 0\<rparr>)\<rparr>
          in sem_up (lock_sem plock) s)"

text \<open>The thread that runs executes its top frame.\<close>

fun run_frame :: "frame \<Rightarrow> 'a thread_state_scheme \<Rightarrow> error + 'a thread_state_scheme" where
  "run_frame (Restore st) s = Inr (snd (intr_set_status st s))"
| "run_frame (Sem_loop sem old) s = sem_down_loop sem old s"
| "run_frame (Lock_tail plock) s = lock_acquire_tail plock s"
| "run_frame Idle_hlt s = Inr (sti s)"
| "run_frame (Kernel_thread func args) s = Inr (kernel_thread s)"
| "run_frame (Iret fl) s = Inr (s\<lparr>eflags := fl\<rparr>)"

definition resume :: "'a thread_state_scheme \<Rightarrow> error + 'a thread_state_scheme" where
  "resume s =
     (case kstack s (running_thread s) of
        [] \<Rightarrow> Inr s
      | f # k \<Rightarrow> run_frame f (s\<lparr>kstack := (kstack s)(running_thread s := k)\<rparr>))"

text \<open>
  \<^verbatim>\<open>lock_acquire\<close> in a routine that is followed without interruption: it either takes the
  lock at once or the outcome is \<open>Blocked\<close>.
\<close>

definition lock_acquire_now :: "u32 \<Rightarrow> 'a thread_state_scheme \<Rightarrow> error + 'a thread_state_scheme" where
  "lock_acquire_now plock s =
     (let cur = running_thread s in
      bnd (lock_acquire plock s) (\<lambda>s'.
      if running_thread s' \<noteq> cur then Inl Blocked
      else if kstack s' cur = Lock_tail plock # kstack s cur then resume s'
      else if kstack s' cur = kstack s cur then Inr s'
      else Inl Blocked))"

section \<open>A lock without contention\<close>

definition lock_free :: "u32 \<Rightarrow> 'a thread_state_scheme \<Rightarrow> bool" where
  "lock_free l s \<longleftrightarrow> locks s l = \<lparr>holder = 0, holder_repeat_num = 0\<rparr> \<and> sem_value s (lock_sem l) = 1 \<and>
     list_empty (sem_waiter (lock_sem l)) s"

definition lock_held :: "u32 \<Rightarrow> u32 \<Rightarrow> 'a thread_state_scheme \<Rightarrow> bool" where
  "lock_held l c s \<longleftrightarrow> locks s l = \<lparr>holder = c, holder_repeat_num = 1\<rparr> \<and> sem_value s (lock_sem l) = 0 \<and>
     list_empty (sem_waiter (lock_sem l)) s"

definition set_lock :: "u32 \<Rightarrow> u32 \<Rightarrow> u32 \<Rightarrow> u8 \<Rightarrow> 'a thread_state_scheme \<Rightarrow> 'a thread_state_scheme" where
  "set_lock l c n v s = s\<lparr>sem_value := (sem_value s)(lock_sem l := v),
     locks := (locks s)(l := \<lparr>holder = c, holder_repeat_num = n\<rparr>)\<rparr>"

lemma lock_fields [simp]: "(r :: lock_struct)\<lparr>holder := a, holder_repeat_num := b\<rparr> = \<lparr>holder = a, holder_repeat_num = b\<rparr>"
  by (cases r) simp

lemma lock_acquire_free:
  assumes "lock_free l s" "running_thread s \<noteq> 0"
  shows "lock_acquire_now l s = Inr (set_lock l (running_thread s) 1 0 s)"
proof -
  let ?c = "running_thread s"
  let ?s1 = "push_frame (Lock_tail l) ?c s"
  obtain old x where d: "intr_disable ?s1 = (old, ?s1\<lparr>eflags := x\<rparr>)" by (rule intr_disabled)
  let ?s2 = "?s1\<lparr>eflags := x, sem_value := (sem_value s)(lock_sem l := 0)\<rparr>"
  have "lock_acquire l s = Inr (snd (intr_set_status old ?s2))"
    using assms d by (simp add: lock_acquire_def sem_down_def sem_down_loop_def lock_free_def push_frame_def)
  also have "snd (intr_set_status old ?s2) = ?s2\<lparr>eflags := eflags ?s1\<rparr>" by (rule intr_restore[OF d]) simp
  also have "\<dots> = ?s1\<lparr>sem_value := (sem_value s)(lock_sem l := 0)\<rparr>" by (cases s) (simp add: push_frame_def)
  finally have a: "lock_acquire l s = Inr (?s1\<lparr>sem_value := (sem_value s)(lock_sem l := 0)\<rparr>)" (is "_ = Inr ?t") .
  have c: "running_thread ?t = ?c" "kstack ?t ?c = Lock_tail l # kstack s ?c"
    by (simp_all add: running_thread_def push_frame_def)
  have "resume ?t = lock_acquire_tail l (s\<lparr>sem_value := (sem_value s)(lock_sem l := 0)\<rparr>)"
    using c by (cases s) (simp add: resume_def push_frame_def running_thread_def)
  also have "\<dots> = Inr (set_lock l ?c 1 0 s)"
    using assms by (simp add: lock_acquire_tail_def lock_free_def set_lock_def running_thread_def)
  finally show ?thesis using a c by (simp add: lock_acquire_now_def)
qed

lemma lock_release_held:
  assumes "lock_held l (running_thread s) s"
  shows "lock_release l s = Inr (set_lock l 0 0 1 s)"
proof -
  let ?s0 = "s\<lparr>locks := (locks s)(l := \<lparr>holder = 0, holder_repeat_num = 0\<rparr>)\<rparr>"
  obtain old x where d: "intr_disable ?s0 = (old, ?s0\<lparr>eflags := x\<rparr>)" by (rule intr_disabled)
  let ?s1 = "?s0\<lparr>eflags := x, sem_value := (sem_value s)(lock_sem l := 1)\<rparr>"
  have "list_empty (sem_waiter (lock_sem l)) (?s0\<lparr>eflags := x\<rparr>)"
    using assms by (simp add: lock_held_def list_empty_def next_of_def)
  then have "lock_release l s = Inr (snd (intr_set_status old ?s1))"
    using assms d by (simp add: lock_release_def lock_held_def sem_up_def)
  also have "snd (intr_set_status old ?s1) = ?s1\<lparr>eflags := eflags ?s0\<rparr>" by (rule intr_restore[OF d]) simp
  also have "\<dots> = set_lock l 0 0 1 s" by (cases s) (simp add: set_lock_def)
  finally show ?thesis .
qed

lemma set_lock_running [simp]: "running_thread (set_lock l c n v s) = running_thread s"
  by (simp add: set_lock_def running_thread_def)

lemma set_lock_held: "lock_free l s \<Longrightarrow> lock_held l c (set_lock l c 1 0 s)"
  by (simp add: lock_free_def lock_held_def set_lock_def list_empty_def next_of_def)

lemma set_lock_restore: "lock_free l s \<Longrightarrow> set_lock l 0 0 1 (set_lock l c n v s) = s"
  by (cases s) (auto simp: set_lock_def lock_free_def fun_upd_idem)

section \<open>A lock another thread holds\<close>

lemma thread_unlock_kstack: "thread_unlock t s = Inr s' \<Longrightarrow> kstack s' = kstack s"
  by (drule thread_unlock_frame) auto

lemma activate_kstack: "process_activate p s = Inr t \<Longrightarrow> kstack t = kstack s"
  by (auto simp: process_activate_def page_dir_activate_def update_tss_esp0_def putStr_def
      outcome Let_def split: if_splits)

lemma switch_kstack [simp]: "kstack (switch_to c p t) = kstack t"
  by (simp add: switch_to_def upd_pcb_def Let_def)

lemma schedule_kstack: "schedule s = Inr s' \<Longrightarrow> kstack s' = kstack s"
  by (auto simp: schedule_def Let_def outcome upd_pcb_def list_op_eqs split: if_splits prod.splits
      dest!: thread_unlock_kstack activate_kstack)

lemma thread_lock_kstack:
  assumes "thread_lock st s = Inr s'"
  shows "\<exists>old. kstack s' = (kstack s)(running_thread s := Restore old # kstack s (running_thread s))"
proof -
  obtain old x where d: "intr_disable s = (old, s\<lparr>eflags := x\<rparr>)" using intr_disabled[of s] by metis
  show ?thesis using assms d schedule_kstack
    by (fastforce simp: thread_lock_def upd_pcb_def push_frame_def Let_def running_thread_def split: if_splits)
qed

lemma lock_acquire_taken:
  assumes "holder (locks s l) \<noteq> running_thread s" "sem_value s (lock_sem l) = 0"
  shows "\<exists>e. lock_acquire_now l s = Inl e"
proof -
  let ?c = "running_thread s"
  let ?s1 = "push_frame (Lock_tail l) ?c s"
  obtain old x where d: "intr_disable ?s1 = (old, ?s1\<lparr>eflags := x\<rparr>)" using intr_disabled[of ?s1] by metis
  have n: "lock_acquire_now l s = Inl Blocked" if e: "lock_acquire l s = Inr s'" for s'
  proof -
    have "sem_down_loop (lock_sem l) old (?s1\<lparr>eflags := x\<rparr>) = Inr s'"
      using e assms d by (simp add: lock_acquire_def sem_down_def)
    then obtain t where t: "thread_lock TASK_BLOCKED t = Inr s'" "running_thread t = ?c"
      "kstack t ?c = Sem_loop (lock_sem l) old # Lock_tail l # kstack s ?c"
      using assms by (force simp: sem_down_loop_def push_frame_def outcome list_append_eq running_thread_def split: if_splits)
    then obtain old' where "kstack s' ?c = Restore old' # Sem_loop (lock_sem l) old # Lock_tail l # kstack s ?c"
      using thread_lock_kstack[OF t(1)] by auto
    then show ?thesis using e by (auto simp: lock_acquire_now_def Let_def)
  qed
  then show ?thesis by (cases "lock_acquire l s") (auto simp: lock_acquire_now_def)
qed

section \<open>A lock taken again\<close>

text \<open>The holder may take the lock again: the repetition counter goes up and down with it.\<close>

lemma lock_acquire_again:
  assumes "holder (locks s l) = running_thread s"
  shows "lock_acquire_now l s = Inr (s\<lparr>locks := (locks s)(l := \<lparr>holder = running_thread s,
    holder_repeat_num = holder_repeat_num (locks s l) + 1\<rparr>)\<rparr>)"
proof -
  have "(locks s l)\<lparr>holder_repeat_num := n\<rparr> = \<lparr>holder = running_thread s, holder_repeat_num = n\<rparr>" for n
    using assms by (cases "locks s l") simp
  moreover have "running_thread (s\<lparr>locks := k\<rparr>) = running_thread s" for k by (simp add: running_thread_def)
  ultimately show ?thesis using assms by (simp only: lock_acquire_now_def lock_acquire_def Let_def) simp
qed

lemma lock_release_again:
  assumes "locks s l = \<lparr>holder = running_thread s, holder_repeat_num = n + 1\<rparr>" "0 < n" "n + 1 \<noteq> 0"
  shows "lock_release l s = Inr (s\<lparr>locks := (locks s)(l := \<lparr>holder = running_thread s, holder_repeat_num = n\<rparr>)\<rparr>)"
proof -
  have "unat (n + 1) = unat n + 1" using assms(3) unatSuc[of n] by (simp add: add.commute)
  then have "1 < n + 1" using assms(2) by (simp add: word_less_nat_alt)
  then show ?thesis using assms(1) by (simp add: lock_release_def)
qed

end
