(* ===== verification/Timer.thy ===== *)
theory Timer
  imports Sync
begin

text \<open>
  The timer (\<^verbatim>\<open>device/timer.c\<close>): the handler of its interrupt, which drives the
  scheduler, the programming of the 8253 counter, and sleeping.
\<close>

section \<open>Operations\<close>

record timer_state = thread_state +
  ticks :: u32

definition IRQ0_FREQUENCY :: u32 where "IRQ0_FREQUENCY = 100"
definition INPUT_FREQUENCY :: u32 where "INPUT_FREQUENCY = 1193180"
definition COUNTER_RO_VALUE :: u32 where "COUNTER_RO_VALUE = INPUT_FREQUENCY div IRQ0_FREQUENCY"
definition COUNTER_R0_PORT :: u8 where "COUNTER_R0_PORT = 0x40"
definition COUNTER_RO_NO :: u8 where "COUNTER_RO_NO = 0"
definition COUNTER_MODE :: u8 where "COUNTER_MODE = 2"
definition READ_WRITE_LATCH :: u8 where "READ_WRITE_LATCH = 3"
definition PIT_CONTROL_PORT :: u16 where "PIT_CONTROL_PORT = 0x43"

text \<open>
  The operands of a shift are promoted to \<^verbatim>\<open>int\<close>, so that the high byte of an 8-bit
  counter value is 0.
\<close>

definition frequency_set :: "u8 \<Rightarrow> u8 \<Rightarrow> u8 \<Rightarrow> u8 \<Rightarrow> u8 \<Rightarrow> 'a cpu_scheme \<Rightarrow> 'a cpu_scheme" where
  "frequency_set counter_port counter_no rwl counter_mode counter_value s =
     (let s = out_byte PIT_CONTROL_PORT (ucast (push_bit 6 (ucast counter_no :: u32) OR
                push_bit 4 (ucast rwl) OR push_bit 1 (ucast counter_mode))) s;
          s = out_byte (ucast counter_port) counter_value s
      in out_byte (ucast counter_port) (ucast (drop_bit 8 (ucast counter_value :: u32))) s)"

definition intr_timer_handler :: "'a timer_state_scheme \<Rightarrow> error + 'a timer_state_scheme" where
  "intr_timer_handler s =
     (let curr_thread = running_thread s in
      bnd (ASSERT (stack_magic (pcbs s curr_thread) = 0x00007c00)
        ''curr_thread->stack_magic == 0x00007c00'') (\<lambda>_.
      let s = upd_pcb curr_thread (\<lambda>p. p\<lparr>elapsed_ticks := elapsed_ticks p + 1\<rparr>) s;
          s = s\<lparr>ticks := ticks s + 1\<rparr>
      in if pcb_ticks (pcbs s curr_thread) = 0 then schedule s
         else Inr (upd_pcb curr_thread (\<lambda>p. p\<lparr>pcb_ticks := pcb_ticks p - 1\<rparr>) s)))"

definition timer_init :: "'a timer_state_scheme \<Rightarrow> error + 'a timer_state_scheme" where
  "timer_init s =
     (let s = frequency_set COUNTER_R0_PORT COUNTER_RO_NO READ_WRITE_LATCH COUNTER_MODE (ucast COUNTER_RO_VALUE) s;
          s = s\<lparr>ticks := 0\<rparr>
      in bnd (register_handler 0x20 intr_timer_handler_p s) (\<lambda>s.
         Inr (putStr ''timer init done\<newline>'' s)))"

text \<open>
  A thread that yields in \<^verbatim>\<open>ticks_to_sleep\<close> gives up the processor: what follows is
  \<open>Blocked\<close>.
\<close>

definition ticks_to_sleep :: "u32 \<Rightarrow> 'a timer_state_scheme \<Rightarrow> error + 'a timer_state_scheme" where
  "ticks_to_sleep sleep_ticks s =
     (let start_ticks = ticks s in
      if ticks s - start_ticks > sleep_ticks then bnd (thread_yield s) (\<lambda>_. Inl Blocked) else Inr s)"

definition mtime_sleep :: "u32 \<Rightarrow> 'a timer_state_scheme \<Rightarrow> error + 'a timer_state_scheme" where
  "mtime_sleep m_seconds s =
     (let frequency = 1000 div IRQ0_FREQUENCY in
      bnd (ASSERT (frequency \<ge> 0) ''frequency >= 0'') (\<lambda>_.
      let n = (m_seconds + frequency - 1) div frequency
      in ticks_to_sleep n s))"

section \<open>Properties\<close>

text \<open>
  The counter of the timer is asked to run at \<^verbatim>\<open>IRQ0_FREQUENCY\<close>, which takes a reload
  value of 11931. \<^verbatim>\<open>frequency_set\<close> receives it in one byte: the two bytes written to
  the counter are 0x9b and 0, a reload value of 155, whatever the state.
\<close>

theorem timer_init_reload:
  assumes "length (exception_funcptr_table s) = INT_DESC_NUM"
  shows "\<exists>s'. timer_init s = Inr s' \<and>
    ports s' = ports s @ [(0x43, 0x34), (0x40, 0x9b), (0x40, 0)] \<and>
    exception_funcptr_table s' = (exception_funcptr_table s)[0x20 := intr_timer_handler_p] \<and>
    ticks s' = 0 \<and> COUNTER_RO_VALUE = 11931"
  using assms
  by (simp add: timer_init_def frequency_set_def register_handler_def out_byte_def putStr_def Let_def
      INT_DESC_NUM_def COUNTER_RO_VALUE_def INPUT_FREQUENCY_def IRQ0_FREQUENCY_def COUNTER_R0_PORT_def
      COUNTER_RO_NO_def READ_WRITE_LATCH_def COUNTER_MODE_def PIT_CONTROL_PORT_def)

text \<open>
  A concrete state: the main thread at 0xc009e000 runs with interrupts closed, the idle thread
  at 0xc0101000 is blocked, the lists and locks at the addresses given are empty and free.
\<close>

definition no_bits :: bitmap where "no_bits = \<lparr>bitmap_len = 0, bits = []\<rparr>"

definition sample_pcb :: "u32 \<Rightarrow> task_status \<Rightarrow> pcb_struct" where
  "sample_pcb p st = \<lparr>self_kernel_stack = p + 3664, status = st, priority = 31, pid = 1, pcb_name = [],
     pcb_ticks = 31, elapsed_ticks = 0, fd_table = [], pgdir = 0,
     userprog_vaddr = \<lparr>vaddr_bitmap = no_bits, vaddr_start = 0\<rparr>, stack_magic = 0x7c00\<rparr>"

definition empty_list_nodes :: "u32 \<Rightarrow> (u32 \<Rightarrow> list_elem) \<Rightarrow> (u32 \<Rightarrow> list_elem)" where
  "empty_list_nodes p h = h(p := \<lparr>l_prev = 0, l_next = p + 8\<rparr>, p + 8 := \<lparr>l_prev = p, l_next = 0\<rparr>)"

definition sample_state :: "unit timer_state_scheme" where
  "sample_state = \<lparr>eflags = 2, ports = [], screen = [], idt = [],
     exception_funcptr_table = replicate INT_DESC_NUM general_exception_handler_p,
     exception_names = [], idtr = 0,
     lheap = empty_list_nodes 0xc0007000 (empty_list_nodes 0xc0008008 (\<lambda>_. \<lparr>l_prev = 0, l_next = 0\<rparr>)),
     phys = (\<lambda>_. 0), cr3 = 0x100000,
     kernel_pool = \<lparr>pool_bitmap = no_bits, phy_start_addr = 0x200000, mem_size = 0, pool_lock = 0xc0008100\<rparr>,
     user_pool = \<lparr>pool_bitmap = no_bits, phy_start_addr = 0x200000, mem_size = 0, pool_lock = 0xc0008200\<rparr>,
     kernel_vaddr = \<lparr>vaddr_bitmap = no_bits, vaddr_start = 0xc0100000\<rparr>,
     pcbs = (\<lambda>p. sample_pcb p (if p = 0xc009e000 then TASK_RUNNING else TASK_BLOCKED)),
     block_descs = (\<lambda>_. \<lparr>block_size = 0, blocks_per_arena = 0\<rparr>), sem_value = (\<lambda>_. 1),
     locks = (\<lambda>_. \<lparr>holder = 0, holder_repeat_num = 0\<rparr>),
     kstack = (\<lambda>p. if p = 0xc009e000 then [] else [Restore INTR_OFF, Idle_hlt]),
     esp = 0xc009eff0, tss_esp0 = 0, ready_thread_list = 0xc0007000, all_thread_list = 0xc0007010,
     pid_lock = 0xc0008000, main_thread_pcb_ptr = 0xc009e000, idle_thread = 0xc0101000,
     thread_tag = 0, next_pid = 2, ticks = 0\<rparr>"

theorem timer_init_reload_witness:
  "\<exists>s'. timer_init sample_state = Inr s' \<and> ports s' = [(0x43, 0x34), (0x40, 0x9b), (0x40, 0)]"
  using timer_init_reload[of sample_state] by (force simp: sample_state_def)

text \<open>
  \<^verbatim>\<open>mtime_sleep\<close> does not sleep: the loop runs while more ticks than asked for have
  passed, and at its start none has. For every length of time and every state the call returns at
  once and changes nothing.
\<close>

theorem mtime_sleep_returns_at_once: "mtime_sleep m s = Inr s"
  by (simp add: mtime_sleep_def ticks_to_sleep_def Let_def)

end
