(* ===== verification/System.thy ===== *)
theory System
  imports Timer
begin

text \<open>
  The threads as a transition system: the running thread executes the top frame of its kernel
  stack; with an empty stack it may acquire or release a lock, yield, or, if it is the idle thread,
  go idle; and while interrupts are open the timer may interrupt it between two such steps.

  \<open>inv\<close> is the invariant of the scheduler and the locks together. Shown by induction over the steps:
  it holds in every reachable state, so that exactly one thread has the running state, the ready
  list holds exactly the ready threads, and a lock is never held by two threads; no step that the
  threads may take ends in a failed assertion; and a free lock with waiting threads has one that
  was woken to take it.
\<close>

section \<open>Steps\<close>

datatype kcall = Acquire u32 | Release u32 | Yield | Idle

fun exec :: "kcall \<Rightarrow> 'a timer_state_scheme \<Rightarrow> error + 'a timer_state_scheme" where
  "exec (Acquire l) s = lock_acquire l s"
| "exec (Release l) s = lock_release l s"
| "exec Yield s = thread_yield s"
| "exec Idle s = idle s"

text \<open>
  What the threads keep to: a lock is released by its holder, nested acquisitions stay below the
  range of the counter, and the idle thread takes no locks.
\<close>

fun allowed :: "u32 set \<Rightarrow> kcall \<Rightarrow> 'a timer_state_scheme \<Rightarrow> bool" where
  "allowed L (Acquire l) s \<longleftrightarrow> l \<in> L \<and> running_thread s \<noteq> idle_thread s \<and>
     (holder (locks s l) = running_thread s \<longrightarrow> holder_repeat_num (locks s l) \<noteq> -1)"
| "allowed L (Release l) s \<longleftrightarrow> l \<in> L \<and> holder (locks s l) = running_thread s"
| "allowed L Yield s \<longleftrightarrow> running_thread s \<noteq> idle_thread s"
| "allowed L Idle s \<longleftrightarrow> running_thread s = idle_thread s"

text \<open>
  The interrupt: the processor saves the flags and clears the interrupt flag, the entry in
  \<^verbatim>\<open>kernel/kernel.asm\<close> acknowledges it and calls the handler; the frame \<open>Iret\<close> is the return.
\<close>

definition timer_interrupt :: "'a timer_state_scheme \<Rightarrow> error + 'a timer_state_scheme" where
  "timer_interrupt s =
     intr_timer_handler (out_byte 0xa0 0x20 (out_byte 0x20 0x20
       (cli (push_frame (Iret (eflags s)) (running_thread s) s))))"

inductive step :: "u32 set \<Rightarrow> 'a timer_state_scheme \<Rightarrow> 'a timer_state_scheme \<Rightarrow> bool" for L where
  call: "\<lbrakk> kstack s (running_thread s) = []; allowed L c s; exec c s = Inr s' \<rbrakk> \<Longrightarrow> step L s s'"
| frame: "\<lbrakk> kstack s (running_thread s) \<noteq> []; resume s = Inr s' \<rbrakk> \<Longrightarrow> step L s s'"
| tick: "\<lbrakk> bit (eflags s) 9; timer_interrupt s = Inr s' \<rbrakk> \<Longrightarrow> step L s s'"

inductive reach :: "u32 set \<Rightarrow> 'a timer_state_scheme \<Rightarrow> 'a timer_state_scheme \<Rightarrow> bool" for L s where
  start: "reach L s s"
| more: "\<lbrakk> reach L s t; step L t u \<rbrakk> \<Longrightarrow> reach L s u"

section \<open>The invariant\<close>

definition wl :: "u32 \<Rightarrow> u32" where "wl l = sem_waiter (lock_sem l)"

definition queues :: "u32 set \<Rightarrow> u32 list \<Rightarrow> (u32 \<Rightarrow> u32 list) \<Rightarrow> u32 \<Rightarrow> u32 \<rightharpoonup> u32 list" where
  "queues L rs ws r = (\<lambda>p. if p = r then Some (map general_tag rs)
     else if p \<in> wl ` L then Some (map general_tag (ws p)) else None)"

definition inv_lists :: "u32 set \<Rightarrow> u32 set \<Rightarrow> u32 list \<Rightarrow> (u32 \<Rightarrow> u32 list) \<Rightarrow> 'a timer_state_scheme \<Rightarrow> bool" where
  "inv_lists T L rs ws s \<longleftrightarrow> lists_at (lheap s) (queues L rs ws (ready_thread_list s)) \<and>
     ready_thread_list s \<notin> wl ` L \<and> set rs \<subseteq> T \<and> (\<forall>l \<in> L. set (ws (wl l)) \<subseteq> T - {idle_thread s}) \<and>
     (\<forall>t \<in> T. \<forall>p \<in> insert (ready_thread_list s) (wl ` L). general_tag t \<noteq> p \<and> general_tag t \<noteq> p + 8)"

definition inv_threads :: "u32 set \<Rightarrow> 'a timer_state_scheme \<Rightarrow> bool" where
  "inv_threads T s \<longleftrightarrow> running_thread s \<in> T \<and> idle_thread s \<in> T \<and> 0 \<notin> T \<and>
     (\<forall>t \<in> T. pgdir (pcbs s t) = 0 \<and> stack_magic (pcbs s t) = 0x7c00 \<and>
        (t \<noteq> running_thread s \<longrightarrow> frame_of (self_kernel_stack (pcbs s t) + 20) = t))"

text \<open>\<open>run\<close>: the thread on the processor has not been marked otherwise yet.\<close>

definition inv_status :: "u32 set \<Rightarrow> u32 set \<Rightarrow> u32 list \<Rightarrow> (u32 \<Rightarrow> u32 list) \<Rightarrow> bool \<Rightarrow> 'a timer_state_scheme \<Rightarrow> bool" where
  "inv_status T L rs ws run s \<longleftrightarrow>
     (\<forall>t \<in> T. status (pcbs s t) = (if run \<and> t = running_thread s then TASK_RUNNING
        else if t \<in> set rs then TASK_READY else TASK_BLOCKED)) \<and>
     (run \<longrightarrow> running_thread s \<notin> set rs \<and> (\<forall>l \<in> L. running_thread s \<notin> set (ws (wl l)))) \<and>
     (\<forall>t \<in> T. t \<notin> set rs \<and> \<not> (run \<and> t = running_thread s) \<and> t \<noteq> idle_thread s \<longrightarrow> (\<exists>l \<in> L. t \<in> set (ws (wl l))))"

text \<open>The shapes a kernel stack can have between two steps.\<close>

definition at_rest :: "u32 set \<Rightarrow> frame list \<Rightarrow> bool" where
  "at_rest L k \<longleftrightarrow> k = [] \<or> k = [Idle_hlt] \<or> (\<exists>l \<in> L. k = [Lock_tail l])"

definition retrying :: "u32 \<Rightarrow> frame list \<Rightarrow> bool" where
  "retrying l k \<longleftrightarrow> (\<exists>st. k = [Sem_loop (lock_sem l) st, Lock_tail l])"

definition awaiting :: "u32 \<Rightarrow> frame list \<Rightarrow> bool" where
  "awaiting l k \<longleftrightarrow> (\<exists>st. k = [Restore INTR_OFF, Sem_loop (lock_sem l) st, Lock_tail l])"

definition shape :: "u32 set \<Rightarrow> frame list \<Rightarrow> bool" where
  "shape L k \<longleftrightarrow> at_rest L k \<or> (\<exists>fl k'. k = Iret fl # k' \<and> at_rest L k') \<or>
     (\<exists>st. k = [Restore st] \<or> k = [Restore st, Idle_hlt]) \<or> (\<exists>f a. k = [Kernel_thread f a]) \<or>
     (\<exists>l \<in> L. retrying l k \<or> awaiting l k)"

definition inv_frames :: "u32 set \<Rightarrow> u32 set \<Rightarrow> (u32 \<Rightarrow> u32 list) \<Rightarrow> 'a timer_state_scheme \<Rightarrow> bool" where
  "inv_frames T L ws s \<longleftrightarrow> (\<forall>t \<in> T. shape L (kstack s t)) \<and>
     (\<forall>l \<in> L. \<forall>t \<in> set (ws (wl l)). awaiting l (kstack s t)) \<and>
     (\<forall>t \<in> T. \<forall>l \<in> L. retrying l (kstack s t) \<longrightarrow> t = running_thread s) \<and>
     (\<forall>l \<in> L. \<not> retrying l (kstack s (idle_thread s)) \<and> \<not> awaiting l (kstack s (idle_thread s))) \<and>
     (bit (eflags s) 9 \<longrightarrow> at_rest L (kstack s (running_thread s)))"

text \<open>
  \<open>pending\<close>: the thread has taken the semaphore of the lock and has not entered itself as the holder
  yet. \<open>owns\<close>: it has the lock.
\<close>

definition pending :: "u32 \<Rightarrow> frame list \<Rightarrow> bool" where
  "pending l k \<longleftrightarrow> Lock_tail l \<in> set k \<and> (\<forall>m st. Sem_loop m st \<notin> set k)"

definition owns :: "'a timer_state_scheme \<Rightarrow> u32 \<Rightarrow> u32 \<Rightarrow> bool" where
  "owns s l t \<longleftrightarrow> holder (locks s l) = t \<or> pending l (kstack s t)"

definition inv_locks :: "u32 set \<Rightarrow> u32 set \<Rightarrow> 'a timer_state_scheme \<Rightarrow> bool" where
  "inv_locks T L s \<longleftrightarrow> (\<forall>l \<in> L.
     (sem_value s (lock_sem l) = 1 \<and> (\<forall>t \<in> T. \<not> owns s l t) \<or>
      sem_value s (lock_sem l) = 0 \<and> (\<exists>!t. t \<in> T \<and> owns s l t)) \<and>
     (holder (locks s l) \<noteq> 0 \<longrightarrow> holder (locks s l) \<in> T) \<and>
     (holder (locks s l) = 0 \<longleftrightarrow> holder_repeat_num (locks s l) = 0) \<and>
     (\<forall>t \<in> T. Lock_tail l \<in> set (kstack s t) \<longrightarrow> holder (locks s l) \<noteq> t))"

definition inv_wake :: "u32 set \<Rightarrow> u32 set \<Rightarrow> u32 list \<Rightarrow> (u32 \<Rightarrow> u32 list) \<Rightarrow> bool \<Rightarrow> 'a timer_state_scheme \<Rightarrow> bool" where
  "inv_wake T L rs ws run s \<longleftrightarrow> (\<forall>l \<in> L. sem_value s (lock_sem l) = 1 \<and> ws (wl l) \<noteq> [] \<longrightarrow>
     (\<exists>t \<in> T. (t \<in> set rs \<or> run \<and> t = running_thread s) \<and> (\<exists>st. Sem_loop (lock_sem l) st \<in> set (kstack s t))))"

definition inv_at :: "u32 set \<Rightarrow> u32 set \<Rightarrow> u32 list \<Rightarrow> (u32 \<Rightarrow> u32 list) \<Rightarrow> bool \<Rightarrow> 'a timer_state_scheme \<Rightarrow> bool" where
  "inv_at T L rs ws run s \<longleftrightarrow> inv_lists T L rs ws s \<and> inv_threads T s \<and> inv_status T L rs ws run s \<and>
     inv_frames T L ws s \<and> inv_locks T L s \<and> inv_wake T L rs ws run s"

definition inv :: "u32 set \<Rightarrow> u32 set \<Rightarrow> 'a timer_state_scheme \<Rightarrow> bool" where
  "inv T L s \<longleftrightarrow> (\<exists>rs ws. inv_at T L rs ws True s)"

section \<open>The lists of the invariant\<close>

lemmas inv_parts = inv_lists_def inv_threads_def inv_status_def inv_frames_def inv_locks_def inv_wake_def

lemma running_frame_of: "running_thread s = frame_of (esp s)"
  by (simp add: running_thread_def frame_of_def)

lemma queues_simps [simp]:
  "queues L rs ws r r = Some (map general_tag rs)"
  "l \<in> L \<Longrightarrow> r \<notin> wl ` L \<Longrightarrow> queues L rs ws r (wl l) = Some (map general_tag (ws (wl l)))"
  "(queues L rs ws r)(r \<mapsto> map general_tag rs') = queues L rs' ws r"
  by (auto simp: queues_def)

lemma queues_wait:
  "l \<in> L \<Longrightarrow> r \<notin> wl ` L \<Longrightarrow>
   (queues L rs ws r)(wl l \<mapsto> map general_tag xs) = queues L rs (ws(wl l := xs)) r"
  by (auto simp: queues_def fun_eq_iff)

lemma unlinked_queues:
  assumes "inv_lists T L rs ws s" "t \<in> T"
  shows "unlinked (general_tag t) (queues L rs ws (ready_thread_list s)) \<longleftrightarrow>
     t \<notin> set rs \<and> (\<forall>l \<in> L. t \<notin> set (ws (wl l)))"
proof -
  have "general_tag t \<notin> {head_of p, tail_of p}" if "p \<in> insert (ready_thread_list s) (wl ` L)" for p
    using assms that by (auto simp: inv_lists_def head_of_def tail_of_def)
  then have nodes: "general_tag t \<in> set (nodes p (map general_tag xs)) \<longleftrightarrow> t \<in> set xs"
    if "p \<in> insert (ready_thread_list s) (wl ` L)" for p xs
    using that by (auto simp: nodes_def)
  have r: "ready_thread_list s \<notin> wl ` L" using assms(1) by (simp add: inv_lists_def)
  show ?thesis
  proof
    assume u: "unlinked (general_tag t) (queues L rs ws (ready_thread_list s))"
    show "t \<notin> set rs \<and> (\<forall>l \<in> L. t \<notin> set (ws (wl l)))"
      using unlinked_not_member[OF u] r queues_simps(1) queues_simps(2)[OF _ r] by fastforce
  next
    assume "t \<notin> set rs \<and> (\<forall>l \<in> L. t \<notin> set (ws (wl l)))"
    then show "unlinked (general_tag t) (queues L rs ws (ready_thread_list s))"
      using nodes unfolding unlinked_def queues_def by (auto split: if_splits)
  qed
qed

lemma inv_lists_disjoint:
  assumes "inv_lists T L rs ws s" "l \<in> L" "t \<in> set (ws (wl l))"
  shows "t \<notin> set rs"
proof
  assume t: "t \<in> set rs"
  let ?Q = "queues L rs ws (ready_thread_list s)"
  have r: "ready_thread_list s \<notin> wl ` L" and q: "lists_at (lheap s) ?Q"
    using assms(1) by (simp_all add: inv_lists_def)
  have w: "?Q (wl l) = Some (map general_tag (ws (wl l)))" using assms(2) r by simp
  have "general_tag t \<notin> set (map general_tag rs)"
  proof (rule linked_elsewhere[OF q w queues_simps(1)])
    show "wl l \<noteq> ready_thread_list s" using imageI[OF assms(2), of wl] r by metis
  qed (use assms(3) in simp)
  with t show False by simp
qed

lemma inv_lists_distinct:
  assumes "inv_lists T L rs ws s"
  shows "distinct rs" "l \<in> L \<Longrightarrow> distinct (ws (wl l))"
proof -
  let ?Q = "queues L rs ws (ready_thread_list s)"
  have r: "ready_thread_list s \<notin> wl ` L" and q: "lists_at (lheap s) ?Q"
    using assms by (simp_all add: inv_lists_def)
  show "distinct rs" using lists_distinct[OF q, of "ready_thread_list s"] by (simp add: distinct_map)
  show "distinct (ws (wl l))" if "l \<in> L"
    using lists_distinct[OF q, of "wl l"] that r by (simp add: distinct_map)
qed

section \<open>The scheduler keeps the invariant\<close>

lemma schedule_status:
  assumes "P = switched c sp n (woken rs' i (requeued c P0))" "rs' = [] \<Longrightarrow> n = i"
  shows "status (P t) = (if t = n then TASK_RUNNING
       else if t = c \<and> status (P0 c) = TASK_RUNNING then TASK_READY else status (P0 t))"
    "pgdir (P t) = pgdir (P0 t)" "stack_magic (P t) = stack_magic (P0 t)"
    "self_kernel_stack (P t) = (if t = c then sp - 20 else self_kernel_stack (P0 t))"
  using assms by (auto simp: switched_def woken_def requeued_def Let_def)

definition keeps :: "'a timer_state_scheme \<Rightarrow> 'a timer_state_scheme \<Rightarrow> bool" where
  "keeps s s' \<longleftrightarrow> eflags s' = eflags s \<and> kstack s' = kstack s \<and> locks s' = locks s \<and> sem_value s' = sem_value s \<and>
     ready_thread_list s' = ready_thread_list s \<and> idle_thread s' = idle_thread s"

text \<open>
  The state after a switch from \<open>c\<close> to \<open>n\<close>: \<open>n # ns\<close> are the threads that may run, with the idle thread if
  there is no other.
\<close>

definition switch :: "u32 set \<Rightarrow> u32 set \<Rightarrow> u32 list \<Rightarrow> (u32 \<Rightarrow> u32 list) \<Rightarrow> bool \<Rightarrow> u32 \<Rightarrow> u32 \<Rightarrow> u32 list \<Rightarrow> u32 list \<Rightarrow>
    (u32 \<Rightarrow> pcb_struct) \<Rightarrow> (u32 \<Rightarrow> list_elem) \<Rightarrow> 'a timer_state_scheme \<Rightarrow> 'a timer_state_scheme \<Rightarrow> bool" where
  "switch T L rs ws run c n ns rs' P h s s' \<longleftrightarrow> inv_at T L rs ws run s \<and> c = running_thread s \<and>
     rs' = (if run then rs @ [c] else rs) \<and> n # ns = (if rs' = [] then [idle_thread s] else rs') \<and>
     P = switched c (esp s) n (woken rs' (idle_thread s) (requeued c (pcbs s))) \<and>
     s' = s\<lparr>lheap := h, cr3 := 0x00100000, thread_tag := general_tag n, pcbs := P, esp := self_kernel_stack (P n) + 20\<rparr>"

lemma switchD:
  assumes "switch T L rs ws run c n ns rs' P h s s'"
  shows "inv_lists T L rs ws s" "inv_threads T s" "inv_status T L rs ws run s" "inv_frames T L ws s" "inv_locks T L s" "inv_wake T L rs ws run s"
    "c = running_thread s" "rs' = (if run then rs @ [c] else rs)" "n # ns = (if rs' = [] then [idle_thread s] else rs')"
    "P = switched c (esp s) n (woken rs' (idle_thread s) (requeued c (pcbs s)))" "rs' = [] \<Longrightarrow> n = idle_thread s"
    "s' = s\<lparr>lheap := h, cr3 := 0x00100000, thread_tag := general_tag n, pcbs := P, esp := self_kernel_stack (P n) + 20\<rparr>"
  using assms unfolding switch_def inv_at_def by (blast, blast, blast, blast, blast, blast, blast, blast, blast, blast, force, blast)

lemma switch_in_T:
  assumes "switch T L rs ws run c n ns rs' P h s s'"
  shows "n \<in> T" "set ns \<subseteq> T"
proof -
  note D = switchD[OF assms]
  have "c \<in> T" "idle_thread s \<in> T" "set rs \<subseteq> T" using D(1,2) by (simp_all add: inv_threads_def inv_lists_def D(7))
  then have "set (n # ns) \<subseteq> T" unfolding D(9) using D(8) by auto
  then show "n \<in> T" "set ns \<subseteq> T" by simp_all
qed

lemma switch_members:
  assumes "switch T L rs ws run c n ns rs' P h s s'"
  shows "t \<in> set ns \<or> t = n \<longleftrightarrow> t \<in> set rs \<or> run \<and> t = c \<or> rs' = [] \<and> t = idle_thread s" "n \<notin> set ns"
proof -
  note D = switchD[OF assms]
  have "t \<in> set (n # ns) \<longleftrightarrow> t \<in> set rs \<or> run \<and> t = c \<or> rs' = [] \<and> t = idle_thread s" unfolding D(9) using D(8) by auto
  then show "t \<in> set ns \<or> t = n \<longleftrightarrow> t \<in> set rs \<or> run \<and> t = c \<or> rs' = [] \<and> t = idle_thread s" by auto
  have "distinct rs'" using D(8) inv_lists_distinct(1)[OF D(1)] D(3) by (auto simp: inv_status_def D(7))
  then have "distinct (n # ns)" unfolding D(9) by simp
  then show "n \<notin> set ns" by simp
qed

lemma switch_running: "switch T L rs ws run c n ns rs' P h s s' \<Longrightarrow> running_thread s' = n"
proof -
  assume sw: "switch T L rs ws run c n ns rs' P h s s'"
  note D = switchD[OF sw]
  show ?thesis using schedule_status(4)[OF D(10,11), of n] D(2) switch_in_T(1)[OF sw]
    by (auto simp: D(12) running_frame_of inv_threads_def D(7) split: if_splits)
qed

lemma switch_status:
  assumes sw: "switch T L rs ws run c n ns rs' P h s s'"
  shows "inv_status T L ns ws True s'"
  unfolding inv_status_def switch_running[OF sw]
proof (intro conjI ballI impI)
  note D = switchD[OF sw] and mem = switch_members[OF sw]
  have run: "status (pcbs s c) = TASK_RUNNING \<longleftrightarrow> run" using D(2,3) by (auto simp: inv_status_def inv_threads_def D(7))
  fix t assume t: "t \<in> T"
  show "status (pcbs s' t) = (if True \<and> t = n then TASK_RUNNING else if t \<in> set ns then TASK_READY else TASK_BLOCKED)"
    using schedule_status(1)[OF D(10,11), of t] mem(1)[of t] run D(11) D(3) t by (auto simp: D(12) inv_status_def D(7))
  show "\<exists>l \<in> L. t \<in> set (ws (wl l))" if "t \<notin> set ns \<and> \<not> (True \<and> t = n) \<and> t \<noteq> idle_thread s'"
    using that mem(1)[of t] D(3) t by (auto simp: D(12) inv_status_def D(7))
next
  note D = switchD[OF sw] and mem = switch_members[OF sw]
  show "n \<notin> set ns" by (rule mem(2))
  show "n \<notin> set (ws (wl l))" if l: "l \<in> L" for l
  proof
    assume nw: "n \<in> set (ws (wl l))"
    then have "n \<notin> set rs" "n \<noteq> idle_thread s" using inv_lists_disjoint[OF D(1) l] D(1) l by (auto simp: inv_lists_def)
    then have "run \<and> n = c" using mem(1)[of n] by auto
    then show False using D(3) l nw by (auto simp: inv_status_def D(7))
  qed
qed

lemma switch_wake:
  assumes sw: "switch T L rs ws run c n ns rs' P h s s'"
  shows "inv_wake T L ns ws True s'"
  unfolding inv_wake_def switch_running[OF sw]
proof (intro ballI impI)
  note D = switchD[OF sw]
  fix l assume "l \<in> L" "sem_value s' (lock_sem l) = 1 \<and> ws (wl l) \<noteq> []"
  then obtain t where "t \<in> T" "t \<in> set rs \<or> run \<and> t = c" "\<exists>st. Sem_loop (lock_sem l) st \<in> set (kstack s t)"
    using D(6) by (simp add: D(12) inv_wake_def D(7)) blast
  then show "\<exists>t \<in> T. (t \<in> set ns \<or> True \<and> t = n) \<and> (\<exists>st. Sem_loop (lock_sem l) st \<in> set (kstack s' t))"
    using switch_members(1)[OF sw] by (auto simp: D(12))
qed

lemma switch_inv:
  assumes sw: "switch T L rs ws run c n ns rs' P h s s'"
    and "lists_at h ((queues L rs ws (ready_thread_list s))(ready_thread_list s \<mapsto> map general_tag ns))" "\<not> bit (eflags s) 9"
    "\<forall>l \<in> L. \<not> retrying l (kstack s c)"
  shows "inv_at T L ns ws True s'"
proof -
  note D = switchD[OF sw]
  have "inv_lists T L ns ws s'" using D(1) assms(2) switch_in_T(2)[OF sw] by (simp add: D(12) inv_lists_def)
  moreover have "inv_threads T s'"
    using D(2) switch_in_T(1)[OF sw] schedule_status(2-4)[OF D(10,11)] unfolding inv_threads_def switch_running[OF sw]
    by (auto simp: D(12) D(7) running_frame_of)
  moreover have "inv_frames T L ws s'" using D(4) assms(3,4) by (auto simp: D(12) inv_frames_def D(7))
  moreover have "inv_locks T L s'" using D(5) by (simp add: D(12) inv_locks_def owns_def)
  ultimately show ?thesis using switch_status[OF sw] switch_wake[OF sw] by (simp add: inv_at_def)
qed

lemma schedule_inv:
  assumes inv: "inv_at T L rs ws run s" and off: "\<not> bit (eflags s) 9"
    and nr: "\<forall>l \<in> L. \<not> retrying l (kstack s (running_thread s))"
  obtains s' rs' where "schedule s = Inr s'" "inv_at T L rs' ws True s'" "keeps s s'"
proof -
  define c where "c = running_thread s"
  let ?r = "ready_thread_list s" and ?i = "idle_thread s"
  let ?Q = "queues L rs ws ?r"
  have il: "inv_lists T L rs ws s" and it: "inv_threads T s" and ist: "inv_status T L rs ws run s" using inv by (simp_all add: inv_at_def)
  have cT: "c \<in> T" "?i \<in> T" using it by (simp_all add: inv_threads_def c_def)
  have run: "status (pcbs s c) = TASK_RUNNING \<longleftrightarrow> run" using ist cT(1) by (auto simp: inv_status_def c_def)
  define rs' where "rs' = candidates c (pcbs s) rs"
  have rs': "rs' = (if run then rs @ [c] else rs)" by (simp add: rs'_def candidates_def run)
  obtain n ns where n: "n # ns = (if rs' = [] then [?i] else rs')" by (cases rs') auto
  have ui: "can_unlock (status (pcbs s ?i)) \<and> unlinked (general_tag ?i) ?Q" if "rs' = []"
  proof -
    have e: "\<not> run" "rs = []" using that rs' by (auto split: if_splits)
    have "\<forall>l \<in> L. ?i \<notin> set (ws (wl l))" using il by (auto simp: inv_lists_def)
    then show ?thesis using e ist cT(2) unlinked_queues[OF il cT(2)] by (simp add: inv_status_def can_unlock_def)
  qed
  define P where "P = switched c (esp s) n (woken rs' ?i (requeued c (pcbs s)))"
  have sw: "switch T L rs ws run c n ns rs' P h s (s\<lparr>lheap := h, cr3 := 0x00100000, thread_tag := general_tag n, pcbs := P, esp := self_kernel_stack (P n) + 20\<rparr>)" for h
    unfolding switch_def using inv c_def rs' n P_def by simp
  have n0: "n \<noteq> 0" "pgdir (pcbs s n) = 0" using switch_in_T(1)[OF sw] it by (auto simp: inv_threads_def)
  have uc: "unlinked (general_tag c) ?Q" if "status (pcbs s c) = TASK_RUNNING"
    using that run ist unlinked_queues[OF il cT(1)] by (simp add: inv_status_def c_def)
  have q: "lists_at (lheap s) ?Q" using il by (simp add: inv_lists_def)
  obtain h where h: "schedule s = Inr (s\<lparr>lheap := h, cr3 := 0x00100000, thread_tag := general_tag n,
      pcbs := P, esp := self_kernel_stack (P n) + 20\<rparr>)" (is "_ = Inr ?s'")
    and lh: "lists_at h (?Q(?r \<mapsto> map general_tag ns))"
    using schedule_ok[OF q queues_simps(1) off c_def uc rs'_def n ui n0 P_def] by blast
  have "inv_at T L ns ws True ?s'" by (rule switch_inv[OF sw lh off nr[folded c_def]])
  then show ?thesis using that h by (auto simp: keeps_def)
qed

section \<open>Taking and waiting for a lock\<close>

lemma wl_inj [simp]: "wl l = wl m \<longleftrightarrow> l = m" "lock_sem l = lock_sem m \<longleftrightarrow> l = m"
  by (simp_all add: wl_def sem_waiter_def lock_sem_def)

lemma shape_simps [simp]:
  "retrying l [Sem_loop (lock_sem l) st, Lock_tail l]"
  "awaiting l [Restore INTR_OFF, Sem_loop (lock_sem l) st, Lock_tail l]"
  "\<not> retrying m [Lock_tail l]" "\<not> awaiting m [Lock_tail l]"
  "\<not> awaiting m [Sem_loop k st, Lock_tail l]" "\<not> retrying m (Restore st' # k')"
  "\<not> retrying m []" "\<not> awaiting m []" "\<not> retrying m (Iret fl # k')" "\<not> awaiting m (Iret fl # k')"
  "\<not> retrying m [Idle_hlt]" "\<not> awaiting m [Idle_hlt]" "\<not> awaiting m [Restore st']" "\<not> awaiting m [Restore st', Idle_hlt]"
  by (auto simp: retrying_def awaiting_def)

lemma shapes [simp]:
  "l \<in> L \<Longrightarrow> shape L [Restore INTR_OFF, Sem_loop (lock_sem l) st, Lock_tail l]"
  "l \<in> L \<Longrightarrow> shape L [Sem_loop (lock_sem l) st, Lock_tail l]"
  "at_rest L k \<Longrightarrow> shape L k" "at_rest L k \<Longrightarrow> shape L (Iret fl # k)"
  "shape L [Restore st']" "shape L [Restore st', Idle_hlt]" "shape L [Kernel_thread f a]"
  "at_rest L []" "at_rest L [Idle_hlt]" "l \<in> L \<Longrightarrow> at_rest L [Lock_tail l]"
  unfolding shape_def retrying_def awaiting_def at_rest_def by auto

lemma pending_simps [simp]:
  "pending l [Lock_tail m] \<longleftrightarrow> l = m" "pending l [Iret fl, Lock_tail m] \<longleftrightarrow> l = m"
  "\<not> pending l []" "\<not> pending l (Sem_loop k st # k')" "\<not> pending l (Restore st' # Sem_loop k st # k')"
  "pending l (Iret fl # k') \<longleftrightarrow> pending l k'" "pending l (Restore st' # k') \<longleftrightarrow> pending l k'"
  "pending l (Idle_hlt # k') \<longleftrightarrow> pending l k'"
  by (auto simp: pending_def)

lemma retry_free:
  assumes inv: "inv_at T L rs ws True s" and l: "l \<in> L"
    and k: "kstack s (running_thread s) = [Sem_loop (lock_sem l) st, Lock_tail l]"
    and v: "sem_value s (lock_sem l) \<noteq> 0"
    and s': "s' = s\<lparr>kstack := (kstack s)(running_thread s := [Lock_tail l]),
      sem_value := (sem_value s)(lock_sem l := 0), eflags := fl\<rparr>"
  shows "inv_at T L rs ws True s'"
proof -
  let ?c = "running_thread s"
  have c: "running_thread s' = ?c" by (simp add: s' running_thread_def)
  note parts = inv[unfolded inv_at_def]
  have cT: "?c \<in> T" using parts by (simp add: inv_threads_def)
  have v1: "sem_value s (lock_sem l) = 1" "\<forall>t \<in> T. \<not> owns s l t"
    using parts v l by (auto simp: inv_locks_def)
  have own: "owns s' m t \<longleftrightarrow> (if t = ?c \<and> m = l then True else owns s m t)" for m t
    using k by (auto simp: owns_def s')
  have "inv_lists T L rs ws s'" "inv_threads T s'" "inv_status T L rs ws True s'"
    using parts by (simp_all add: inv_lists_def inv_threads_def inv_status_def c, simp_all add: s')
  moreover have "inv_frames T L ws s'" unfolding inv_frames_def c
  proof (intro conjI ballI impI)
    show "shape L (kstack s' t)" if "t \<in> T" for t
      using parts that l by (auto simp: inv_frames_def s' shape_def at_rest_def)
    show "awaiting m (kstack s' t)" if "m \<in> L" "t \<in> set (ws (wl m))" for m t
      using parts that by (auto simp: inv_frames_def inv_status_def s')
    show "t = ?c" if "t \<in> T" "m \<in> L" "retrying m (kstack s' t)" for m t
      using parts that by (auto simp: inv_frames_def s' split: if_splits)
    show "at_rest L (kstack s' ?c)" using l by (simp add: s' at_rest_def)
    fix m assume "m \<in> L"
    then show "\<not> retrying m (kstack s' (idle_thread s'))" "\<not> awaiting m (kstack s' (idle_thread s'))"
      using parts by (auto simp: inv_frames_def s')
  qed
  moreover have "inv_locks T L s'" unfolding inv_locks_def
  proof (intro ballI)
    fix m assume m: "m \<in> L"
    show "(sem_value s' (lock_sem m) = 1 \<and> (\<forall>t \<in> T. \<not> owns s' m t) \<or>
      sem_value s' (lock_sem m) = 0 \<and> (\<exists>!t. t \<in> T \<and> owns s' m t)) \<and>
     (holder (locks s' m) \<noteq> 0 \<longrightarrow> holder (locks s' m) \<in> T) \<and>
     (holder (locks s' m) = 0 \<longleftrightarrow> holder_repeat_num (locks s' m) = 0) \<and>
     (\<forall>t \<in> T. Lock_tail m \<in> set (kstack s' t) \<longrightarrow> holder (locks s' m) \<noteq> t)"
    proof (cases "m = l")
      case True
      then have "\<exists>!t. t \<in> T \<and> owns s' m t" using v1 cT own by (intro ex1I[of _ ?c]) (auto split: if_splits)
      then show ?thesis using parts m True k by (auto simp: inv_locks_def s')
    next
      case False
      then have "\<And>t. owns s' m t = owns s m t" using own by simp
      then show ?thesis using parts m False k by (simp add: inv_locks_def s')
    qed
  qed
  moreover have "inv_wake T L rs ws True s'" unfolding inv_wake_def c
  proof (intro ballI impI)
    fix m assume m: "m \<in> L" "sem_value s' (lock_sem m) = 1 \<and> ws (wl m) \<noteq> []"
    then have ml: "m \<noteq> l" by (auto simp: s')
    obtain t where "t \<in> T" "t \<in> set rs \<or> True \<and> t = ?c" "\<exists>st. Sem_loop (lock_sem m) st \<in> set (kstack s t)"
      using parts m ml by (simp add: inv_wake_def s') blast
    then show "\<exists>t \<in> T. (t \<in> set rs \<or> True \<and> t = ?c) \<and> (\<exists>st. Sem_loop (lock_sem m) st \<in> set (kstack s' t))"
      using ml k by (intro bexI[of _ t]) (auto simp: s')
  qed
  ultimately show ?thesis by (simp add: inv_at_def)
qed

lemma retry_blocked:
  assumes inv: "inv_at T L rs ws True s" and l: "l \<in> L"
    and k: "kstack s (running_thread s) = [Sem_loop (lock_sem l) st, Lock_tail l]"
    and off: "\<not> bit (eflags s) 9" and v: "sem_value s (lock_sem l) = 0"
    and ws': "ws' = ws(wl l := ws (wl l) @ [running_thread s])"
    and h: "lists_at h (queues L rs ws' (ready_thread_list s))"
    and s': "s' = s\<lparr>lheap := h, pcbs := (pcbs s)(running_thread s := (pcbs s (running_thread s))\<lparr>status := TASK_BLOCKED\<rparr>),
      kstack := (kstack s)(running_thread s := [Restore INTR_OFF, Sem_loop (lock_sem l) st, Lock_tail l])\<rparr>"
  shows "inv_at T L rs ws' False s'"
proof -
  let ?c = "running_thread s"
  have c: "running_thread s' = ?c" by (simp add: s' running_thread_def)
  note parts = inv[unfolded inv_at_def]
  have cT: "?c \<in> T" using parts by (simp add: inv_threads_def)
  have ci: "?c \<noteq> idle_thread s" using parts l k by (auto simp: inv_frames_def)
  have cr: "?c \<notin> set rs" using parts by (simp add: inv_status_def)
  have mem: "t \<in> set (ws' (wl m)) \<longleftrightarrow> t \<in> set (ws (wl m)) \<or> m = l \<and> t = ?c" for m t
    by (auto simp: ws')
  have own: "owns s' m t = owns s m t" for m t
    using k by (auto simp: owns_def s')
  have "inv_lists T L rs ws' s'"
  proof -
    have "set (ws' (wl m)) \<subseteq> T - {idle_thread s}" if "m \<in> L" for m
      using parts cT ci that by (auto simp: inv_lists_def ws')
    then show ?thesis using parts h by (simp add: inv_lists_def s')
  qed
  moreover have "inv_threads T s'"
    using parts by (simp add: inv_threads_def c) (simp add: s')
  moreover have "inv_status T L rs ws' False s'"
    using parts l cr unfolding inv_status_def c mem by (auto simp: s')
  moreover have "inv_frames T L ws' s'" unfolding inv_frames_def c
  proof (intro conjI ballI impI)
    show "shape L (kstack s' t)" if "t \<in> T" for t
      using parts that l by (auto simp: inv_frames_def s')
    show "awaiting m (kstack s' t)" if "m \<in> L" "t \<in> set (ws' (wl m))" for m t
      using parts that by (auto simp: inv_frames_def inv_status_def s' mem)
    show "t = ?c" if "t \<in> T" "m \<in> L" "retrying m (kstack s' t)" for m t
      using parts that by (auto simp: inv_frames_def s' split: if_splits)
    show "at_rest L (kstack s' ?c)" if "bit (eflags s') 9" using off that by (simp add: s')
    fix m assume "m \<in> L"
    then show "\<not> retrying m (kstack s' (idle_thread s'))" "\<not> awaiting m (kstack s' (idle_thread s'))"
      using parts ci by (auto simp: inv_frames_def s')
  qed
  moreover have "inv_locks T L s'"
    using parts k unfolding inv_locks_def own by (auto simp: s')
  moreover have "inv_wake T L rs ws' False s'" unfolding inv_wake_def c
  proof (intro ballI impI)
    fix m assume m: "m \<in> L" "sem_value s' (lock_sem m) = 1 \<and> ws' (wl m) \<noteq> []"
    then have ml: "m \<noteq> l" using v by (auto simp: s')
    then obtain t where t: "t \<in> T" "t \<in> set rs \<or> True \<and> t = ?c" "\<exists>st. Sem_loop (lock_sem m) st \<in> set (kstack s t)"
      using parts m by (simp add: inv_wake_def s' ws') blast
    then have "t \<noteq> ?c" using ml k by auto
    then show "\<exists>t \<in> T. (t \<in> set rs \<or> False \<and> t = ?c) \<and> (\<exists>st. Sem_loop (lock_sem m) st \<in> set (kstack s' t))"
      using t by (intro bexI[of _ t]) (auto simp: s')
  qed
  ultimately show ?thesis by (simp add: inv_at_def)
qed

lemma retry_inv:
  assumes inv: "inv_at T L rs ws True s" and l: "l \<in> L"
    and k: "kstack s (running_thread s) = [Sem_loop (lock_sem l) st, Lock_tail l]"
    and off: "\<not> bit (eflags s) 9"
  shows "\<exists>s'. sem_down_loop (lock_sem l) st (s\<lparr>kstack := (kstack s)(running_thread s := [Lock_tail l])\<rparr>) = Inr s' \<and>
    inv T L s'"
proof -
  let ?c = "running_thread s" and ?r = "ready_thread_list s"
  let ?s1 = "s\<lparr>kstack := (kstack s)(?c := [Lock_tail l])\<rparr>"
  have c1: "running_thread ?s1 = ?c" by (simp add: running_thread_def)
  note parts = inv[unfolded inv_at_def]
  have il: "inv_lists T L rs ws s" and cT: "?c \<in> T" using parts by (simp_all add: inv_threads_def)
  show ?thesis
  proof (cases "sem_value s (lock_sem l) = 0")
    case True
    let ?Q = "queues L rs ws ?r" and ?w = "wl l"
    have r: "?r \<notin> wl ` L" and q: "lists_at (lheap s) ?Q" using il by (simp_all add: inv_lists_def)
    have Qw: "?Q ?w = Some (map general_tag (ws ?w))" using l r by simp
    have u: "unlinked (general_tag ?c) ?Q"
      using unlinked_queues[OF il cT] parts by (simp add: inv_status_def)
    define h where "h = insert_heap (tail_of ?w) (general_tag ?c) (lheap s)"
    define ws' where "ws' = ws(?w := ws ?w @ [?c])"
    have lh: "lists_at h (queues L rs ws' ?r)"
      using lists_at_append[OF q Qw u] queues_wait[OF l r, of rs ws "ws ?w @ [?c]"] by (simp add: h_def ws'_def)
    define s2 where "s2 = s\<lparr>lheap := h, pcbs := (pcbs s)(?c := (pcbs s ?c)\<lparr>status := TASK_BLOCKED\<rparr>),
      kstack := (kstack s)(?c := [Restore INTR_OFF, Sem_loop (lock_sem l) st, Lock_tail l])\<rparr>"
    have inv2: "inv_at T L rs ws' False s2" by (rule retry_blocked[OF inv l k off True ws'_def lh s2_def])
    have f: "elem_find (sem_waiter (lock_sem l)) (general_tag ?c) ?s1 = Inr False"
      using elem_find_ok[of ?s1 ?w] lists_atD(1)[OF q Qw] unlinked_not_member[OF u Qw] by (simp add: wl_def)
    have "sem_down_loop (lock_sem l) st ?s1 = schedule s2"
      using True f off
      by (simp add: sem_down_loop_def c1 Let_def list_append_eq push_frame_def thread_lock_def intr_already_off
          can_unlock_def upd_pcb_def running_thread_def s2_def h_def wl_def)
    moreover have "\<forall>m \<in> L. \<not> retrying m (kstack s2 (running_thread s2))" "\<not> bit (eflags s2) 9"
      using off by (simp_all add: s2_def running_thread_def)
    ultimately show ?thesis using schedule_inv[OF inv2] unfolding inv_def by metis
  next
    case False
    then have v: "sem_value s (lock_sem l) = 1" using parts l by (auto simp: inv_locks_def)
    let ?s2 = "?s1\<lparr>sem_value := (sem_value s)(lock_sem l := 0)\<rparr>"
    have "sem_down_loop (lock_sem l) st ?s1 = Inr (snd (intr_set_status st ?s2))"
      by (simp add: sem_down_loop_def v)
    moreover obtain x where "snd (intr_set_status st ?s2) = ?s2\<lparr>eflags := x\<rparr>"
      using intr_set_status_eflags[of st ?s2] by metis
    moreover have "inv_at T L rs ws True (?s2\<lparr>eflags := x\<rparr>)"
      by (rule retry_free[OF inv l k False]) simp
    ultimately show ?thesis unfolding inv_def by auto
  qed
qed

section \<open>Changes that keep the invariant\<close>

text \<open>Fields the invariant does not speak of.\<close>

lemma inv_cong:
  assumes "inv_at T L rs ws run s"
    and "lheap s' = lheap s" "ready_thread_list s' = ready_thread_list s" "idle_thread s' = idle_thread s"
      "esp s' = esp s" "eflags s' = eflags s" "kstack s' = kstack s" "locks s' = locks s" "sem_value s' = sem_value s"
    and "\<And>t. status (pcbs s' t) = status (pcbs s t) \<and> pgdir (pcbs s' t) = pgdir (pcbs s t) \<and>
      stack_magic (pcbs s' t) = stack_magic (pcbs s t) \<and> self_kernel_stack (pcbs s' t) = self_kernel_stack (pcbs s t)"
  shows "inv_at T L rs ws run s'"
proof -
  have c: "running_thread s' = running_thread s" using assms(5) by (simp add: running_thread_def)
  show ?thesis using assms(1) unfolding inv_at_def inv_parts owns_def c assms(2-9) using assms(10) by simp
qed

text \<open>The running thread's stack and the flags.\<close>

lemma reframe:
  assumes inv: "inv_at T L rs ws True s" and c: "c = running_thread s"
    and s': "s' = s\<lparr>eflags := x, kstack := (kstack s)(c := k)\<rparr>"
    and k: "shape L k" "bit x 9 \<Longrightarrow> at_rest L k"
      "c = idle_thread s \<Longrightarrow> \<forall>l \<in> L. \<not> retrying l k \<and> \<not> awaiting l k"
      "\<And>l. pending l k = pending l (kstack s c)"
      "\<And>l. l \<in> L \<Longrightarrow> Lock_tail l \<in> set k \<Longrightarrow> holder (locks s l) \<noteq> c"
      "\<And>l st. Sem_loop (lock_sem l) st \<in> set (kstack s c) \<Longrightarrow> \<exists>st. Sem_loop (lock_sem l) st \<in> set k"
  shows "inv_at T L rs ws True s'"
proof -
  have c': "running_thread s' = c" using c by (simp add: s' running_thread_def)
  note parts = inv[unfolded inv_at_def]
  have own: "owns s' m t = owns s m t" for m t using k(4)[of m] by (simp add: owns_def s')
  have "inv_lists T L rs ws s'" "inv_threads T s'" "inv_status T L rs ws True s'"
    using parts c by (simp_all add: inv_lists_def inv_threads_def inv_status_def c', simp_all add: s')
  moreover have "inv_frames T L ws s'" unfolding inv_frames_def c'
  proof (intro conjI ballI impI)
    show "shape L (kstack s' t)" if "t \<in> T" for t
      using parts that k(1) by (auto simp: inv_frames_def s')
    show "awaiting m (kstack s' t)" if "m \<in> L" "t \<in> set (ws (wl m))" for m t
      using parts that c by (auto simp: inv_frames_def inv_status_def s')
    show "t = c" if "t \<in> T" "m \<in> L" "retrying m (kstack s' t)" for m t
      using parts that c by (auto simp: inv_frames_def s' split: if_splits)
    show "at_rest L (kstack s' c)" if "bit (eflags s') 9" using k(2) that by (simp add: s')
    fix m assume "m \<in> L"
    then show "\<not> retrying m (kstack s' (idle_thread s'))" "\<not> awaiting m (kstack s' (idle_thread s'))"
      using parts k(3) by (auto simp: inv_frames_def s')
  qed
  moreover have "inv_locks T L s'"
    using parts k(5) unfolding inv_locks_def own by (auto simp: s')
  moreover have "inv_wake T L rs ws True s'" unfolding inv_wake_def c'
  proof (intro ballI impI)
    fix m assume m: "m \<in> L" "sem_value s' (lock_sem m) = 1 \<and> ws (wl m) \<noteq> []"
    then obtain t where t: "t \<in> T" "t \<in> set rs \<or> True \<and> t = c" "\<exists>st. Sem_loop (lock_sem m) st \<in> set (kstack s t)"
      using parts c by (simp add: inv_wake_def s') blast
    then show "\<exists>t \<in> T. (t \<in> set rs \<or> True \<and> t = c) \<and> (\<exists>st. Sem_loop (lock_sem m) st \<in> set (kstack s' t))"
      using k(6) by (intro bexI[of _ t]) (auto simp: s')
  qed
  ultimately show ?thesis by (simp add: inv_at_def)
qed

text \<open>The running thread leaves the processor: to the end of the ready list, or idle.\<close>

lemma leave_ready:
  assumes inv: "inv_at T L rs ws True s" and c: "c = running_thread s"
    and h: "lists_at h (queues L (rs @ [c]) ws (ready_thread_list s))"
    and s': "s' = s\<lparr>lheap := h, pcbs := (pcbs s)(c := (pcbs s c)\<lparr>status := TASK_READY\<rparr>)\<rparr>"
  shows "inv_at T L (rs @ [c]) ws False s'"
proof -
  have c': "running_thread s' = c" using c by (simp add: s' running_thread_def)
  note parts = inv[unfolded inv_at_def]
  have own: "owns s' = owns s" by (intro ext) (simp add: owns_def s')
  have "inv_lists T L (rs @ [c]) ws s'" "inv_threads T s'"
    using parts c h by (simp_all add: inv_lists_def inv_threads_def c', simp_all add: s')
  moreover have "inv_status T L (rs @ [c]) ws False s'"
    using parts c unfolding inv_status_def c' by (auto simp: s')
  moreover have "inv_frames T L ws s'" "inv_locks T L s'"
    using parts c unfolding inv_frames_def inv_locks_def own c' by (simp_all add: s')
  moreover have "inv_wake T L (rs @ [c]) ws False s'"
    using parts c unfolding inv_wake_def c' by (fastforce simp: s')
  ultimately show ?thesis by (simp add: inv_at_def)
qed

lemma shape_Sem_loop:
  "\<lbrakk> shape L k; Sem_loop m st \<in> set k \<rbrakk> \<Longrightarrow> \<exists>l \<in> L. retrying l k \<or> awaiting l k"
  by (auto simp: shape_def at_rest_def)

lemma leave_idle:
  assumes inv: "inv_at T L rs ws True s" and c: "c = running_thread s" "c = idle_thread s"
    and s': "s' = s\<lparr>pcbs := (pcbs s)(c := (pcbs s c)\<lparr>status := TASK_BLOCKED\<rparr>)\<rparr>"
  shows "inv_at T L rs ws False s'"
proof -
  have c': "running_thread s' = c" using c by (simp add: s' running_thread_def)
  note parts = inv[unfolded inv_at_def]
  have own: "owns s' = owns s" by (intro ext) (simp add: owns_def s')
  have "inv_lists T L rs ws s'" "inv_threads T s'"
    using parts c(1) by (simp_all add: inv_lists_def inv_threads_def c', simp_all add: s')
  moreover have "inv_status T L rs ws False s'"
    using parts c unfolding inv_status_def c' by (auto simp: s')
  moreover have "inv_frames T L ws s'" "inv_locks T L s'"
    using parts c unfolding inv_frames_def inv_locks_def own c' by (simp_all add: s')
  moreover have "inv_wake T L rs ws False s'"
  proof -
    have "Sem_loop m st \<notin> set (kstack s c)" for m st
      using parts shape_Sem_loop[of L "kstack s c" m st] c by (auto simp: inv_frames_def inv_threads_def)
    then show ?thesis using parts c unfolding inv_wake_def c' by (fastforce simp: s')
  qed
  ultimately show ?thesis by (simp add: inv_at_def)
qed

section \<open>Each step keeps the invariant and succeeds\<close>

definition fine :: "u32 set \<Rightarrow> u32 set \<Rightarrow> error + 'a timer_state_scheme \<Rightarrow> bool" where
  "fine T L r \<longleftrightarrow> (\<exists>s'. r = Inr s' \<and> inv T L s')"

lemma fine_Inr: "inv_at T L rs ws True s' \<Longrightarrow> fine T L (Inr s')"
  by (auto simp: fine_def inv_def)

lemma schedule_fine:
  assumes "inv_at T L rs ws run s" "\<not> bit (eflags s) 9" "\<forall>l \<in> L. \<not> retrying l (kstack s (running_thread s))"
  shows "fine T L (schedule s)"
  using schedule_inv[OF assms] by (metis fine_Inr)

lemma upd_comm:
  "s\<lparr>kstack := k, lheap := h\<rparr> = (s :: 'a timer_state_scheme)\<lparr>lheap := h, kstack := k\<rparr>"
  "s\<lparr>kstack := k, pcbs := P\<rparr> = s\<lparr>pcbs := P, kstack := k\<rparr>"
  by (cases s, simp)+

lemma inv_threads_frame: "inv_threads T s \<Longrightarrow> t \<in> T \<Longrightarrow> frame_of t = t"
  by (cases "t = running_thread s") (auto simp: inv_threads_def running_frame_of, metis frame_of_frame)

lemma page_not_tag:
  assumes "frame_of c = c" "frame_of p = p"
  shows "c \<noteq> general_tag p"
proof
  assume e: "c = general_tag p"
  have "index 17" by (simp add: index_def)
  then have "frame_of (general_tag p) = p" using table_word(1)[OF assms(2), of 17] by (simp add: general_tag_def)
  then show False using e assms(1) by (simp add: general_tag_def)
qed

lemma yield_fine:
  assumes inv: "inv_at T L rs ws True s" and k: "kstack s (running_thread s) = []"
  shows "fine T L (thread_yield s)"
proof -
  define c where "c = running_thread s"
  obtain old x where d: "intr_disable s = (old, s\<lparr>eflags := x\<rparr>)" "\<not> bit x 9" by (rule intr_disabled)
  note parts = inv[unfolded inv_at_def]
  have il: "inv_lists T L rs ws s" and cT: "c \<in> T" using parts by (simp_all add: inv_threads_def c_def)
  let ?r = "ready_thread_list s" and ?Q = "queues L rs ws (ready_thread_list s)"
  have q: "lists_at (lheap s) ?Q" using il by (simp add: inv_lists_def)
  have u: "unlinked (general_tag c) ?Q"
    using unlinked_queues[OF il cT] parts by (simp add: inv_status_def c_def)
  define h where "h = insert_heap (tail_of ?r) (general_tag c) (lheap s)"
  have lh: "lists_at h (queues L (rs @ [c]) ws ?r)"
    using lists_at_append[OF q queues_simps(1) u] queues_simps(3)[of L rs ws ?r "rs @ [c]"] by (simp add: h_def)
  define s1 where "s1 = s\<lparr>eflags := x, kstack := (kstack s)(c := [Restore old])\<rparr>"
  have "inv_at T L rs ws True s1"
    by (rule reframe[OF inv c_def s1_def]) (use d(2) k in \<open>auto simp: c_def\<close>)
  moreover define s2 where "s2 = s1\<lparr>lheap := h, pcbs := (pcbs s1)(c := (pcbs s1 c)\<lparr>status := TASK_READY\<rparr>)\<rparr>"
  moreover have "c = running_thread s1" "ready_thread_list s1 = ?r" by (simp_all add: s1_def running_thread_def c_def)
  ultimately have inv2: "inv_at T L (rs @ [c]) ws False s2"
    using lh leave_ready[of T L rs ws s1 c h s2] by simp
  have "c \<notin> general_tag ` set rs"
  proof -
    have "set rs \<subseteq> T" using il by (simp add: inv_lists_def)
    then show ?thesis using page_not_tag inv_threads_frame[of T s] cT parts by (auto simp: subset_iff)
  qed
  then have nf: "elem_find ?r c (s\<lparr>eflags := x\<rparr>) = Inr False"
    using elem_find_ok[of "s\<lparr>eflags := x\<rparr>" ?r] lists_atD(1)[OF q queues_simps(1)] by simp
  have "s2 = s\<lparr>eflags := x, lheap := h, pcbs := (pcbs s)(c := (pcbs s c)\<lparr>status := TASK_READY\<rparr>), kstack := (kstack s)(c := [Restore old])\<rparr>"
    by (simp add: s2_def s1_def upd_comm)
  then have "thread_yield s = schedule s2"
    using d(1) nf k by (simp add: thread_yield_def c_def[symmetric] list_append_eq upd_pcb_def push_frame_def h_def)
  moreover have "fine T L (schedule s2)"
    by (rule schedule_fine[OF inv2]) (use d(2) in \<open>simp_all add: s2_def s1_def running_thread_def c_def\<close>)
  ultimately show ?thesis by simp
qed

lemma idle_fine:
  assumes inv: "inv_at T L rs ws True s" and k: "kstack s (running_thread s) = []"
    and i: "running_thread s = idle_thread s"
  shows "fine T L (idle s)"
proof -
  define c where "c = running_thread s"
  let ?s0 = "push_frame Idle_hlt c s"
  obtain old x where d: "intr_disable ?s0 = (old, ?s0\<lparr>eflags := x\<rparr>)" "\<not> bit x 9" by (rule intr_disabled)
  define s1 where "s1 = s\<lparr>eflags := x, kstack := (kstack s)(c := [Restore old, Idle_hlt])\<rparr>"
  have "inv_at T L rs ws True s1"
    by (rule reframe[OF inv c_def s1_def]) (use d(2) k in \<open>auto simp: c_def\<close>)
  moreover define s2 where "s2 = s1\<lparr>pcbs := (pcbs s1)(c := (pcbs s1 c)\<lparr>status := TASK_BLOCKED\<rparr>)\<rparr>"
  moreover have "c = running_thread s1" "c = idle_thread s1" using i by (simp_all add: s1_def running_thread_def c_def)
  ultimately have inv2: "inv_at T L rs ws False s2" using leave_idle[of T L rs ws s1 c s2] by simp
  have "running_thread (s\<lparr>eflags := x, kstack := (kstack s)(c := [Idle_hlt])\<rparr>) = c"
    by (simp add: running_thread_def c_def)
  moreover have "?s0\<lparr>eflags := x\<rparr> = s\<lparr>eflags := x, kstack := (kstack s)(c := [Idle_hlt])\<rparr>"
    using k by (cases s) (simp add: push_frame_def c_def running_thread_def)
  ultimately have "idle s = schedule s2"
    using d(1) by (simp add: idle_def thread_lock_def c_def[symmetric] can_unlock_def upd_pcb_def push_frame_def s2_def s1_def upd_comm)
  moreover have "fine T L (schedule s2)"
    by (rule schedule_fine[OF inv2]) (use d(2) in \<open>simp_all add: s2_def s1_def running_thread_def c_def\<close>)
  ultimately show ?thesis by simp
qed

lemma tick_fine:
  assumes inv: "inv_at T L rs ws True s" and on: "bit (eflags s) 9"
  shows "fine T L (timer_interrupt s)"
proof -
  define c where "c = running_thread s"
  note parts = inv[unfolded inv_at_def]
  have rest: "at_rest L (kstack s c)" using parts on by (simp add: inv_frames_def c_def)
  let ?x = "eflags s AND NOT EFLAG_IF_ON"
  have off: "\<not> bit ?x 9" by (simp add: bit_simps)
  define s1 where "s1 = s\<lparr>eflags := ?x, kstack := (kstack s)(c := Iret (eflags s) # kstack s c)\<rparr>"
  have inv1: "inv_at T L rs ws True s1"
  proof (rule reframe[OF inv c_def s1_def])
    show "Lock_tail l \<in> set (Iret (eflags s) # kstack s c) \<Longrightarrow> holder (locks s l) \<noteq> c" if "l \<in> L" for l
      using parts that by (auto simp: inv_locks_def inv_threads_def c_def)
  qed (use off rest in auto)
  define s2 where "s2 = (upd_pcb c (\<lambda>p. p\<lparr>elapsed_ticks := elapsed_ticks p + 1\<rparr>)
    (out_byte 0xa0 0x20 (out_byte 0x20 0x20 (cli (push_frame (Iret (eflags s)) c s)))))\<lparr>ticks := ticks s + 1\<rparr>"
  have e: "lheap s2 = lheap s" "ready_thread_list s2 = ready_thread_list s" "idle_thread s2 = idle_thread s"
      "esp s2 = esp s" "eflags s2 = ?x" "kstack s2 = kstack s1" "locks s2 = locks s" "sem_value s2 = sem_value s"
      "pcbs s2 = (pcbs s)(c := (pcbs s c)\<lparr>elapsed_ticks := elapsed_ticks (pcbs s c) + 1\<rparr>)"
    by (simp_all add: s2_def s1_def upd_pcb_def out_byte_def cli_def push_frame_def)
  have inv2: "inv_at T L rs ws True s2"
    by (rule inv_cong[OF inv1]) (simp_all add: e, simp_all add: s1_def)
  have c2: "running_thread s2 = c" using e(4) by (simp add: running_thread_def c_def)
  have mg: "stack_magic (pcbs s c) = 0x7c00" using parts by (simp add: inv_threads_def c_def)
  let ?s0 = "out_byte 0xa0 0x20 (out_byte 0x20 0x20 (cli (push_frame (Iret (eflags s)) c s)))"
  have r0: "running_thread ?s0 = c" "ticks ?s0 = ticks s" "pcbs ?s0 = pcbs s"
    by (simp_all add: running_thread_def c_def out_byte_def cli_def push_frame_def)
  have "timer_interrupt s = (if pcb_ticks (pcbs s2 c) = 0 then schedule s2
      else Inr (upd_pcb c (\<lambda>p. p\<lparr>pcb_ticks := pcb_ticks p - 1\<rparr>) s2))"
    unfolding timer_interrupt_def intr_timer_handler_def c_def[symmetric] Let_def r0
    using mg by (simp add: s2_def upd_pcb_def r0)
  moreover have "fine T L (schedule s2)"
    by (rule schedule_fine[OF inv2]) (use off in \<open>simp_all add: e c2 s1_def\<close>)
  moreover have "fine T L (Inr (upd_pcb c (\<lambda>p. p\<lparr>pcb_ticks := pcb_ticks p - 1\<rparr>) s2))"
    by (rule fine_Inr[OF inv_cong[OF inv2]]) (simp_all add: upd_pcb_def)
  ultimately show ?thesis by simp
qed

lemma relock:
  assumes inv: "inv_at T L rs ws True s" and l: "l \<in> L" and n: "holder (locks s l) \<noteq> 0" "n \<noteq> 0"
    and s': "s' = s\<lparr>locks := (locks s)(l := (locks s l)\<lparr>holder_repeat_num := n\<rparr>)\<rparr>"
  shows "inv_at T L rs ws True s'"
proof -
  have c: "running_thread s' = running_thread s" by (simp add: s' running_thread_def)
  note parts = inv[unfolded inv_at_def]
  have own: "owns s' = owns s" by (intro ext) (simp add: owns_def s')
  have "inv_locks T L s'"
    using parts n l unfolding inv_locks_def own by (simp add: s')
  then show ?thesis using parts unfolding inv_at_def inv_lists_def inv_threads_def inv_status_def inv_frames_def inv_wake_def c
    by (simp add: s')
qed

lemma acquire_fine:
  assumes inv: "inv_at T L rs ws True s" and k: "kstack s (running_thread s) = []" and a: "allowed L (Acquire l) s"
  shows "fine T L (lock_acquire l s)"
proof (cases "holder (locks s l) = running_thread s")
  case True
  have "running_thread s \<noteq> 0" using inv by (auto simp: inv_at_def inv_threads_def)
  moreover have "holder_repeat_num (locks s l) + 1 \<noteq> 0" using a True by (simp add: add_eq_0_iff2)
  ultimately show ?thesis using a True relock[OF inv, of l "holder_repeat_num (locks s l) + 1"]
    by (auto simp: lock_acquire_def intro: fine_Inr)
next
  case False
  define c where "c = running_thread s"
  have l: "l \<in> L" and i: "c \<noteq> idle_thread s" using a by (simp_all add: c_def)
  let ?s0 = "push_frame (Lock_tail l) c s"
  obtain old x where d: "intr_disable ?s0 = (old, ?s0\<lparr>eflags := x\<rparr>)" "\<not> bit x 9" by (rule intr_disabled)
  define s1 where "s1 = s\<lparr>eflags := x, kstack := (kstack s)(c := [Sem_loop (lock_sem l) old, Lock_tail l])\<rparr>"
  have inv1: "inv_at T L rs ws True s1"
    by (rule reframe[OF inv c_def s1_def]) (use d(2) k l i False in \<open>auto simp: c_def\<close>)
  have c1: "running_thread s1 = c" by (simp add: s1_def running_thread_def c_def)
  have "?s0\<lparr>eflags := x\<rparr> = s1\<lparr>kstack := (kstack s1)(c := [Lock_tail l])\<rparr>"
    using k by (cases s) (simp add: push_frame_def s1_def c_def running_thread_def)
  then have "lock_acquire l s = sem_down_loop (lock_sem l) old (s1\<lparr>kstack := (kstack s1)(c := [Lock_tail l])\<rparr>)"
    using False d(1) by (simp add: lock_acquire_def sem_down_def c_def[symmetric])
  moreover have "\<exists>s'. sem_down_loop (lock_sem l) old (s1\<lparr>kstack := (kstack s1)(c := [Lock_tail l])\<rparr>) = Inr s' \<and> inv T L s'"
    by (rule retry_inv[OF inv1 l, of old, unfolded c1]) (use d(2) in \<open>simp_all add: s1_def\<close>)
  ultimately show ?thesis by (simp add: fine_def)
qed

lemma inv_locksD:
  assumes "inv_locks T L s" "l \<in> L"
  shows "t \<in> T \<Longrightarrow> owns s l t \<Longrightarrow> sem_value s (lock_sem l) = 0"
    "t \<in> T \<Longrightarrow> u \<in> T \<Longrightarrow> owns s l t \<Longrightarrow> owns s l u \<Longrightarrow> t = u"
    "holder (locks s l) \<noteq> 0 \<Longrightarrow> holder (locks s l) \<in> T"
    "holder (locks s l) = 0 \<longleftrightarrow> holder_repeat_num (locks s l) = 0"
    "t \<in> T \<Longrightarrow> Lock_tail l \<in> set (kstack s t) \<Longrightarrow> holder (locks s l) \<noteq> t"
  using assms unfolding inv_locks_def by blast+

lemma lock_tail_fine:
  assumes inv: "inv_at T L rs ws True s" and l: "l \<in> L" and k: "kstack s (running_thread s) = [Lock_tail l]"
  shows "fine T L (lock_acquire_tail l (s\<lparr>kstack := (kstack s)(running_thread s := [])\<rparr>))"
proof -
  define c where "c = running_thread s"
  note parts = inv[unfolded inv_at_def]
  have cT: "c \<in> T" "c \<noteq> 0" using parts by (auto simp: inv_threads_def c_def)
  have il: "inv_locks T L s" using parts by simp
  note lk = inv_locksD[OF il l]
  have oc: "owns s l c" using k by (simp add: owns_def c_def)
  have hc: "holder (locks s l) \<noteq> c" using lk(5)[of c] k cT by (simp add: c_def)
  have h0: "holder (locks s l) = 0"
    using lk(2)[OF _ cT(1) _ oc, of "holder (locks s l)"] lk(3) hc by (auto simp: owns_def)
  define s' where "s' = s\<lparr>locks := (locks s)(l := \<lparr>holder = c, holder_repeat_num = 1\<rparr>), kstack := (kstack s)(c := [])\<rparr>"
  have c': "running_thread s' = c" by (simp add: s'_def running_thread_def c_def)
  have own: "owns s' m t \<longleftrightarrow> (if m = l then t = c \<or> t \<noteq> c \<and> pending l (kstack s t) else owns s m t)" for m t
    using k by (auto simp: owns_def s'_def c_def)
  have "\<not> pending l (kstack s t)" if "t \<in> T" "t \<noteq> c" for t
    using that lk(2)[OF that(1) cT(1) _ oc] by (auto simp: owns_def)
  then have u: "\<exists>!t. t \<in> T \<and> owns s' l t" using cT own by (intro ex1I[of _ c]) auto
  have "inv_lists T L rs ws s'" "inv_threads T s'" "inv_status T L rs ws True s'"
    using parts by (simp_all add: inv_lists_def inv_threads_def inv_status_def c', simp_all add: s'_def c_def)
  moreover have "inv_frames T L ws s'" unfolding inv_frames_def c'
    using parts by (auto simp: inv_frames_def inv_status_def s'_def c_def split: if_splits)
  moreover have "inv_locks T L s'" unfolding inv_locks_def
  proof (intro ballI)
    fix m assume m: "m \<in> L"
    show "(sem_value s' (lock_sem m) = 1 \<and> (\<forall>t \<in> T. \<not> owns s' m t) \<or>
      sem_value s' (lock_sem m) = 0 \<and> (\<exists>!t. t \<in> T \<and> owns s' m t)) \<and>
     (holder (locks s' m) \<noteq> 0 \<longrightarrow> holder (locks s' m) \<in> T) \<and>
     (holder (locks s' m) = 0 \<longleftrightarrow> holder_repeat_num (locks s' m) = 0) \<and>
     (\<forall>t \<in> T. Lock_tail m \<in> set (kstack s' t) \<longrightarrow> holder (locks s' m) \<noteq> t)"
    proof (cases "m = l")
      case True
      then show ?thesis using u lk(1)[OF cT(1) oc] cT by (auto simp: s'_def)
    next
      case False
      then have "owns s' m = owns s m" using own by (intro ext) simp
      then show ?thesis using parts m False k by (simp add: inv_locks_def s'_def c_def)
    qed
  qed
  moreover have "inv_wake T L rs ws True s'" unfolding inv_wake_def c'
  proof (intro ballI impI)
    fix m assume "m \<in> L" "sem_value s' (lock_sem m) = 1 \<and> ws (wl m) \<noteq> []"
    then obtain t where t: "t \<in> T" "t \<in> set rs \<or> t = c" "\<exists>st. Sem_loop (lock_sem m) st \<in> set (kstack s t)"
      using parts by (simp add: inv_wake_def c_def s'_def) blast
    then have "t \<noteq> c" using k by (auto simp: c_def)
    then show "\<exists>t \<in> T. (t \<in> set rs \<or> True \<and> t = c) \<and> (\<exists>st. Sem_loop (lock_sem m) st \<in> set (kstack s' t))"
      using t by (intro bexI[of _ t]) (auto simp: s'_def)
  qed
  ultimately have "inv_at T L rs ws True s'" by (simp add: inv_at_def)
  moreover have "lock_acquire_tail l (s\<lparr>kstack := (kstack s)(c := [])\<rparr>) = Inr s'"
    using lk(4) h0 by (cases s) (simp add: lock_acquire_tail_def running_thread_def c_def s'_def Let_def)
  ultimately show ?thesis by (auto simp: c_def intro: fine_Inr)
qed

section \<open>Releasing\<close>

lemma release_last:
  assumes inv: "inv_at T L rs ws True s" and l: "l \<in> L" and k: "kstack s (running_thread s) = []"
    and hc: "holder (locks s l) = running_thread s"
    and w: "(ws (wl l) = [] \<and> rs' = rs \<and> ws' = ws \<and> P = pcbs s) \<or>
      (\<exists>w ys. ws (wl l) = w # ys \<and> rs' = w # rs \<and> ws' = ws(wl l := ys) \<and> P = (pcbs s)(w := (pcbs s w)\<lparr>status := TASK_READY\<rparr>))"
    and h: "lists_at h (queues L rs' ws' (ready_thread_list s))"
    and s': "s' = s\<lparr>lheap := h, pcbs := P, sem_value := (sem_value s)(lock_sem l := 1),
      locks := (locks s)(l := \<lparr>holder = 0, holder_repeat_num = 0\<rparr>)\<rparr>"
  shows "inv_at T L rs' ws' True s'"
proof -
  define c where "c = running_thread s"
  have c': "running_thread s' = c" by (simp add: s' running_thread_def c_def)
  note parts = inv[unfolded inv_at_def]
  have il: "inv_lists T L rs ws s" and ilk: "inv_locks T L s" and cT: "c \<in> T" and z: "0 \<notin> T"
    using parts by (simp_all add: inv_threads_def c_def)
  have memw: "set (ws' (wl m)) \<subseteq> set (ws (wl m))" for m using w by (auto split: if_splits)
  have memr: "t \<in> set rs' \<longleftrightarrow> t \<in> set rs \<or> (\<exists>ys. ws (wl l) = t # ys)" for t using w by auto
  have wT: "t \<in> T \<and> t \<noteq> idle_thread s \<and> t \<noteq> c \<and> t \<notin> set rs \<and> awaiting l (kstack s t)" if "t \<in> set (ws (wl l))" for t
    using that parts l inv_lists_disjoint[OF il l that] by (auto simp: inv_lists_def inv_status_def inv_frames_def c_def)
  have P: "status (P t) = (if t \<in> set rs' \<and> t \<notin> set rs then TASK_READY else status (pcbs s t))"
    "pgdir (P t) = pgdir (pcbs s t)" "stack_magic (P t) = stack_magic (pcbs s t)"
    "self_kernel_stack (P t) = self_kernel_stack (pcbs s t)" for t
    using w wT by auto
  have own: "owns s' m t \<longleftrightarrow> (if m = l then False else owns s m t)" if "t \<in> T" for m t
    using inv_locksD(2)[OF ilk l that cT] that z hc k by (auto simp: owns_def s' c_def)
  have "inv_lists T L rs' ws' s'"
    using il h memw memr wT unfolding inv_lists_def by (auto simp: s') blast+
  moreover have "inv_threads T s'"
    using parts P by (simp add: inv_threads_def c') (simp add: s' c_def)
  moreover have "inv_status T L rs' ws' True s'" unfolding inv_status_def c'
  proof (intro conjI ballI impI)
    show "status (pcbs s' t) = (if True \<and> t = c then TASK_RUNNING else if t \<in> set rs' then TASK_READY else TASK_BLOCKED)"
      if "t \<in> T" for t
      using that parts P(1)[of t] memr[of t] wT[of t] by (auto simp: inv_status_def s' c_def)
    show "c \<notin> set rs'" using memr[of c] wT[of c] parts by (auto simp: inv_status_def c_def)
    show "c \<notin> set (ws' (wl m))" if "m \<in> L" for m
      using that memw[of m] parts by (auto simp: inv_status_def c_def)
    fix t assume t: "t \<in> T" "t \<notin> set rs' \<and> \<not> (True \<and> t = c) \<and> t \<noteq> idle_thread s'"
    then obtain m where m: "m \<in> L" "t \<in> set (ws (wl m))" using parts memr by (auto simp: inv_status_def s' c_def)
    then have "t \<in> set (ws' (wl m))" using t(2) w by auto
    then show "\<exists>m \<in> L. t \<in> set (ws' (wl m))" using m by blast
  qed
  moreover have "inv_frames T L ws' s'"
    using parts memw[THEN subsetD] unfolding inv_frames_def c' by (simp add: s' c_def)
  moreover have "inv_locks T L s'" unfolding inv_locks_def
    using ilk own z unfolding inv_locks_def by (auto simp: s')
  moreover have "inv_wake T L rs' ws' True s'" unfolding inv_wake_def c'
  proof (intro ballI impI)
    fix m assume m: "m \<in> L" "sem_value s' (lock_sem m) = 1 \<and> ws' (wl m) \<noteq> []"
    show "\<exists>t \<in> T. (t \<in> set rs' \<or> True \<and> t = c) \<and> (\<exists>st. Sem_loop (lock_sem m) st \<in> set (kstack s' t))"
    proof (cases "m = l")
      case True
      then obtain t ys where t: "ws (wl l) = t # ys" using m(2) w by auto
      then have "t \<in> set rs'" "awaiting l (kstack s t)" "t \<in> T" using memr wT[of t] by auto
      then show ?thesis using True by (intro bexI[of _ t]) (auto simp: s' awaiting_def)
    next
      case False
      then have "sem_value s (lock_sem m) = 1 \<and> ws (wl m) \<noteq> []" using m(2) memw[of m] by (auto simp: s')
      then obtain t where "t \<in> T" "t \<in> set rs \<or> t = c" "\<exists>st. Sem_loop (lock_sem m) st \<in> set (kstack s t)"
        using parts m(1) by (simp add: inv_wake_def c_def) blast
      then show ?thesis using memr by (intro bexI[of _ t]) (auto simp: s')
    qed
  qed
  ultimately show ?thesis by (simp add: inv_at_def)
qed

text \<open>The part of \<^verbatim>\<open>sem_up\<close> that wakes the first thread that waits for the lock, if there is one.\<close>

lemma wake_first:
  fixes s1 :: "'a timer_state_scheme"
  assumes il: "inv_lists T L rs ws s" and ist: "inv_status T L rs ws True s" and l: "l \<in> L"
    and s1: "lheap s1 = lheap s" "pcbs s1 = pcbs s" "ready_thread_list s1 = ready_thread_list s" "\<not> bit (eflags s1) 9"
  obtains h P rs' ws' where "(if \<not> list_empty (sem_waiter (lock_sem l)) s1
       then let (tag, s) = list_pop (sem_waiter (lock_sem l)) s1 in thread_unlock (get_pcb tag) s
       else Inr s1) = Inr (s1\<lparr>lheap := h, pcbs := P\<rparr>)" "lists_at h (queues L rs' ws' (ready_thread_list s))"
    "(ws (wl l) = [] \<and> rs' = rs \<and> ws' = ws \<and> P = pcbs s) \<or>
     (\<exists>w ys. ws (wl l) = w # ys \<and> rs' = w # rs \<and> ws' = ws(wl l := ys) \<and> P = (pcbs s)(w := (pcbs s w)\<lparr>status := TASK_READY\<rparr>))"
proof -
  let ?r = "ready_thread_list s" and ?w = "wl l"
  let ?Q = "queues L rs ws ?r"
  have r: "?r \<notin> wl ` L" and q: "lists_at (lheap s) ?Q" using il by (simp_all add: inv_lists_def)
  have Qw: "?Q ?w = Some (map general_tag (ws ?w))" using l r by simp
  have empty: "list_empty (sem_waiter (lock_sem l)) s1 \<longleftrightarrow> ws ?w = []"
    using list_empty_ok[of s1 ?w] lists_atD(1)[OF q Qw] s1(1) by (simp add: wl_def)
  show ?thesis
  proof (cases "ws ?w")
    case Nil
    have "s1\<lparr>lheap := lheap s, pcbs := pcbs s\<rparr> = s1" using s1(1,2) by (cases s1) simp
    then show ?thesis using that[where h = "lheap s" and P = "pcbs s" and rs' = rs and ws' = ws] empty q Nil by simp
  next
    case (Cons w ys)
    have Qw': "?Q ?w = Some (general_tag w # map general_tag ys)" using Qw Cons by simp
    note pop = lists_at_pop[OF q Qw']
    let ?Q2 = "queues L rs (ws(?w := ys)) ?r" and ?h2 = "remove_heap (general_tag w) (lheap s)"
    have q2: "lists_at ?h2 ?Q2" using pop(2) queues_wait[OF l r, of rs ws ys] by simp
    have u: "unlinked (general_tag w) ?Q2"
      using unlinked_removed[of "lheap s" ?Q ?w "[]" "general_tag w" "map general_tag ys"] q Qw'
        queues_wait[OF l r, of rs ws ys] by simp
    have m: "w \<in> set (ws ?w)" using Cons by simp
    then have "w \<in> T" "w \<notin> set rs" "w \<noteq> running_thread s"
      using il ist l inv_lists_disjoint[OF il l m] unfolding inv_lists_def inv_status_def by blast+
    then have st: "status (pcbs s w) = TASK_BLOCKED" using ist by (simp add: inv_status_def)
    let ?s2 = "s1\<lparr>lheap := ?h2\<rparr>" and ?P = "(pcbs s)(w := (pcbs s w)\<lparr>status := TASK_READY\<rparr>)"
    have "can_unlock (status (pcbs ?s2 w))" using st s1(2) by (simp add: can_unlock_def)
    then obtain h where h: "thread_unlock w ?s2 = Inr (?s2\<lparr>pcbs := ?P, lheap := h\<rparr>)" "lists_at h (?Q2(?r \<mapsto> general_tag w # map general_tag rs))"
      using thread_unlock_ok[of ?s2 ?Q2 "map general_tag rs" w] q2 u s1 by auto
    have "lists_at h (queues L (w # rs) (ws(?w := ys)) ?r)"
      using h(2) queues_simps(3)[of L rs "ws(?w := ys)" ?r "w # rs"] by simp
    moreover have "?s2\<lparr>pcbs := ?P, lheap := h\<rparr> = s1\<lparr>lheap := h, pcbs := ?P\<rparr>" by (cases s1) simp
    ultimately show ?thesis using that[where h = h and P = ?P and rs' = "w # rs" and ws' = "ws(?w := ys)"] empty Cons pop(1) h(1) s1(1)
      by (simp add: list_pop_eq wl_def[symmetric])
  qed
qed

lemma release_fine:
  assumes inv: "inv_at T L rs ws True s" and k: "kstack s (running_thread s) = []" and a: "allowed L (Release l) s"
  shows "fine T L (lock_release l s)"
proof -
  define c where "c = running_thread s"
  note parts = inv[unfolded inv_at_def]
  have l: "l \<in> L" and hc: "holder (locks s l) = c" using a by (simp_all add: c_def)
  have il: "inv_lists T L rs ws s" and ilk: "inv_locks T L s" and ist: "inv_status T L rs ws True s" and cT: "c \<in> T" "c \<noteq> 0"
    using parts by (auto simp: inv_threads_def c_def)
  note lk = inv_locksD[OF ilk l]
  show ?thesis
  proof (cases "holder_repeat_num (locks s l) > 1")
    case True
    then have "holder_repeat_num (locks s l) - 1 \<noteq> 0" by auto
    then show ?thesis using True hc cT relock[OF inv l, of "holder_repeat_num (locks s l) - 1"]
      by (auto simp: lock_release_def c_def intro: fine_Inr)
  next
    case False
    define s0 where "s0 = s\<lparr>locks := (locks s)(l := \<lparr>holder = 0, holder_repeat_num = 0\<rparr>)\<rparr>"
    have rel: "lock_release l s = sem_up (lock_sem l) s0"
      using False hc by (simp add: lock_release_def c_def s0_def Let_def)
    obtain old x where d: "intr_disable s0 = (old, s0\<lparr>eflags := x\<rparr>)" "\<not> bit x 9" by (rule intr_disabled)
    let ?s1 = "s0\<lparr>eflags := x\<rparr>"
    have v0: "sem_value s (lock_sem l) = 0" using lk(1)[OF cT(1)] hc by (simp add: owns_def)
    have s1: "lheap ?s1 = lheap s" "pcbs ?s1 = pcbs s" "ready_thread_list ?s1 = ready_thread_list s" "\<not> bit (eflags ?s1) 9"
      using d(2) by (simp_all add: s0_def)
    obtain h P rs' ws' where up: "(if \<not> list_empty (sem_waiter (lock_sem l)) ?s1
           then let (tag, s) = list_pop (sem_waiter (lock_sem l)) ?s1 in thread_unlock (get_pcb tag) s
           else Inr ?s1) = Inr (?s1\<lparr>lheap := h, pcbs := P\<rparr>)"
      and lh: "lists_at h (queues L rs' ws' (ready_thread_list s))"
      and cs: "(ws (wl l) = [] \<and> rs' = rs \<and> ws' = ws \<and> P = pcbs s) \<or>
         (\<exists>w ys. ws (wl l) = w # ys \<and> rs' = w # rs \<and> ws' = ws(wl l := ys) \<and>
            P = (pcbs s)(w := (pcbs s w)\<lparr>status := TASK_READY\<rparr>))"
      by (rule wake_first[OF il ist l s1])
    define s' where "s' = s\<lparr>lheap := h, pcbs := P, sem_value := (sem_value s)(lock_sem l := 1),
      locks := (locks s)(l := \<lparr>holder = 0, holder_repeat_num = 0\<rparr>)\<rparr>"
    have inv': "inv_at T L rs' ws' True s'"
      using release_last[OF inv l k _ cs lh s'_def] hc by (simp add: c_def)
    let ?u = "?s1\<lparr>lheap := h, pcbs := P, sem_value := (sem_value s)(lock_sem l := 1)\<rparr>"
    have "sem_up (lock_sem l) s0 = Inr (snd (intr_set_status old ?u))"
      unfolding sem_up_def d(1) Let_def prod.case using up[unfolded Let_def] v0 by (simp add: s0_def)
    also have "snd (intr_set_status old ?u) = ?u\<lparr>eflags := eflags s0\<rparr>" by (rule intr_restore[OF d(1)]) simp
    also have "\<dots> = s'" by (cases s) (simp add: s'_def s0_def)
    finally show ?thesis using rel inv' by (auto intro: fine_Inr)
  qed
qed

section \<open>The top frame\<close>

lemma pop_frame:
  assumes inv: "inv_at T L rs ws True s" and c: "c = running_thread s" and k: "kstack s c = f # k"
    and f: "run_frame f (s\<lparr>kstack := (kstack s)(c := k)\<rparr>) = Inr (s\<lparr>kstack := (kstack s)(c := k), eflags := x\<rparr>)"
    and r: "at_rest L k \<or> (\<exists>l \<in> L. retrying l k \<and> awaiting l (f # k)) \<and> \<not> bit x 9"
    and p: "\<And>l. pending l (f # k) = pending l k" "\<And>m st. f \<noteq> Sem_loop m st"
  shows "fine T L (resume s)"
proof -
  note parts = inv[unfolded inv_at_def]
  have cT: "c \<in> T" using parts c by (simp add: inv_threads_def)
  define s' where "s' = s\<lparr>eflags := x, kstack := (kstack s)(c := k)\<rparr>"
  have sh: "shape L k" using r by (auto simp: shape_def)
  have "inv_at T L rs ws True s'"
  proof (rule reframe[OF inv c s'_def sh])
    show "at_rest L k" if "bit x 9" using r that by auto
    show "\<forall>l \<in> L. \<not> retrying l k \<and> \<not> awaiting l k" if "c = idle_thread s"
    proof -
      have "\<forall>l \<in> L. \<not> awaiting l (f # k)" using parts that k by (auto simp: inv_frames_def)
      then have "at_rest L k" using r by blast
      then show ?thesis by (auto simp: at_rest_def)
    qed
    show "pending l k = pending l (kstack s c)" for l using p(1)[of l] k by simp
    show "holder (locks s l) \<noteq> c" if "l \<in> L" "Lock_tail l \<in> set k" for l
      using parts that k cT by (auto simp: inv_locks_def)
    show "\<exists>st. Sem_loop (lock_sem l) st \<in> set k" if "Sem_loop (lock_sem l) st \<in> set (kstack s c)" for l st
      using that k p(2) by auto
  qed
  moreover have "resume s = Inr s'"
    using f k c by (cases s) (simp add: resume_def s'_def running_thread_def)
  ultimately show ?thesis by (auto intro: fine_Inr)
qed

lemma set_status_flags:
  obtains x where "snd (intr_set_status st s) = s\<lparr>eflags := x\<rparr>" "st = INTR_OFF \<Longrightarrow> \<not> bit x 9"
proof -
  have "st = INTR_OFF \<Longrightarrow> \<not> bit (eflags (snd (intr_set_status st s))) 9"
    using intr_disable_off[of s] by (simp add: intr_set_status_def status_iff)
  then show ?thesis using that intr_set_status_eflags[of st s] by metis
qed

lemma frame_fine:
  assumes inv: "inv_at T L rs ws True s" and ne: "kstack s (running_thread s) \<noteq> []"
  shows "fine T L (resume s)"
proof -
  define c where "c = running_thread s"
  note parts = inv[unfolded inv_at_def]
  have cT: "c \<in> T" using parts by (simp add: inv_threads_def c_def)
  have sh: "shape L (kstack s c)" using parts cT by (simp add: inv_frames_def)
  consider (hlt) "kstack s c = [Idle_hlt]" | (tail) l where "l \<in> L" "kstack s c = [Lock_tail l]"
    | (iret) fl k where "kstack s c = Iret fl # k" "at_rest L k"
    | (rest) st k where "kstack s c = Restore st # k" "k = [] \<or> k = [Idle_hlt]"
    | (kt) f a where "kstack s c = [Kernel_thread f a]"
    | (retry) l st where "l \<in> L" "kstack s c = [Sem_loop (lock_sem l) st, Lock_tail l]"
    | (await) l st where "l \<in> L" "kstack s c = [Restore INTR_OFF, Sem_loop (lock_sem l) st, Lock_tail l]"
    using sh ne unfolding shape_def at_rest_def retrying_def awaiting_def c_def by blast
  then show ?thesis
  proof cases
    case hlt
    show ?thesis by (rule pop_frame[OF inv c_def hlt, where x = "eflags s OR EFLAG_IF_ON"]) (auto simp: sti_def)
  next
    case tail
    then show ?thesis using lock_tail_fine[OF inv] by (simp add: resume_def c_def)
  next
    case iret
    show ?thesis by (rule pop_frame[OF inv c_def iret(1), where x = fl]) (use iret(2) in auto)
  next
    case rest
    obtain x where x: "snd (intr_set_status st (s\<lparr>kstack := (kstack s)(c := k)\<rparr>)) = s\<lparr>kstack := (kstack s)(c := k), eflags := x\<rparr>"
      using set_status_flags by metis
    show ?thesis by (rule pop_frame[OF inv c_def rest(1), where x = x]) (use x rest(2) in auto)
  next
    case kt
    obtain x where x: "kernel_thread (s\<lparr>kstack := (kstack s)(c := [])\<rparr>) = s\<lparr>kstack := (kstack s)(c := []), eflags := x\<rparr>"
      using set_status_flags[of INTR_ON] by (metis intr_set_status_def kernel_thread_def)
    show ?thesis by (rule pop_frame[OF inv c_def kt, where x = x]) (use x in \<open>auto simp: pending_def\<close>)
  next
    case retry
    have "\<not> bit (eflags s) 9"
    proof
      assume "bit (eflags s) 9"
      then have "at_rest L (kstack s c)" using parts by (simp add: inv_frames_def c_def)
      then show False using retry by (auto simp: at_rest_def)
    qed
    then show ?thesis using retry_inv[OF inv retry(1)] retry(2) by (simp add: resume_def c_def fine_def)
  next
    case await
    let ?k = "[Sem_loop (lock_sem l) st, Lock_tail l]"
    obtain x where x: "snd (intr_set_status INTR_OFF (s\<lparr>kstack := (kstack s)(c := ?k)\<rparr>)) = s\<lparr>kstack := (kstack s)(c := ?k), eflags := x\<rparr>"
        "\<not> bit x 9"
      using set_status_flags by metis
    have "retrying l ?k \<and> awaiting l (Restore INTR_OFF # ?k)" by simp
    then show ?thesis by (intro pop_frame[OF inv c_def await(2), where x = x]) (use x await(1) in \<open>auto intro: bexI[of _ l]\<close>)
  qed
qed

section \<open>Reachable states\<close>

lemma call_fine:
  assumes "inv_at T L rs ws True s" "kstack s (running_thread s) = []" "allowed L c s"
  shows "fine T L (exec c s)"
  using assms acquire_fine[OF assms(1,2)] release_fine[OF assms(1,2)] yield_fine[OF assms(1,2)] idle_fine[OF assms(1,2)]
  by (cases c) auto

lemma step_inv:
  assumes "inv T L s" "step L s s'"
  shows "inv T L s'"
  using assms(2,1)
proof cases
  case (call c)
  then show ?thesis using call_fine[of T L _ _ s c] assms(1) by (fastforce simp: inv_def fine_def)
next
  case frame
  then show ?thesis using frame_fine[of T L _ _ s] assms(1) by (fastforce simp: inv_def fine_def)
next
  case tick
  then show ?thesis using tick_fine[of T L _ _ s] assms(1) by (fastforce simp: inv_def fine_def)
qed

lemma reach_inv: "reach L s t \<Longrightarrow> inv T L s \<Longrightarrow> inv T L t"
  by (induction rule: reach.induct) (auto intro: step_inv)

lemma inv_list_at:
  assumes "inv_lists T L rs ws s"
  shows "list_at (lheap s) (ready_thread_list s) (map general_tag rs)"
    "l \<in> L \<Longrightarrow> list_at (lheap s) (wl l) (map general_tag (ws (wl l)))"
proof -
  let ?Q = "queues L rs ws (ready_thread_list s)"
  have q: "lists_at (lheap s) ?Q" "ready_thread_list s \<notin> wl ` L" using assms by (simp_all add: inv_lists_def)
  have r: "?Q (ready_thread_list s) = Some (map general_tag rs)" by simp
  show "list_at (lheap s) (ready_thread_list s) (map general_tag rs)" by (rule lists_atD(1)[OF q(1) r])
  have w: "?Q (wl l) = Some (map general_tag (ws (wl l)))" if "l \<in> L" using that q(2) by simp
  show "list_at (lheap s) (wl l) (map general_tag (ws (wl l)))" if "l \<in> L" by (rule lists_atD(1)[OF q(1) w[OF that]])
qed

section \<open>Properties\<close>

text \<open>
  C1: mutual exclusion. From a state that satisfies the invariant, whatever the threads call and
  whenever the timer interrupts them, no lock is ever owned by two threads, where a thread owns a
  lock from the moment it has taken the semaphore, even before it has entered itself as the
  holder; and the semaphore of an owned lock is 0.
\<close>

theorem lock_mutual_exclusion:
  assumes "inv T L s" and "reach L s t" and "l \<in> L"
    and "u \<in> T" and "owns t l u"
  shows "sem_value t (lock_sem l) = 0 \<and> (\<forall>v \<in> T. owns t l v \<longrightarrow> v = u)"
proof -
  have "inv_locks T L t" using reach_inv[OF assms(2,1)] by (auto simp: inv_def inv_at_def)
  then show ?thesis using inv_locksD(1,2)[of T L t l u] inv_locksD(2)[of T L t l _ u] assms(3-5) by blast
qed

text \<open>
  C3: the scheduler's books are right in every reachable state: the thread on the processor is the
  only one marked running, and the ready list is a well linked list of exactly the threads marked
  ready, each once.
\<close>

theorem ready_list_exact:
  assumes "inv T L s" and "reach L s t"
  shows "(\<forall>u \<in> T. status (pcbs t u) = TASK_RUNNING \<longleftrightarrow> u = running_thread t) \<and> running_thread t \<in> T \<and>
    (\<exists>rs. list_at (lheap t) (ready_thread_list t) (map general_tag rs) \<and> distinct rs \<and>
       set rs = {u \<in> T. status (pcbs t u) = TASK_READY})"
proof -
  obtain rs ws where i: "inv_at T L rs ws True t" using reach_inv[OF assms(2,1)] by (auto simp: inv_def)
  note parts = i[unfolded inv_at_def]
  have st: "\<forall>u \<in> T. status (pcbs t u) = (if u = running_thread t then TASK_RUNNING
        else if u \<in> set rs then TASK_READY else TASK_BLOCKED)" "running_thread t \<notin> set rs"
    using parts by (simp_all add: inv_status_def)
  have l: "list_at (lheap t) (ready_thread_list t) (map general_tag rs)" "set rs \<subseteq> T"
    using parts inv_list_at(1)[of T L rs ws t] by (auto simp: inv_lists_def)
  have "set rs = {u \<in> T. status (pcbs t u) = TASK_READY}" using st l(2) by (auto split: if_splits)
  then show ?thesis using l(1) st parts inv_lists_distinct(1)[of T L rs ws t]
    by (auto simp: inv_threads_def)
qed

text \<open>
  C2: no reachable state is stuck on a failed assertion: every call a thread is allowed to make,
  every frame that is left to execute and every timer interrupt returns a state, in which the
  invariant holds again.
\<close>

theorem steps_never_fail:
  assumes "inv T L s" and "reach L s t"
  shows "(kstack t (running_thread t) = [] \<and> allowed L c t \<longrightarrow> (\<exists>t'. exec c t = Inr t' \<and> inv T L t')) \<and>
    (kstack t (running_thread t) \<noteq> [] \<longrightarrow> (\<exists>t'. resume t = Inr t' \<and> inv T L t')) \<and>
    (bit (eflags t) 9 \<longrightarrow> (\<exists>t'. timer_interrupt t = Inr t' \<and> inv T L t'))"
proof -
  obtain rs ws where i: "inv_at T L rs ws True t" using reach_inv[OF assms(2,1)] by (auto simp: inv_def)
  show ?thesis using call_fine[OF i] frame_fine[OF i] tick_fine[OF i] unfolding fine_def by blast
qed

text \<open>
  C4: no wake-up is lost: in every reachable state, if the semaphore of a lock is free while
  threads wait for it, some thread that is ready or running is on its way to try again.
\<close>

theorem free_lock_has_woken_waiter:
  assumes "inv T L s" and "reach L s t" and "l \<in> L" and "sem_value t (lock_sem l) = 1"
    and "list_at (lheap t) (wl l) (w # ys)"
  shows "\<exists>u \<in> T. (status (pcbs t u) = TASK_READY \<or> u = running_thread t) \<and>
    (\<exists>st. Sem_loop (lock_sem l) st \<in> set (kstack t u))"
proof -
  obtain rs ws where i: "inv_at T L rs ws True t" using reach_inv[OF assms(2,1)] by (auto simp: inv_def)
  note parts = i[unfolded inv_at_def]
  have "list_at (lheap t) (wl l) (map general_tag (ws (wl l)))"
    using parts inv_list_at(2)[OF _ assms(3)] by blast
  then have "ws (wl l) \<noteq> []" using list_at_unique[OF assms(5)] by fastforce
  then obtain u where "u \<in> T" "u \<in> set rs \<or> u = running_thread t" "\<exists>st. Sem_loop (lock_sem l) st \<in> set (kstack t u)"
    using parts assms(3,4) unfolding inv_wake_def by blast
  moreover from this have "status (pcbs t u) = TASK_READY \<or> u = running_thread t" using parts by (auto simp: inv_status_def)
  ultimately show ?thesis by blast
qed

section \<open>Witnesses\<close>

definition sample_threads :: "u32 set" where "sample_threads = {0xc009e000, 0xc0101000}"
definition sample_locks :: "u32 set" where "sample_locks = {0xc0008000}"

lemma sample_running: "running_thread sample_state = 0xc009e000"
  by (simp add: running_thread_def sample_state_def)

lemma sample_inv: "inv sample_threads sample_locks sample_state"
proof -
  have w: "wl 0xc0008000 = 0xc0008008" by (simp add: wl_def sem_waiter_def lock_sem_def)
  have "lists_at (lheap sample_state) (queues sample_locks [] (\<lambda>_. []) 0xc0007000)"
    by (auto simp: lists_at_def list_at_def queues_def nodes_def head_of_def tail_of_def sample_locks_def w
        sample_state_def empty_list_nodes_def split: if_splits)
  then have "inv_lists sample_threads sample_locks [] (\<lambda>_. []) sample_state"
    by (simp add: inv_lists_def sample_locks_def sample_threads_def w general_tag_def) (simp add: sample_state_def)
  moreover have "inv_threads sample_threads sample_state"
    by (simp add: inv_threads_def sample_threads_def sample_running)
      (simp add: sample_state_def sample_pcb_def frame_of_def)
  moreover have "inv_status sample_threads sample_locks [] (\<lambda>_. []) True sample_state"
    by (simp add: inv_status_def sample_threads_def sample_running) (simp add: sample_state_def sample_pcb_def)
  moreover have "inv_frames sample_threads sample_locks (\<lambda>_. []) sample_state"
    by (simp add: inv_frames_def sample_threads_def sample_running) (simp add: sample_state_def)
  moreover have "inv_locks sample_threads sample_locks sample_state"
    by (simp add: inv_locks_def sample_threads_def owns_def) (simp add: sample_state_def)
  moreover have "inv_wake sample_threads sample_locks [] (\<lambda>_. []) True sample_state"
    by (simp add: inv_wake_def)
  ultimately show ?thesis unfolding inv_def inv_at_def by blast
qed

lemma sample_acquire:
  "exec (Acquire 0xc0008000) sample_state =
     Inr (sample_state\<lparr>kstack := (kstack sample_state)(0xc009e000 := [Lock_tail 0xc0008000]),
       sem_value := (\<lambda>_. 1)(0xc0008004 := 0)\<rparr>)" (is "_ = Inr ?t")
proof -
  let ?s = "sample_state\<lparr>kstack := (kstack sample_state)(0xc009e000 := [Lock_tail 0xc0008000])\<rparr>"
  have fl: "\<not> bit (eflags ?s) 9" "\<not> bit (eflags ?t) 9" by (simp_all add: sample_state_def bit_numeral_simps)
  have off': "snd (intr_set_status INTR_OFF ?t) = ?t"
    using intr_already_off[OF fl(2)] by (simp add: intr_set_status_def)
  have s: "holder (locks sample_state 0xc0008000) = 0" "kstack sample_state 0xc009e000 = []"
      "sem_value sample_state = (\<lambda>_. 1)" by (simp_all add: sample_state_def)
  show ?thesis using intr_already_off[OF fl(1)] off' s
    by (simp add: lock_acquire_def sample_running push_frame_def sem_down_def sem_down_loop_def lock_sem_def)
qed

theorem lock_mutual_exclusion_witness:
  "\<exists>t. reach sample_locks sample_state t \<and> owns t 0xc0008000 0xc009e000 \<and>
     sem_value t (lock_sem 0xc0008000) = 0 \<and> \<not> owns t 0xc0008000 0xc0101000"
proof -
  obtain t where t: "exec (Acquire 0xc0008000) sample_state = Inr t"
      "kstack t 0xc009e000 = [Lock_tail 0xc0008000]" using sample_acquire by simp
  have "kstack sample_state (running_thread sample_state) = []" "allowed sample_locks (Acquire 0xc0008000) sample_state"
    by (simp_all add: sample_running sample_locks_def) (simp_all add: sample_state_def)
  then have r: "reach sample_locks sample_state t" using t(1) by (blast intro: reach.intros step.call)
  have o: "owns t 0xc0008000 0xc009e000" using t(2) by (simp add: owns_def)
  show ?thesis using r o
      lock_mutual_exclusion[OF sample_inv r, of "0xc0008000" "0xc009e000"]
    by (auto simp: sample_locks_def sample_threads_def)
qed

theorem ready_list_exact_witness:
  "running_thread sample_state \<in> sample_threads \<and> (\<exists>rs. list_at (lheap sample_state) 0xc0007000 (map general_tag rs) \<and>
     set rs = {u \<in> sample_threads. status (pcbs sample_state u) = TASK_READY})"
  using ready_list_exact[OF sample_inv reach.start] by (auto simp: sample_state_def)

theorem steps_never_fail_witness:
  "\<exists>t'. exec (Acquire 0xc0008000) sample_state = Inr t' \<and> inv sample_threads sample_locks t'"
proof -
  have "kstack sample_state (running_thread sample_state) = []" "allowed sample_locks (Acquire 0xc0008000) sample_state"
    by (simp_all add: sample_running sample_locks_def) (simp_all add: sample_state_def)
  then show ?thesis using steps_never_fail[OF sample_inv reach.start, of "Acquire 0xc0008000"] by blast
qed

text \<open>
  A state in which the lock is free, a thread at 0xc0103000 waits for it, and another one, at
  0xc0102000, has been woken.
\<close>

definition contended_state :: "unit timer_state_scheme" where
  "contended_state = sample_state\<lparr>
     lheap := insert_heap (tail_of 0xc0007000) (general_tag 0xc0102000)
       (insert_heap (tail_of 0xc0008008) (general_tag 0xc0103000) (lheap sample_state)),
     pcbs := (pcbs sample_state)(0xc0102000 := sample_pcb 0xc0102000 TASK_READY),
     kstack := (kstack sample_state)(
       0xc0102000 := [Restore INTR_OFF, Sem_loop 0xc0008004 INTR_ON, Lock_tail 0xc0008000],
       0xc0103000 := [Restore INTR_OFF, Sem_loop 0xc0008004 INTR_ON, Lock_tail 0xc0008000])\<rparr>"

definition contended_threads :: "u32 set" where
  "contended_threads = {0xc009e000, 0xc0101000, 0xc0102000, 0xc0103000}"

lemma contended_lists:
  "lists_at (lheap contended_state) (queues sample_locks [0xc0102000] (\<lambda>_. [0xc0103000]) 0xc0007000)"
proof -
  have w: "wl 0xc0008000 = 0xc0008008" by (simp add: wl_def sem_waiter_def lock_sem_def)
  let ?r = "0xc0007000" and ?w = "0xc0008008"
  let ?Q0 = "[?r \<mapsto> [], ?w \<mapsto> []] :: u32 \<rightharpoonup> u32 list"
  have 0: "lists_at (lheap sample_state) ?Q0"
    by (auto simp: lists_at_def list_at_def nodes_def head_of_def tail_of_def sample_state_def empty_list_nodes_def split: if_splits)
  have "lists_at (insert_heap (tail_of ?w) (general_tag 0xc0103000) (lheap sample_state)) (?Q0(?w \<mapsto> [] @ [general_tag 0xc0103000]))"
    (is "lists_at ?h1 ?Q1")
    by (rule lists_at_append[OF 0]) (auto simp: unlinked_def nodes_def head_of_def tail_of_def general_tag_def split: if_splits)
  then have "lists_at (insert_heap (tail_of ?r) (general_tag 0xc0102000) ?h1) (?Q1(?r \<mapsto> [] @ [general_tag 0xc0102000]))"
    by (rule lists_at_append) (auto simp: unlinked_def nodes_def head_of_def tail_of_def general_tag_def split: if_splits)
  moreover have "?Q1(?r \<mapsto> [] @ [general_tag 0xc0102000]) = queues sample_locks [0xc0102000] (\<lambda>_. [0xc0103000]) ?r"
    by (auto simp: queues_def sample_locks_def w)
  ultimately show ?thesis by (simp add: contended_state_def)
qed

lemma contended_running: "running_thread contended_state = 0xc009e000"
  by (simp add: running_thread_def contended_state_def sample_state_def)

lemma contended_inv: "inv contended_threads sample_locks contended_state"
proof -
  have w: "wl 0xc0008000 = 0xc0008008" "lock_sem 0xc0008000 = 0xc0008004"
    by (simp_all add: wl_def sem_waiter_def lock_sem_def)
  have f: "ready_thread_list contended_state = 0xc0007000" "idle_thread contended_state = 0xc0101000"
    "sem_value contended_state = (\<lambda>_. 1)" "locks contended_state = (\<lambda>_. \<lparr>holder = 0, holder_repeat_num = 0\<rparr>)"
    "eflags contended_state = 2"
    by (simp_all add: contended_state_def sample_state_def)
  have k: "kstack contended_state 0xc009e000 = []" "kstack contended_state 0xc0101000 = [Restore INTR_OFF, Idle_hlt]"
    "kstack contended_state 0xc0102000 = [Restore INTR_OFF, Sem_loop (lock_sem 0xc0008000) INTR_ON, Lock_tail 0xc0008000]"
    "kstack contended_state 0xc0103000 = [Restore INTR_OFF, Sem_loop (lock_sem 0xc0008000) INTR_ON, Lock_tail 0xc0008000]"
    by (simp_all add: contended_state_def sample_state_def w)
  have "inv_lists contended_threads sample_locks [0xc0102000] (\<lambda>_. [0xc0103000]) contended_state"
    using contended_lists by (simp add: inv_lists_def f sample_locks_def contended_threads_def w general_tag_def)
  moreover have "inv_threads contended_threads contended_state"
    by (simp add: inv_threads_def contended_threads_def contended_running f)
      (simp add: contended_state_def sample_state_def sample_pcb_def frame_of_def)
  moreover have "inv_status contended_threads sample_locks [0xc0102000] (\<lambda>_. [0xc0103000]) True contended_state"
    by (simp add: inv_status_def contended_threads_def contended_running f sample_locks_def)
      (simp add: contended_state_def sample_state_def sample_pcb_def)
  moreover have "inv_frames contended_threads sample_locks (\<lambda>_. [0xc0103000]) contended_state"
    by (simp add: inv_frames_def contended_threads_def contended_running f sample_locks_def k)
  moreover have "inv_locks contended_threads sample_locks contended_state"
    by (simp add: inv_locks_def contended_threads_def owns_def f k)
  moreover have "inv_wake contended_threads sample_locks [0xc0102000] (\<lambda>_. [0xc0103000]) True contended_state"
    by (simp add: inv_wake_def contended_threads_def sample_locks_def k)
  ultimately show ?thesis unfolding inv_def inv_at_def by blast
qed

theorem free_lock_has_woken_waiter_witness:
  "\<exists>u \<in> contended_threads. (status (pcbs contended_state u) = TASK_READY \<or> u = 0xc009e000) \<and>
    (\<exists>st. Sem_loop (lock_sem 0xc0008000) st \<in> set (kstack contended_state u))"
proof -
  have w: "wl 0xc0008000 = 0xc0008008" by (simp add: wl_def sem_waiter_def lock_sem_def)
  have "list_at (lheap contended_state) (wl 0xc0008000) [general_tag 0xc0103000]"
    using lists_atD(1)[OF contended_lists, of "0xc0008008"] by (simp add: w queues_def sample_locks_def)
  moreover have "sem_value contended_state (lock_sem 0xc0008000) = 1" by (simp add: contended_state_def sample_state_def)
  ultimately show ?thesis
    using free_lock_has_woken_waiter[OF contended_inv reach.start, of "0xc0008000"] contended_running
    by (simp add: sample_locks_def)
qed

end
