(* ===== verification/Memory.thy ===== *)
theory Memory
  imports Timer
begin

text \<open>
  Ranges of pages (\<^verbatim>\<open>kernel/memory.c\<close>, with the theories Paging before and Heap after it):
  the set-up of the pools at boot, and pages of virtual addresses that are mapped to frames and given
  back.

  A pool of frames or of virtual addresses that the source reaches through a pointer is selected by
  the flag. A routine that takes the lock of a pool is followed without interruption, as in
  \<open>lock_acquire_now\<close>.

  Shown: the pools set up at boot are disjoint, lie in memory and are empty; \<^verbatim>\<open>malloc_pages\<close>
  maps pages that were unmapped to distinct frames that were free, changes no other translation, and
  \<^verbatim>\<open>free_pages\<close> gives back exactly what it took; the first frame of the user pool cannot be
  freed.
\<close>

section \<open>Selecting a pool\<close>

datatype pool_flags = PF_KERNEL | PF_USER

definition the_pool :: "pool_flags \<Rightarrow> 'a mem_state_scheme \<Rightarrow> pool" where
  "the_pool PF s = (case PF of PF_KERNEL \<Rightarrow> kernel_pool s | PF_USER \<Rightarrow> user_pool s)"

definition set_pool :: "pool_flags \<Rightarrow> pool \<Rightarrow> 'a mem_state_scheme \<Rightarrow> 'a mem_state_scheme" where
  "set_pool PF p s = (case PF of PF_KERNEL \<Rightarrow> s\<lparr>kernel_pool := p\<rparr> | PF_USER \<Rightarrow> s\<lparr>user_pool := p\<rparr>)"

definition the_vaddrs :: "pool_flags \<Rightarrow> 'a thread_state_scheme \<Rightarrow> virtual_addrs" where
  "the_vaddrs PF s = (case PF of PF_KERNEL \<Rightarrow> kernel_vaddr s | PF_USER \<Rightarrow> userprog_vaddr (pcbs s (running_thread s)))"

definition set_vaddrs :: "pool_flags \<Rightarrow> virtual_addrs \<Rightarrow> 'a thread_state_scheme \<Rightarrow> 'a thread_state_scheme" where
  "set_vaddrs PF v s =
     (case PF of PF_KERNEL \<Rightarrow> s\<lparr>kernel_vaddr := v\<rparr>
      | PF_USER \<Rightarrow> upd_pcb (running_thread s) (\<lambda>p. p\<lparr>userprog_vaddr := v\<rparr>) s)"

section \<open>Boot\<close>

definition KERNEL_HEAP_START :: u32 where "KERNEL_HEAP_START = 0xc0100000"
definition KERNEL_BITMAP_START :: u32 where "KERNEL_BITMAP_START = 0xc009a000"

text \<open>
  \<open>raw\<close> gives the bytes that stand in memory where the bitmaps are put. The object of a bitmap
  includes the byte behind it, which \<^verbatim>\<open>bitmap_scan\<close> may read.
\<close>

definition bitmap_at :: "(u32 \<Rightarrow> u8) \<Rightarrow> u32 \<Rightarrow> u32 \<Rightarrow> bitmap" where
  "bitmap_at raw a len = \<lparr>bitmap_len = len, bits = map (\<lambda>i. raw (a + of_nat i)) [0..<unat len + 1]\<rparr>"

definition mem_pool_init :: "(u32 \<Rightarrow> u8) \<Rightarrow> u32 \<Rightarrow> 'a thread_state_scheme \<Rightarrow> error + 'a thread_state_scheme" where
  "mem_pool_init raw all_mem s =
     (let page_table_size = PAGE_SIZE * 256;
          kernel_pool_start_addr = page_table_size + 0x00100000;
          free_mem = all_mem - kernel_pool_start_addr;
          free_mem_page = free_mem div PAGE_SIZE;
          kernel_mem_page = ucast (free_mem_page div 2) :: u16;
          user_mem_page = ucast (free_mem_page - ucast kernel_mem_page) :: u16;
          user_pool_start_addr = kernel_pool_start_addr + ucast kernel_mem_page * PAGE_SIZE;
          kernel_len = ucast (kernel_mem_page div 8) :: u32;
          user_len = ucast (user_mem_page div 8) :: u32;
          kernel_bits = KERNEL_BITMAP_START;
          user_bits = KERNEL_BITMAP_START + kernel_len;
          s = s\<lparr>kernel_pool := (kernel_pool s)\<lparr>pool_bitmap := bitmap_at raw kernel_bits kernel_len,
                 phy_start_addr := kernel_pool_start_addr, mem_size := ucast kernel_mem_page * PAGE_SIZE\<rparr>\<rparr>;
          s = lock_init (pool_lock (kernel_pool s)) s;
          s = s\<lparr>user_pool := (user_pool s)\<lparr>pool_bitmap := bitmap_at raw user_bits user_len,
                 phy_start_addr := user_pool_start_addr, mem_size := ucast user_mem_page * PAGE_SIZE\<rparr>\<rparr>;
          s = lock_init (pool_lock (user_pool s)) s;
          s = putStr ''    kernel_pool_bitmap_start: '' s;
          s = putInt kernel_bits s;
          s = putStr ''    kernel_pool_phy_start: '' s;
          s = putInt (phy_start_addr (kernel_pool s)) s;
          s = putChar 10 s;
          s = putStr ''    user_pool_bitmap_start:   '' s;
          s = putInt user_bits s;
          s = putStr ''    user_pool_phy_start: '' s;
          s = putInt (phy_start_addr (user_pool s)) s;
          s = putChar 10 s
      in bnd (bitmap_init (pool_bitmap (kernel_pool s))) (\<lambda>b.
         let s = s\<lparr>kernel_pool := (kernel_pool s)\<lparr>pool_bitmap := b\<rparr>\<rparr> in
         bnd (bitmap_init (pool_bitmap (user_pool s))) (\<lambda>b.
         let s = s\<lparr>user_pool := (user_pool s)\<lparr>pool_bitmap := b\<rparr>\<rparr>;
             vb = bitmap_at raw (user_bits + bitmap_len (pool_bitmap (user_pool s))) (bitmap_len (pool_bitmap (kernel_pool s)))
         in bnd (bitmap_init vb) (\<lambda>b.
         let s = s\<lparr>kernel_vaddr := \<lparr>vaddr_bitmap = b, vaddr_start = KERNEL_HEAP_START\<rparr>\<rparr>
         in Inr (putStr ''mem pool init done\<newline>'' s)))))"

section \<open>Ranges of pages\<close>

text \<open>The loops that set or clear \<open>n\<close> consecutive bits.\<close>

fun set_run :: "bitmap \<Rightarrow> u32 \<Rightarrow> u8 \<Rightarrow> nat \<Rightarrow> error + bitmap" where
  "set_run b idx value 0 = Inr b"
| "set_run b idx value (Suc n) = bnd (bitmap_set b idx value) (\<lambda>b. set_run b (idx + 1) value n)"

definition vaddr_get_pages :: "pool_flags \<Rightarrow> u32 \<Rightarrow> 'a thread_state_scheme \<Rightarrow> error + (u32 \<times> 'a thread_state_scheme)" where
  "vaddr_get_pages PF page_cnt s =
     (let va = the_vaddrs PF s in
      bnd (bitmap_scan (vaddr_bitmap va) page_cnt) (\<lambda>bitstart.
      if bitstart = -1 then Inr (0, s)
      else bnd (set_run (vaddr_bitmap va) bitstart 1 (unat page_cnt)) (\<lambda>b.
           let s = set_vaddrs PF (va\<lparr>vaddr_bitmap := b\<rparr>) s;
               alloced_pages_addr = vaddr_start va + PAGE_SIZE * bitstart
           in if PF = PF_KERNEL then Inr (alloced_pages_addr, s)
              else bnd (ASSERT (alloced_pages_addr < 0xc0000000 - PAGE_SIZE)
                     ''(uint32_t)alloced_pages_addr < (0xc0000000 - PAGE_SIZE)'') (\<lambda>_.
                   Inr (alloced_pages_addr, s)))))"

text \<open>The loop of \<^verbatim>\<open>malloc_pages\<close>: \<open>None\<close> when no frame is left.\<close>

fun map_pages :: "pool_flags \<Rightarrow> u32 \<Rightarrow> nat \<Rightarrow> 'a thread_state_scheme \<Rightarrow> error + (bool \<times> 'a thread_state_scheme)" where
  "map_pages PF vir_alloc_addr 0 s = Inr (True, s)"
| "map_pages PF vir_alloc_addr (Suc n) s =
     bnd (palloc (the_pool PF s)) (\<lambda>(phy_alloc_addr, p).
     let s = set_pool PF p s in
     if phy_alloc_addr = 0 then Inr (False, s)
     else bnd (page_table_add vir_alloc_addr phy_alloc_addr s) (\<lambda>s.
          map_pages PF (vir_alloc_addr + PAGE_SIZE) n s))"

definition malloc_pages :: "pool_flags \<Rightarrow> u32 \<Rightarrow> 'a thread_state_scheme \<Rightarrow> error + (u32 \<times> 'a thread_state_scheme)" where
  "malloc_pages PF cnt_pages s =
     bnd (ASSERT (cnt_pages > 0 \<and> cnt_pages < 3840) ''cnt_pages > 0 && cnt_pages < 3840'') (\<lambda>_.
     bnd (vaddr_get_pages PF cnt_pages s) (\<lambda>(vir_alloc_addr, s).
     if vir_alloc_addr = 0 then Inr (0, s)
     else bnd (map_pages PF vir_alloc_addr (unat cnt_pages) s) (\<lambda>(ok, s).
          Inr (if ok then vir_alloc_addr else 0, s))))"

text \<open>
  \<^verbatim>\<open>memset\<close> with value 0 on \<open>n\<close> bytes from an address that is a multiple of 4. The nodes of
  lists that start in the range are cleared in the node store.
\<close>

definition zero_nodes :: "u32 \<Rightarrow> u32 \<Rightarrow> (u32 \<Rightarrow> list_elem) \<Rightarrow> (u32 \<Rightarrow> list_elem)" where
  "zero_nodes va n h = (\<lambda>a. if a - va < n then \<lparr>l_prev = 0, l_next = 0\<rparr> else h a)"

definition memset_0 :: "u32 \<Rightarrow> u32 \<Rightarrow> 'a mem_state_scheme \<Rightarrow> error + 'a mem_state_scheme" where
  "memset_0 va n s =
     bnd (ASSERT (va \<noteq> 0) ''dst != 0'') (\<lambda>_.
     bnd (zero_words va (unat n div 4) s) (\<lambda>s.
     bnd (if n mod 4 = 0 then Inr s
          else let last = va + (n - n mod 4) in
               bnd (load_word last s) (\<lambda>w. store_word last (w AND NOT (mask (8 * unat (n mod 4)))) s)) (\<lambda>s.
     Inr (s\<lparr>lheap := zero_nodes va n (lheap s)\<rparr>))))"

definition malloc_kernel_pages :: "u32 \<Rightarrow> 'a thread_state_scheme \<Rightarrow> error + (u32 \<times> 'a thread_state_scheme)" where
  "malloc_kernel_pages cnt s =
     bnd (malloc_pages PF_KERNEL cnt s) (\<lambda>(vaddr, s).
     bnd (if vaddr \<noteq> 0 then memset_0 vaddr (PAGE_SIZE * cnt) s else Inr s) (\<lambda>s.
     Inr (vaddr, s)))"

definition malloc_user_pages :: "u32 \<Rightarrow> 'a thread_state_scheme \<Rightarrow> error + (u32 \<times> 'a thread_state_scheme)" where
  "malloc_user_pages cnt s =
     bnd (lock_acquire_now (pool_lock (user_pool s)) s) (\<lambda>s.
     bnd (malloc_pages PF_USER cnt s) (\<lambda>(vaddr, s).
     bnd (memset_0 vaddr cnt s) (\<lambda>s.
     bnd (lock_release (pool_lock (user_pool s)) s) (\<lambda>s.
     Inr (vaddr, s)))))"

text \<open>\<^verbatim>\<open>bit_index\<close> is an \<^verbatim>\<open>int\<close>, so the assertion compares it as signed.\<close>

definition get_a_page :: "pool_flags \<Rightarrow> u32 \<Rightarrow> 'a thread_state_scheme \<Rightarrow> error + (u32 \<times> 'a thread_state_scheme)" where
  "get_a_page PF vaddr s =
     bnd (lock_acquire_now (pool_lock (the_pool PF s)) s) (\<lambda>s.
     let pgd = pgdir (pcbs s (running_thread s)) in
     bnd (if (pgd \<noteq> 0 \<and> PF = PF_USER) \<or> (pgd = 0 \<and> PF = PF_KERNEL)
          then let va = the_vaddrs PF s; bit_index = (vaddr - vaddr_start va) div PAGE_SIZE in
               bnd (ASSERT (0 <s bit_index) ''bit_index > 0'') (\<lambda>_.
               bnd (bitmap_set (vaddr_bitmap va) bit_index 1) (\<lambda>b.
               Inr (set_vaddrs PF (va\<lparr>vaddr_bitmap := b\<rparr>) s)))
          else Inr s) (\<lambda>s.
     bnd (palloc (the_pool PF s)) (\<lambda>(phy_addr, p).
     bnd (page_table_add vaddr phy_addr (set_pool PF p s)) (\<lambda>s.
     bnd (lock_release (pool_lock (the_pool PF s)) s) (\<lambda>s.
     Inr (vaddr, s))))))"

definition vaddr_remove_pages :: "pool_flags \<Rightarrow> u32 \<Rightarrow> u32 \<Rightarrow> 'a thread_state_scheme \<Rightarrow> error + 'a thread_state_scheme" where
  "vaddr_remove_pages PF cnt_pages vaddr s =
     (let vir_addrs = the_vaddrs PF s;
          vaddr_idx = (vaddr - vaddr_start vir_addrs) div PAGE_SIZE
      in bnd (set_run (vaddr_bitmap vir_addrs) vaddr_idx 0 (unat cnt_pages)) (\<lambda>b.
         Inr (set_vaddrs PF (vir_addrs\<lparr>vaddr_bitmap := b\<rparr>) s)))"

text \<open>
  The loop of \<^verbatim>\<open>free_pages\<close>; \<open>user\<close> says in which of the two branches it is. The frame of
  the next page is looked up before the counter is tested.
\<close>

fun unmap_pages :: "bool \<Rightarrow> u32 \<Rightarrow> u32 \<Rightarrow> nat \<Rightarrow> 'a thread_state_scheme \<Rightarrow> error + 'a thread_state_scheme" where
  "unmap_pages user phy_addr vaddr 0 s = Inr s"
| "unmap_pages user phy_addr vaddr (Suc n) s =
     bnd (if user
          then ASSERT (phy_addr mod PAGE_SIZE = 0 \<and> phy_addr \<ge> phy_start_addr (user_pool s))
                 ''(phy_addr % PAGE_SIZE) == 0 && phy_addr >= user_pool.phy_start_addr''
          else ASSERT (phy_addr mod PAGE_SIZE = 0 \<and> phy_addr < phy_start_addr (user_pool s) \<and>
                   phy_addr \<ge> phy_start_addr (kernel_pool s))
                 ''(phy_addr % PAGE_SIZE) == 0 && phy_addr < user_pool.phy_start_addr && phy_addr >= kernel_pool.phy_start_addr'') (\<lambda>_.
     bnd (pfree phy_addr s) (\<lambda>s.
     bnd (page_table_pte_remove vaddr s) (\<lambda>s.
     bnd (addr_virtual_to_phy (vaddr + PAGE_SIZE) s) (\<lambda>phy_addr.
     unmap_pages user phy_addr (vaddr + PAGE_SIZE) n s))))"

definition free_pages :: "pool_flags \<Rightarrow> u32 \<Rightarrow> u32 \<Rightarrow> 'a thread_state_scheme \<Rightarrow> error + 'a thread_state_scheme" where
  "free_pages PF cnt_pages vaddr s =
     bnd (ASSERT (cnt_pages \<ge> 1 \<and> vaddr mod PAGE_SIZE = 0) ''cnt_pages >= 1 && vaddr % PAGE_SIZE == 0'') (\<lambda>_.
     bnd (addr_virtual_to_phy vaddr s) (\<lambda>phy_addr.
     bnd (ASSERT (phy_addr mod PAGE_SIZE = 0 \<and> phy_addr \<ge> 0x102000)
       ''(phy_addr % PAGE_SIZE) == 0 && phy_addr >= 0x102000'') (\<lambda>_.
     bnd (unmap_pages (phy_addr > phy_start_addr (user_pool s)) phy_addr vaddr (unat cnt_pages) s) (\<lambda>s.
     vaddr_remove_pages PF cnt_pages vaddr s))))"

section \<open>Runs of bits\<close>

lemma set_run_ok:
  "\<lbrakk> unat i + n \<le> 8 * length (bits b); unat i + n < 2 ^ 32; v = 0 \<or> v = 1 \<rbrakk> \<Longrightarrow>
   \<exists>b'. set_run b i v n = Inr b' \<and> bitmap_len b' = bitmap_len b \<and> length (bits b') = length (bits b) \<and>
     used b' = (\<lambda>k. if unat i \<le> k \<and> k < unat i + n then v = 1 else used b k)"
proof (induction n arbitrary: i b)
  case 0
  then show ?case by auto
next
  case (Suc n)
  have "unat i div 8 < length (bits b)" using Suc.prems(1) by linarith
  from bitmap_set_ok[OF this Suc.prems(3)] obtain b1 where b1: "bitmap_set b i v = Inr b1"
    "bitmap_len b1 = bitmap_len b" "length (bits b1) = length (bits b)" "used b1 = (used b)(unat i := v = 1)" by auto
  have u: "unat (i + 1) = Suc (unat i)" using Suc.prems(2) by (intro unat_plus1) simp
  have p: "unat (i + 1) + n \<le> 8 * length (bits b1)" "unat (i + 1) + n < 2 ^ 32"
    using Suc.prems u b1(3) by simp_all
  obtain b' where b': "set_run b1 (i + 1) v n = Inr b'" "bitmap_len b' = bitmap_len b1" "length (bits b') = length (bits b1)"
     "used b' = (\<lambda>k. if unat (i + 1) \<le> k \<and> k < unat (i + 1) + n then v = 1 else used b1 k)"
    using Suc.IH[OF p Suc.prems(3)] by auto
  have "used b' = (\<lambda>k. if unat i \<le> k \<and> k < unat i + Suc n then v = 1 else used b k)"
    using b'(4) b1(4) u by (auto simp: fun_eq_iff)
  then show ?case using b' b1 by simp
qed

lemma set_run_back:
  assumes "unat i + n \<le> 8 * length (bits b)" "unat i + n < 2 ^ 32" "free_run b (unat i) n"
  shows "\<exists>b1. set_run b i 1 n = Inr b1 \<and> bitmap_len b1 = bitmap_len b \<and> length (bits b1) = length (bits b) \<and>
    used b1 = (\<lambda>k. used b k \<or> unat i \<le> k \<and> k < unat i + n) \<and>
    (\<exists>b2. set_run b1 i 0 n = Inr b2 \<and> bitmap_len b2 = bitmap_len b \<and> length (bits b2) = length (bits b) \<and> used b2 = used b)"
proof -
  obtain b1 where b1: "set_run b i 1 n = Inr b1" "bitmap_len b1 = bitmap_len b" "length (bits b1) = length (bits b)"
     "used b1 = (\<lambda>k. if unat i \<le> k \<and> k < unat i + n then True else used b k)"
    using set_run_ok[OF assms(1,2), of 1] by auto
  have f: "\<not> used b k" if "unat i \<le> k" "k < unat i + n" for k
    using assms(3) that by (auto simp: free_run_def dest: spec[of _ "k - unat i"])
  obtain b2 where b2: "set_run b1 i 0 n = Inr b2" "bitmap_len b2 = bitmap_len b1" "length (bits b2) = length (bits b1)"
     "used b2 = (\<lambda>k. if unat i \<le> k \<and> k < unat i + n then False else used b1 k)"
    using set_run_ok[of i n b1 0] assms(1,2) b1(3) by auto
  have "used b2 = used b" using b2(4) b1(4) f by (auto simp: fun_eq_iff)
  moreover have "used b1 = (\<lambda>k. used b k \<or> unat i \<le> k \<and> k < unat i + n)" using b1(4) by auto
  ultimately show ?thesis using b1 b2 by auto
qed

text \<open>A run of free pages in a pool of virtual addresses is found, and within the pool.\<close>

lemma scan_finds_run:
  assumes "bitmap_wf b" "unat (bitmap_len b) < length (bits b)" "0 < unat n"
    and r: "free_run b r (unat n)" "r + unat n \<le> nbits b"
  obtains i where "bitmap_scan b n = Inr i" "i \<noteq> -1" "free_run b (unat i) (unat n)" "unat i + unat n \<le> nbits b"
proof (cases "unat n = 1")
  case True
  then have n: "n = 1" by (simp add: word_unat_eq_iff)
  have f: "\<not> used b r" "r < nbits b" using r True by (auto simp: free_run_def)
  show ?thesis using assms(1)
  proof (cases rule: bitmap_take_one)
    case full
    then show ?thesis using f by auto
  next
    case (free i bm)
    show ?thesis
      by (rule that[of i]) (use free n in \<open>auto simp: free_run_def\<close>)
  qed
next
  case False
  then have "2 \<le> unat n" using assms(3) by simp
  from bitmap_scan_run[OF assms(1,2) this] obtain i where i: "bitmap_scan b n = Inr i" "first_run b (unat n) (nbits b + 1) i"
    by auto
  have "i \<noteq> -1" using i(2) r by (auto simp: first_run_def)
  moreover have "unat i \<le> r" using i(2) r(1) calculation by (auto simp: first_run_def not_less[symmetric])
  ultimately show ?thesis using that[of i] i r(2) by (auto simp: first_run_def)
qed

section \<open>The directory stays\<close>

text \<open>\<open>same_dir s t\<close>: both states have the same directory with the same entries.\<close>

definition same_dir :: "'a mem_state_scheme \<Rightarrow> 'a mem_state_scheme \<Rightarrow> bool" where
  "same_dir s t \<longleftrightarrow> cr3 t = cr3 s \<and> (\<forall>w. pde_of w t = pde_of w s)"

lemma same_dir_refl [simp]: "same_dir s s"
  by (simp add: same_dir_def)

lemma same_dir_trans: "same_dir s t \<Longrightarrow> same_dir t u \<Longrightarrow> same_dir s u"
  by (simp add: same_dir_def)

lemma same_dir_slot: "same_dir s t \<Longrightarrow> same_slot t v w = same_slot s v w"
  by (simp add: same_dir_def same_slot_def)

lemma pd_index_surj: "index i \<Longrightarrow> \<exists>w. pd_index w = i"
proof (intro exI)
  assume "index i"
  then show "pd_index (push_bit 22 i) = i" unfolding pd_index_def
    by (intro bit_word_eqI) (auto simp: bit_simps dest: index_bits)
qed

lemma same_dir_phys: "same_dir s t \<Longrightarrow> index i \<Longrightarrow> phys t (entry_at (cr3 s) i) = phys s (entry_at (cr3 s) i)"
  using pd_index_surj[of i] by (auto simp: same_dir_def pde_of_def)

lemma tables_wf_transfer:
  assumes "tables_wf s" "same_dir s t" "pool_wf (kernel_pool t)" "free_frames (kernel_pool t) \<subseteq> free_frames (kernel_pool s)"
  shows "tables_wf t"
proof -
  have "cr3 t = cr3 s" using assms(2) by (simp add: same_dir_def)
  then show ?thesis
    using assms same_dir_phys[OF assms(2)] unfolding tables_wf_def self_mapped_def Let_def by auto
qed

lemma set_entry_same_dir:
  assumes "tables_wf s" "pd_index v \<noteq> 0x3ff" "bit (pde_of v s) 0"
  shows "same_dir s (s\<lparr>phys := (phys s)(entry_at (pde_of v s) (pt_index v) := e)\<rparr>)"
  using set_entry(2)[OF assms refl] by (simp add: same_dir_def)

lemma page_table_add_present:
  assumes "tables_wf s" "bit (pde_of v s) 0" "unmapped v s"
  shows "page_table_add v p s = Inr (s\<lparr>phys := (phys s)(entry_at (pde_of v s) (pt_index v) := p OR PG_P_1 OR PG_RW_W OR PG_US_U)\<rparr>)"
  using assms load_entries[OF tables_wfD(1)[OF assms(1)], of v] store_entries(2)[OF tables_wfD(1)[OF assms(1)] assms(2)]
  by (simp add: page_table_add_def present_bit unmapped_iff)

section \<open>Pools\<close>

lemma pool_split: "pool_frames pl = used_frames pl \<union> free_frames pl"
  by (auto simp: pool_frames_def used_frames_def free_frames_def)

lemma free_frames_eq: "pool_wf pl \<Longrightarrow> free_frames pl = pool_frames pl - used_frames pl"
  using frame_no_inj[of pl] by (force simp: pool_frames_def used_frames_def free_frames_def)

lemma the_set_pool [simp]:
  "the_pool PF (set_pool PF p s) = p" "phys (set_pool PF p s) = phys s" "cr3 (set_pool PF p s) = cr3 s"
  "pde_of w (set_pool PF p s) = pde_of w s" "pte_of w (set_pool PF p s) = pte_of w s"
  by (cases PF; simp add: the_pool_def set_pool_def pde_of_def pte_of_def)+

lemma translate_set_pool [simp]: "translate w (set_pool PF p s) = translate w s"
  by (simp add: translate_def)

lemma the_pool_phys [simp]: "the_pool PF (s\<lparr>phys := ph\<rparr>) = the_pool PF s"
  by (cases PF) (simp_all add: the_pool_def)

lemma set_pool_phys: "set_pool PF p (s\<lparr>phys := ph\<rparr>) = (set_pool PF p s)\<lparr>phys := ph\<rparr>"
  by (cases PF) (simp_all add: set_pool_def)

lemma set_pool_set [simp]: "set_pool PF p (set_pool PF q s) = set_pool PF p s"
  by (cases PF) (simp_all add: set_pool_def)

lemma set_pool_same [simp]: "set_pool PF (the_pool PF s) s = s"
  by (cases PF) (simp_all add: set_pool_def the_pool_def)

text \<open>A frame is taken from a pool.\<close>

lemma palloc_takes:
  assumes "pool_wf pl" "free_frames pl \<noteq> {}"
  obtains f bm where "palloc pl = Inr (f, pl\<lparr>pool_bitmap := bm\<rparr>)" "f \<noteq> 0" "f \<in> free_frames pl"
    "pool_wf (pl\<lparr>pool_bitmap := bm\<rparr>)" "free_frames (pl\<lparr>pool_bitmap := bm\<rparr>) = free_frames pl - {f}"
    "pool_frames (pl\<lparr>pool_bitmap := bm\<rparr>) = pool_frames pl" "nbits bm = nbits (pool_bitmap pl)"
  using assms(1)
proof (cases rule: palloc_cases)
  case full
  then show ?thesis using assms(2) by (auto simp: free_frames_def)
next
  case (free k bm)
  have "free_frames (pl\<lparr>pool_bitmap := bm\<rparr>) = free_frames pl - {frame_no pl k}"
    using free frame_no_inj[OF assms(1)] by (auto simp: free_frames_def)
  moreover have "pool_frames (pl\<lparr>pool_bitmap := bm\<rparr>) = pool_frames pl" using free by (simp add: pool_frames_def)
  ultimately show ?thesis
    using that[of "frame_no pl k" bm] free frame_no_neq0[OF assms(1) free(2)] by (auto simp: free_frames_def)
qed

lemma set_pool_wf:
  assumes "tables_wf s" "pool_wf p" "free_frames p \<subseteq> free_frames (the_pool PF s)"
  shows "tables_wf (set_pool PF p s)"
proof (rule tables_wf_transfer[OF assms(1)])
  show "same_dir s (set_pool PF p s)" by (simp add: same_dir_def)
qed (use assms tables_wfD(2)[OF assms(1)] in \<open>cases PF; simp add: set_pool_def the_pool_def\<close>)+

section \<open>Mapping a range\<close>

definition page :: "u32 \<Rightarrow> nat \<Rightarrow> u32" where
  "page v k = v + PAGE_SIZE * of_nat k"

lemma page_0 [simp]: "page v 0 = v"
  by (simp add: page_def)

lemma page_next [simp]: "page (v + PAGE_SIZE) k = page v (Suc k)"
  by (simp add: page_def algebra_simps)

text \<open>
  \<open>pages_ok v n s\<close>: the \<open>n\<close> pages from \<open>v\<close> have page tables, none of them is the one of the
  directory, and no two pages have the same entry.
\<close>

definition pages_ok :: "u32 \<Rightarrow> nat \<Rightarrow> 'a mem_state_scheme \<Rightarrow> bool" where
  "pages_ok v n s \<longleftrightarrow> (\<forall>k < n. pd_index (page v k) \<noteq> 0x3ff \<and> bit (pde_of (page v k) s) 0) \<and>
     (\<forall>j < n. \<forall>k < n. j \<noteq> k \<longrightarrow> \<not> same_slot s (page v j) (page v k))"

lemma pages_ok_same_dir: "same_dir s t \<Longrightarrow> pages_ok v n t = pages_ok v n s"
  by (simp add: pages_ok_def same_dir_slot) (simp add: same_dir_def)

lemma pages_ok_Suc:
  assumes "pages_ok v (Suc n) s"
  shows "pages_ok (v + PAGE_SIZE) n s" "pd_index v \<noteq> 0x3ff" "bit (pde_of v s) 0"
    "k < n \<Longrightarrow> \<not> same_slot s v (page v (Suc k))"
proof -
  have a: "pd_index (page v k) \<noteq> 0x3ff" "bit (pde_of (page v k) s) 0" if "k < Suc n" for k
    using assms that by (auto simp: pages_ok_def)
  show "pd_index v \<noteq> 0x3ff" "bit (pde_of v s) 0" using a[of 0] by simp_all
  have b: "\<not> same_slot s (page v j) (page v k)" if "j < Suc n" "k < Suc n" "j \<noteq> k" for j k
    using assms that unfolding pages_ok_def by blast
  show "k < n \<Longrightarrow> \<not> same_slot s v (page v (Suc k))" using b[of 0 "Suc k"] by simp
  show "pages_ok (v + PAGE_SIZE) n s" unfolding pages_ok_def using a b by auto
qed

lemma same_slot_sym: "same_slot s v w = same_slot s w v"
  by (auto simp: same_slot_def)

text \<open>
  \<open>mapped_range PF v fs s s'\<close>: from \<open>s\<close> to \<open>s'\<close> the pages from \<open>v\<close> on have been mapped to the frames
  \<open>fs\<close>, which are distinct and were free in the pool; nothing else has changed but memory and the
  bitmap of the pool, and no other translation.
\<close>

definition only_pool :: "pool_flags \<Rightarrow> 'a mem_state_scheme \<Rightarrow> 'a mem_state_scheme \<Rightarrow> bool" where
  "only_pool PF s s' \<longleftrightarrow> (\<exists>bm ph. s' = (set_pool PF ((the_pool PF s)\<lparr>pool_bitmap := bm\<rparr>) s)\<lparr>phys := ph\<rparr> \<and>
     nbits bm = nbits (pool_bitmap (the_pool PF s)))"

definition mapped_range :: "pool_flags \<Rightarrow> u32 \<Rightarrow> u32 list \<Rightarrow> 'a mem_state_scheme \<Rightarrow> 'a mem_state_scheme \<Rightarrow> bool" where
  "mapped_range PF v fs s s' \<longleftrightarrow> only_pool PF s s' \<and> tables_wf s' \<and> same_dir s s' \<and> pool_wf (the_pool PF s') \<and>
     distinct fs \<and> set fs \<subseteq> free_frames (the_pool PF s) \<and>
     free_frames (the_pool PF s') = free_frames (the_pool PF s) - set fs \<and>
     (\<forall>k < length fs. maps_page (page v k) (fs ! k) s') \<and>
     (\<forall>w. pd_index w \<noteq> 0x3ff \<and> (\<forall>k < length fs. \<not> same_slot s (page v k) w) \<longrightarrow> translate w s' = translate w s)"

lemma only_pool_trans:
  assumes "only_pool PF s t" "only_pool PF t u"
  shows "only_pool PF s u"
proof -
  obtain bm ph where t: "t = (set_pool PF ((the_pool PF s)\<lparr>pool_bitmap := bm\<rparr>) s)\<lparr>phys := ph\<rparr>"
    "nbits bm = nbits (pool_bitmap (the_pool PF s))" using assms(1) by (auto simp: only_pool_def)
  obtain bn pi where u: "u = (set_pool PF ((the_pool PF t)\<lparr>pool_bitmap := bn\<rparr>) t)\<lparr>phys := pi\<rparr>"
    "nbits bn = nbits (pool_bitmap (the_pool PF t))" using assms(2) by (auto simp: only_pool_def)
  show ?thesis unfolding only_pool_def
    by (intro exI[of _ bn] exI[of _ pi]) (use t u in \<open>simp add: set_pool_phys\<close>)
qed

lemma same_slot_page: "frame_of w = frame_of v \<Longrightarrow> same_slot s u w = same_slot s u v"
  using same_page_fields[of w v] by (simp add: same_slot_def pde_of_def)

text \<open>One page: a frame is taken and entered.\<close>

lemma map_one:
  assumes wf: "tables_wf s" "pool_wf (the_pool PF s)" and f: "free_frames (the_pool PF s) \<noteq> {}"
    and v: "pd_index v \<noteq> 0x3ff" "bit (pde_of v s) 0" "unmapped v s"
  obtains f p s1 where "palloc (the_pool PF s) = Inr (f, p)" "f \<noteq> 0"
    "page_table_add v f (set_pool PF p s) = Inr s1" "mapped_range PF v [f] s s1"
proof -
  obtain f bm where p: "palloc (the_pool PF s) = Inr (f, (the_pool PF s)\<lparr>pool_bitmap := bm\<rparr>)" "f \<noteq> 0"
    "f \<in> free_frames (the_pool PF s)" "pool_wf ((the_pool PF s)\<lparr>pool_bitmap := bm\<rparr>)"
    "free_frames ((the_pool PF s)\<lparr>pool_bitmap := bm\<rparr>) = free_frames (the_pool PF s) - {f}"
    "nbits bm = nbits (pool_bitmap (the_pool PF s))"
    using palloc_takes[OF wf(2) f] by metis
  let ?p = "(the_pool PF s)\<lparr>pool_bitmap := bm\<rparr>"
  let ?t = "set_pool PF ?p s"
  have t: "tables_wf ?t" using p by (intro set_pool_wf[OF wf(1)]) auto
  have u: "unmapped v ?t" "bit (pde_of v ?t) 0" using v by (simp_all add: unmapped_def)
  define s1 where "s1 = ?t\<lparr>phys := (phys ?t)(entry_at (pde_of v ?t) (pt_index v) := f OR PG_P_1 OR PG_RW_W OR PG_US_U)\<rparr>"
  have a: "page_table_add v f ?t = Inr s1" unfolding s1_def by (rule page_table_add_present[OF t u(2,1)])
  have e: "tables_wf s1 \<and> maps_page v f s1 \<and> only_changes v ?t s1" by (rule enter_page[OF t v(1) u(2) s1_def])
  have "same_dir ?t s1" unfolding s1_def by (rule set_entry_same_dir[OF t v(1) u(2)])
  then have d: "same_dir s s1" by (simp add: same_dir_def)
  have "only_pool PF s s1" unfolding only_pool_def s1_def using p(6) by blast
  moreover have "\<forall>w. pd_index w \<noteq> 0x3ff \<and> \<not> same_slot s v w \<longrightarrow> translate w s1 = translate w s"
    using e unfolding only_changes_def by (simp add: same_slot_def)
  moreover have "the_pool PF s1 = ?p" by (simp add: s1_def)
  ultimately have "mapped_range PF v [f] s s1"
    using e d p by (simp add: mapped_range_def)
  with that p(1,2) a show ?thesis by blast
qed

lemma mapped_range_Cons:
  assumes "mapped_range PF v [f] s s1" "mapped_range PF (v + PAGE_SIZE) fs s1 s'" "pages_ok v (Suc (length fs)) s"
  shows "mapped_range PF v (f # fs) s s'"
proof -
  have d: "same_dir s s1" "same_dir s1 s'" and fr: "free_frames (the_pool PF s1) = free_frames (the_pool PF s) - {f}"
    and m: "maps_page v f s1"
    using assms(1,2) by (simp_all add: mapped_range_def)
  have keep: "translate w s' = translate w s1"
    if "pd_index w \<noteq> 0x3ff" "\<forall>k < length fs. \<not> same_slot s (page v (Suc k)) w" for w
    using assms(2) that by (simp add: mapped_range_def same_dir_slot[OF d(1)])
  have "maps_page v f s'" unfolding maps_page_def
  proof (intro allI impI)
    fix w assume w: "frame_of w = frame_of v"
    have "pd_index w \<noteq> 0x3ff" using pages_ok_Suc(2)[OF assms(3)] same_page_fields(1)[OF w] by simp
    moreover have "\<forall>k < length fs. \<not> same_slot s (page v (Suc k)) w"
      using pages_ok_Suc(4)[OF assms(3)] by (simp add: same_slot_page[OF w] same_slot_sym[of s _ v])
    ultimately show "translate w s' = Inr (frame_of f OR w AND 0xfff)"
      using keep[of w] m w by (simp add: maps_page_def)
  qed
  moreover have "maps_page (page v (Suc k)) (fs ! k) s'" if "k < length fs" for k
    using assms(2) that by (simp add: mapped_range_def)
  ultimately have "\<forall>k < length (f # fs). maps_page (page v k) ((f # fs) ! k) s'"
    by (simp add: less_Suc_eq_0_disj) auto
  moreover have "translate w s' = translate w s"
    if "pd_index w \<noteq> 0x3ff" "\<forall>k < length (f # fs). \<not> same_slot s (page v k) w" for w
  proof -
    have "\<not> same_slot s v w" "\<forall>k < length fs. \<not> same_slot s (page v (Suc k)) w" using that(2) by force+
    then show ?thesis using keep[OF that(1)] assms(1) that(1) by (simp add: mapped_range_def)
  qed
  ultimately show ?thesis
    using assms(1,2) same_dir_trans[OF d] only_pool_trans[of PF s s1 s'] fr unfolding mapped_range_def by auto
qed

lemma map_pages_ok:
  "\<lbrakk> tables_wf s; pool_wf (the_pool PF s); n \<le> card (free_frames (the_pool PF s)); pages_ok v n s;
     \<forall>k < n. unmapped (page v k) s \<rbrakk> \<Longrightarrow>
   \<exists>fs s'. map_pages PF v n s = Inr (True, s') \<and> length fs = n \<and> mapped_range PF v fs s s'"
proof (induction n arbitrary: v s)
  case 0
  have "only_pool PF s s" unfolding only_pool_def
    by (intro exI[of _ "pool_bitmap (the_pool PF s)"] exI[of _ "phys s"]) simp
  then show ?case using 0 by (simp add: mapped_range_def)
next
  case (Suc n)
  have fin: "finite (free_frames (the_pool PF s))" by (simp add: free_frames_def)
  then have ne: "free_frames (the_pool PF s) \<noteq> {}" using Suc.prems(3) by auto
  have v: "unmapped v s" using Suc.prems(5)[rule_format, of 0] by simp
  obtain f p s1 where s1: "palloc (the_pool PF s) = Inr (f, p)" "f \<noteq> 0"
    "page_table_add v f (set_pool PF p s) = Inr s1" "mapped_range PF v [f] s s1"
    using map_one[OF Suc.prems(1,2) ne pages_ok_Suc(2,3)[OF Suc.prems(4)] v] by blast
  have m: "tables_wf s1" "pool_wf (the_pool PF s1)" "free_frames (the_pool PF s1) = free_frames (the_pool PF s) - {f}"
    "same_dir s s1" "f \<in> free_frames (the_pool PF s)" using s1(4) by (simp_all add: mapped_range_def)
  have "n \<le> card (free_frames (the_pool PF s1))" using m(3,5) Suc.prems(3) fin by simp
  moreover have "pages_ok (v + PAGE_SIZE) n s1"
    using pages_ok_Suc(1)[OF Suc.prems(4)] pages_ok_same_dir[OF m(4)] by simp
  moreover have "\<forall>k < n. unmapped (page (v + PAGE_SIZE) k) s1"
  proof (intro allI impI)
    fix k assume k: "k < n"
    have "pd_index (page v (Suc k)) \<noteq> 0x3ff" using Suc.prems(4) k by (auto simp: pages_ok_def)
    then have "translate (page v (Suc k)) s1 = translate (page v (Suc k)) s"
      using s1(4) pages_ok_Suc(4)[OF Suc.prems(4) k] by (simp add: mapped_range_def)
    then show "unmapped (page (v + PAGE_SIZE) k) s1" using Suc.prems(5) k by (simp add: unmapped_def)
  qed
  ultimately obtain fs s' where f': "map_pages PF (v + PAGE_SIZE) n s1 = Inr (True, s')" "length fs = n"
    "mapped_range PF (v + PAGE_SIZE) fs s1 s'" using Suc.IH[OF m(1,2)] by blast
  have "mapped_range PF v (f # fs) s s'" using mapped_range_Cons[OF s1(4) f'(3)] f'(2) Suc.prems(4) by simp
  then show ?case using s1(1-3) f'(1,2) by (intro exI[of _ "f # fs"] exI[of _ s']) simp
qed

section \<open>Giving a range back\<close>

text \<open>
  \<open>returnable PF f s\<close>: the frame address \<open>f\<close> is one that \<^verbatim>\<open>free_pages\<close> takes for a frame of
  that pool. The first frame of the user pool is not.
\<close>

definition returnable :: "pool_flags \<Rightarrow> u32 \<Rightarrow> 'a mem_state_scheme \<Rightarrow> bool" where
  "returnable PF f s \<longleftrightarrow> 0x102000 \<le> f \<and>
     (case PF of PF_KERNEL \<Rightarrow> phy_start_addr (kernel_pool s) \<le> f \<and> f < phy_start_addr (user_pool s)
      | PF_USER \<Rightarrow> phy_start_addr (user_pool s) < f)"

lemma only_pool_starts:
  assumes "only_pool PF s t"
  shows "phy_start_addr (kernel_pool t) = phy_start_addr (kernel_pool s)" "phy_start_addr (user_pool t) = phy_start_addr (user_pool s)"
    "pool_frames (the_pool PF t) = pool_frames (the_pool PF s)" "PF = PF_USER \<Longrightarrow> kernel_pool t = kernel_pool s"
  using assms by (cases PF; auto simp: only_pool_def the_pool_def set_pool_def pool_frames_def)+

lemma returnable_only_pool: "only_pool PF s t \<Longrightarrow> returnable PF f t = returnable PF f s"
  using only_pool_starts[of PF s t] by (simp add: returnable_def split: pool_flags.split)

lemma frame_index:
  assumes "pool_wf pl" "k < nbits (pool_bitmap pl)"
  shows "unat ((frame_no pl k - phy_start_addr pl) div PAGE_SIZE) = k"
proof -
  have "k < 2 ^ 32" "4096 * k < 2 ^ 32" using assms by (auto simp: pool_wf_def)
  then have "unat (of_nat k :: u32) = k" by (intro unat_of_nat_small) simp
  then have "unat (PAGE_SIZE * of_nat k) = 4096 * k"
    using \<open>4096 * k < 2 ^ 32\<close> by (simp add: PAGE_SIZE_def unat_word_ariths)
  then show ?thesis by (simp add: frame_no_def unat_div) (simp add: PAGE_SIZE_def)
qed

lemma frame_aligned:
  assumes "pool_wf pl" "f \<in> pool_frames pl"
  shows "frame_of f = f" "f mod PAGE_SIZE = 0"
proof -
  obtain k where k: "k < nbits (pool_bitmap pl)" "f = frame_no pl k" using assms(2) by (auto simp: pool_frames_def)
  then show "frame_of f = f" using assms(1) by simp
  have "unat f mod 4096 = 0" using unat_frame_no[OF assms(1) k(1)] k(2) assms(1) by (simp add: pool_wf_def)
  then show "f mod PAGE_SIZE = 0" by (simp add: word_unat_eq_iff unat_mod PAGE_SIZE_def)
qed

lemma bitmap_clear_frame:
  assumes wf: "pool_wf pl" and f: "f \<in> pool_frames pl" "f \<notin> free_frames pl"
  obtains bm where "bitmap_set (pool_bitmap pl) ((f - phy_start_addr pl) div PAGE_SIZE) 0 = Inr bm"
    "nbits bm = nbits (pool_bitmap pl)" "pool_wf (pl\<lparr>pool_bitmap := bm\<rparr>)"
    "free_frames (pl\<lparr>pool_bitmap := bm\<rparr>) = insert f (free_frames pl)"
proof -
  obtain k where k: "k < nbits (pool_bitmap pl)" "f = frame_no pl k" using f(1) by (auto simp: pool_frames_def)
  let ?i = "(f - phy_start_addr pl) div PAGE_SIZE"
  have i: "unat ?i = k" using frame_index[OF wf k(1)] k(2) by simp
  have "unat ?i div 8 < length (bits (pool_bitmap pl))"
    using k(1) wf unfolding i by (auto simp: pool_wf_def bitmap_wf_def nbits_def)
  from bitmap_set_ok[OF this, of 0] obtain bm where bm: "bitmap_set (pool_bitmap pl) ?i 0 = Inr bm"
    "bitmap_len bm = bitmap_len (pool_bitmap pl)" "length (bits bm) = length (bits (pool_bitmap pl))"
    "used bm = (used (pool_bitmap pl))(k := False)" by (auto simp: i)
  have n: "nbits bm = nbits (pool_bitmap pl)" using bm(2) by (simp add: nbits_def)
  moreover have "pool_wf (pl\<lparr>pool_bitmap := bm\<rparr>)" using wf bm(2,3) n by (simp add: pool_wf_def bitmap_wf_def)
  moreover have "{j. j < nbits bm \<and> \<not> used bm j} = insert k {j. j < nbits (pool_bitmap pl) \<and> \<not> used (pool_bitmap pl) j}"
    using n bm(4) k(1) by auto
  then have "free_frames (pl\<lparr>pool_bitmap := bm\<rparr>) = insert f (free_frames pl)"
    by (simp add: free_frames_def k(2))
  ultimately show ?thesis using that bm(1) by blast
qed

lemma pfree_ok:
  assumes "pool_wf (the_pool PF s)" "f \<in> pool_frames (the_pool PF s)" "f \<notin> free_frames (the_pool PF s)" "returnable PF f s"
  obtains bm where "pfree f s = Inr (set_pool PF ((the_pool PF s)\<lparr>pool_bitmap := bm\<rparr>) s)"
    "nbits bm = nbits (pool_bitmap (the_pool PF s))" "pool_wf ((the_pool PF s)\<lparr>pool_bitmap := bm\<rparr>)"
    "free_frames ((the_pool PF s)\<lparr>pool_bitmap := bm\<rparr>) = insert f (free_frames (the_pool PF s))"
proof -
  obtain bm where bm: "bitmap_set (pool_bitmap (the_pool PF s)) ((f - phy_start_addr (the_pool PF s)) div PAGE_SIZE) 0 = Inr bm"
    "nbits bm = nbits (pool_bitmap (the_pool PF s))" "pool_wf ((the_pool PF s)\<lparr>pool_bitmap := bm\<rparr>)"
    "free_frames ((the_pool PF s)\<lparr>pool_bitmap := bm\<rparr>) = insert f (free_frames (the_pool PF s))"
    using bitmap_clear_frame[OF assms(1-3)] by blast
  have "pfree f s = Inr (set_pool PF ((the_pool PF s)\<lparr>pool_bitmap := bm\<rparr>) s)"
    using assms(4) bm(1) by (cases PF) (auto simp: pfree_def returnable_def the_pool_def set_pool_def)
  then show ?thesis using that bm by blast
qed

lemma pte_remove_eq:
  assumes "self_mapped s" "bit (pde_of v s) 0"
  shows "page_table_pte_remove v s = Inr (s\<lparr>phys := (phys s)(entry_at (pde_of v s) (pt_index v) := pte_of v s AND NOT PG_P_1)\<rparr>)"
  using assms(2) load_entries(2)[OF assms(1)] store_entries(2)[OF assms(1)] by (simp add: page_table_pte_remove_def)

lemma lookup_aligned:
  assumes "self_mapped s" "bit (pde_of v s) 0" "frame_of v = v"
  shows "\<exists>p. addr_virtual_to_phy v s = Inr p" "maps_page v f s \<Longrightarrow> frame_of f = f \<Longrightarrow> addr_virtual_to_phy v s = Inr f"
proof -
  show "\<exists>p. addr_virtual_to_phy v s = Inr p" using load_entries(2)[OF assms(1,2)] by (simp add: addr_virtual_to_phy_def)
  have "v AND 0xfff = (v AND 0xfffff000) AND 0xfff" using assms(3) by (simp add: frame_of_def)
  also have "\<dots> = 0" by (simp add: and.assoc)
  finally have "v AND 0xfff = 0" .
  then show "maps_page v f s \<Longrightarrow> frame_of f = f \<Longrightarrow> addr_virtual_to_phy v s = Inr f"
    using addr_virtual_to_phy_ok[OF assms(1), of v f] by (simp add: maps_page_def)
qed

lemma aligned_iff: "frame_of v = v \<longleftrightarrow> unat v mod 4096 = 0"
proof
  assume v: "frame_of v = v"
  have "take_bit 12 v = 0"
  proof (rule bit_word_eqI)
    fix n
    have "bit v n \<Longrightarrow> 12 \<le> n" by (subst (asm) v[symmetric]) (simp only: frame_of_def bit_and_iff bit_consts)
    then show "bit (take_bit 12 v) n = bit 0 n" by (auto simp: bit_take_bit_iff)
  qed
  then have "unat (take_bit 12 v) = 0" by simp
  then show "unat v mod 4096 = 0" by (simp only: unsigned_take_bit_eq) (simp add: take_bit_eq_mod)
qed (rule frame_of_aligned)

lemma page_aligned:
  assumes "frame_of v = v"
  shows "frame_of (v + PAGE_SIZE) = v + PAGE_SIZE"
proof -
  have "unat (v + PAGE_SIZE) mod 4096 = (unat v + 4096) mod 2 ^ 32 mod 4096"
    by (simp add: unat_word_ariths PAGE_SIZE_def)
  also have "\<dots> = 0" using assms by (simp add: aligned_iff mod_mod_cancel)
  finally show ?thesis by (rule frame_of_aligned)
qed

text \<open>The frames of the directory and of the page tables.\<close>

definition table_frames :: "'a mem_state_scheme \<Rightarrow> u32 set" where
  "table_frames s = insert (frame_of (cr3 s)) {frame_of (pde_of w s) |w. pd_index w \<noteq> 0x3ff \<and> bit (pde_of w s) 0}"

lemma table_frames_same_dir: "same_dir s t \<Longrightarrow> table_frames t = table_frames s"
  by (simp add: table_frames_def same_dir_def)

lemma tables_not_free: "tables_wf s \<Longrightarrow> table_frames s \<inter> free_frames (kernel_pool s) = {}"
  using tables_wfD[of s] by (auto simp: table_frames_def)

lemma tables_wf_return:
  assumes "tables_wf s" "pool_wf p" "free_frames p \<subseteq> insert f (free_frames (the_pool PF s))" "f \<notin> table_frames s"
  shows "tables_wf (set_pool PF p s)"
proof (cases PF)
  case PF_KERNEL
  have "frame_of (phys s (entry_at (cr3 s) i)) \<in> table_frames s"
    if "index i" "i \<noteq> 0x3ff" "bit (phys s (entry_at (cr3 s) i)) 0" for i
    using pd_index_surj[OF that(1)] that by (fastforce simp: table_frames_def pde_of_def)
  moreover have "frame_of (cr3 s) \<in> table_frames s" by (simp add: table_frames_def)
  ultimately show ?thesis using assms PF_KERNEL
    unfolding tables_wf_def self_mapped_def Let_def the_pool_def set_pool_def by auto
qed (use set_pool_wf[of s p PF_USER] assms tables_wfD(2)[OF assms(1)] in
    \<open>auto simp: tables_wf_def self_mapped_def set_pool_def Let_def\<close>)

text \<open>
  \<open>holds_range PF v fs s\<close>: the pages from \<open>v\<close> on are mapped to the frames \<open>fs\<close>, which are taken from
  the pool, hold no page table, and can be returned.
\<close>

definition holds_range :: "pool_flags \<Rightarrow> u32 \<Rightarrow> u32 list \<Rightarrow> 'a mem_state_scheme \<Rightarrow> bool" where
  "holds_range PF v fs s \<longleftrightarrow> tables_wf s \<and> pool_wf (the_pool PF s) \<and> distinct fs \<and>
     set fs \<subseteq> pool_frames (the_pool PF s) - free_frames (the_pool PF s) - table_frames s \<and>
     (\<forall>k < length fs. maps_page (page v k) (fs ! k) s) \<and> (\<forall>f \<in> set fs. returnable PF f s)"

text \<open>One page is given back: the frame becomes free and the page unmapped.\<close>

lemma unmap_one:
  assumes h: "holds_range PF v (f # fs) s" and v: "pd_index v \<noteq> 0x3ff" "bit (pde_of v s) 0"
  obtains t u where "pfree f s = Inr t" "page_table_pte_remove v t = Inr u" "tables_wf u" "same_dir s u" "only_pool PF s u"
    "pool_wf (the_pool PF u)" "free_frames (the_pool PF u) = insert f (free_frames (the_pool PF s))"
    "unmapped v u" "\<And>w. pd_index w \<noteq> 0x3ff \<Longrightarrow> \<not> same_slot s v w \<Longrightarrow> translate w u = translate w s"
proof -
  have wf: "tables_wf s" "pool_wf (the_pool PF s)" and f: "f \<in> pool_frames (the_pool PF s)" "f \<notin> free_frames (the_pool PF s)"
      "f \<notin> table_frames s" "returnable PF f s"
    using h by (auto simp: holds_range_def)
  obtain bm where bm: "pfree f s = Inr (set_pool PF ((the_pool PF s)\<lparr>pool_bitmap := bm\<rparr>) s)"
    "nbits bm = nbits (pool_bitmap (the_pool PF s))" "pool_wf ((the_pool PF s)\<lparr>pool_bitmap := bm\<rparr>)"
    "free_frames ((the_pool PF s)\<lparr>pool_bitmap := bm\<rparr>) = insert f (free_frames (the_pool PF s))"
    using pfree_ok[OF wf(2) f(1,2,4)] by blast
  define t where "t = set_pool PF ((the_pool PF s)\<lparr>pool_bitmap := bm\<rparr>) s"
  have t: "tables_wf t" unfolding t_def using tables_wf_return[OF wf(1) bm(3) _ f(3)] bm(4) by blast
  have p: "bit (pde_of v t) 0" using v(2) by (simp add: t_def)
  define u where "u = t\<lparr>phys := (phys t)(entry_at (pde_of v t) (pt_index v) := pte_of v t AND NOT PG_P_1)\<rparr>"
  have r: "page_table_pte_remove v t = Inr u"
    unfolding u_def by (rule pte_remove_eq[OF tables_wfD(1)[OF t] p])
  note e = set_entry[OF t v(1) p u_def]
  have "same_dir t u" unfolding u_def by (rule set_entry_same_dir[OF t v(1) p])
  then have d: "same_dir s u" by (simp add: same_dir_def t_def)
  have "unmapped v u" using e(3)[of v] by (simp add: unmapped_iff cleared_present)
  moreover have "translate w u = translate w s" if "pd_index w \<noteq> 0x3ff" "\<not> same_slot s v w" for w
    using e(4)[of w] that by (simp add: t_def same_slot_def)
  moreover have "only_pool PF s u" unfolding only_pool_def u_def t_def using bm(2) by blast
  moreover have "the_pool PF u = (the_pool PF s)\<lparr>pool_bitmap := bm\<rparr>" by (simp add: u_def t_def)
  ultimately show ?thesis using that[of t u] bm t_def r d e(1) by simp
qed

text \<open>The pages behind the first one, after that has been given back, and the lookup of their first frame.\<close>

lemma holds_range_rest:
  assumes "holds_range PF v (f # fs) s" "pages_ok v (Suc (length fs + 1)) s" "tables_wf u" "same_dir s u" "only_pool PF s u"
    and "pool_wf (the_pool PF u)" "free_frames (the_pool PF u) = insert f (free_frames (the_pool PF s))"
    and keep: "\<And>w. pd_index w \<noteq> 0x3ff \<Longrightarrow> \<not> same_slot s v w \<Longrightarrow> translate w u = translate w s"
  shows "holds_range PF (v + PAGE_SIZE) fs u"
proof -
  have "maps_page (page v (Suc k)) (fs ! k) u" if k: "k < length fs" for k
    unfolding maps_page_def
  proof (intro allI impI)
    have m: "maps_page (page v (Suc k)) (fs ! k) s" using assms(1) k by (auto simp: holds_range_def)
    fix w assume w: "frame_of w = frame_of (page v (Suc k))"
    have "pd_index (page v (Suc k)) \<noteq> 0x3ff" using assms(2) k by (auto simp: pages_ok_def)
    then have "pd_index w \<noteq> 0x3ff" using same_page_fields(1)[OF w] by simp
    moreover have "\<not> same_slot s v w" using pages_ok_Suc(4)[OF assms(2), of k] k by (simp add: same_slot_page[OF w])
    ultimately show "translate w u = Inr (frame_of (fs ! k) OR w AND 0xfff)"
      using keep[of w] m w by (simp add: maps_page_def)
  qed
  moreover have "table_frames u = table_frames s" by (rule table_frames_same_dir[OF assms(4)])
  ultimately show ?thesis using assms(1,3,6,7) only_pool_starts(3)[OF assms(5)] returnable_only_pool[OF assms(5)]
    by (auto simp: holds_range_def)
qed

lemma range_lookup:
  assumes "holds_range PF v fs u" "pages_ok v (length fs + 1) u" "frame_of v = v" "tables_wf u" "pool_wf (the_pool PF u)"
  obtains phy where "addr_virtual_to_phy v u = Inr phy" "fs \<noteq> [] \<longrightarrow> phy = hd fs"
proof -
  have "bit (pde_of v u) 0" using pages_ok_Suc(3)[of v] assms(2) by simp
  note lk = lookup_aligned[OF tables_wfD(1)[OF assms(4)] this assms(3)]
  show ?thesis
  proof (cases fs)
    case Nil
    then show ?thesis using that lk(1) by blast
  next
    case (Cons g gs)
    have "g \<in> pool_frames (the_pool PF u)" "\<forall>k < length fs. maps_page (page v k) (fs ! k) u"
      using assms(1) Cons unfolding holds_range_def by auto
    moreover from this(2) have "maps_page (page v 0) g u" using Cons by (auto simp del: page_next)
    ultimately have "addr_virtual_to_phy v u = Inr g" using lk(2)[of g] frame_aligned(1)[OF assms(5)] by (simp only: page_0)
    then show ?thesis using that Cons by simp
  qed
qed

lemma unmap_pages_ok:
  "\<lbrakk> holds_range PF v fs s; pages_ok v (length fs + 1) s; frame_of v = v; fs \<noteq> [] \<longrightarrow> phy = hd fs \<rbrakk> \<Longrightarrow>
   \<exists>s'. unmap_pages (PF = PF_USER) phy v (length fs) s = Inr s' \<and> only_pool PF s s' \<and> same_dir s s' \<and>
     tables_wf s' \<and> pool_wf (the_pool PF s') \<and>
     free_frames (the_pool PF s') = free_frames (the_pool PF s) \<union> set fs \<and>
     (\<forall>k < length fs. unmapped (page v k) s') \<and>
     (\<forall>w. pd_index w \<noteq> 0x3ff \<and> (\<forall>k < length fs. \<not> same_slot s (page v k) w) \<longrightarrow> translate w s' = translate w s)"
proof (induction fs arbitrary: v s phy)
  case Nil
  have "only_pool PF s s" unfolding only_pool_def
    by (intro exI[of _ "pool_bitmap (the_pool PF s)"] exI[of _ "phys s"]) simp
  then show ?case using Nil by (simp add: holds_range_def)
next
  case (Cons f fs)
  have ok: "pages_ok v (Suc (length fs + 1)) s" using Cons.prems(2) by simp
  note v = pages_ok_Suc(2,3)[OF ok]
  obtain t u where u: "pfree f s = Inr t" "page_table_pte_remove v t = Inr u" "tables_wf u" "same_dir s u" "only_pool PF s u"
    "pool_wf (the_pool PF u)" "free_frames (the_pool PF u) = insert f (free_frames (the_pool PF s))"
    "unmapped v u" and keep: "\<And>w. pd_index w \<noteq> 0x3ff \<Longrightarrow> \<not> same_slot s v w \<Longrightarrow> translate w u = translate w s"
    using unmap_one[OF Cons.prems(1) v] by metis
  have h: "holds_range PF (v + PAGE_SIZE) fs u" by (rule holds_range_rest[OF Cons.prems(1) ok u(3-7) keep])
  have ok': "pages_ok (v + PAGE_SIZE) (length fs + 1) u"
    using pages_ok_Suc(1)[OF ok] pages_ok_same_dir[OF u(4)] by simp
  have al: "frame_of (v + PAGE_SIZE) = v + PAGE_SIZE" by (rule page_aligned[OF Cons.prems(3)])
  obtain phy' where phy': "addr_virtual_to_phy (v + PAGE_SIZE) u = Inr phy'" "fs \<noteq> [] \<longrightarrow> phy' = hd fs"
    by (rule range_lookup[OF h ok' al u(3,6)])
  obtain s' where s': "unmap_pages (PF = PF_USER) phy' (v + PAGE_SIZE) (length fs) u = Inr s'" "only_pool PF u s'" "same_dir u s'"
     "tables_wf s'" "pool_wf (the_pool PF s')"
     "free_frames (the_pool PF s') = free_frames (the_pool PF u) \<union> set fs"
     "\<forall>k < length fs. unmapped (page v (Suc k)) s'"
     "\<forall>w. pd_index w \<noteq> 0x3ff \<and> (\<forall>k < length fs. \<not> same_slot u (page v (Suc k)) w) \<longrightarrow> translate w s' = translate w u"
    using Cons.IH[OF h ok' al phy'(2)] by auto
  have phy: "phy = f" "returnable PF f s" "f mod PAGE_SIZE = 0"
    using Cons.prems(1,4) frame_aligned(2)[of "the_pool PF s" f] by (auto simp: holds_range_def)
  have run: "unmap_pages (PF = PF_USER) phy v (length (f # fs)) s = Inr s'"
    using phy u(1,2) phy'(1) s'(1) by (cases PF) (simp_all add: returnable_def less_imp_le)
  have fu: "unmapped v s'"
  proof -
    have "\<forall>k < length fs. \<not> same_slot u (page v (Suc k)) v"
      using pages_ok_Suc(4)[OF ok] by (simp add: same_dir_slot[OF u(4)] same_slot_sym[of s _ v])
    then show ?thesis using s'(8) v(1) u(8) by (simp add: unmapped_def)
  qed
  have fr: "translate w s' = translate w s"
    if "pd_index w \<noteq> 0x3ff" "\<forall>k < length (f # fs). \<not> same_slot s (page v k) w" for w
  proof -
    have "\<not> same_slot s v w" "\<forall>k < length fs. \<not> same_slot u (page v (Suc k)) w"
      using that(2) by (force simp: same_dir_slot[OF u(4)])+
    then show ?thesis using keep[of w] s'(8) that(1) by simp
  qed
  have "\<forall>k < length (f # fs). unmapped (page v k) s'" using s'(7) fu by (simp add: less_Suc_eq_0_disj) auto
  then show ?case
    using run fr only_pool_trans[OF u(5) s'(2)] same_dir_trans[OF u(4) s'(3)] s'(4-6) u(7) by auto
qed

section \<open>Pools of virtual addresses\<close>

lemma set_vaddrs_simps [simp]:
  "the_vaddrs PF (set_vaddrs PF v s) = v" "the_pool PF' (set_vaddrs PF v s) = the_pool PF' s"
  "kernel_pool (set_vaddrs PF v s) = kernel_pool s" "user_pool (set_vaddrs PF v s) = user_pool s"
  "phys (set_vaddrs PF v s) = phys s" "cr3 (set_vaddrs PF v s) = cr3 s"
  by (cases PF; simp add: the_vaddrs_def set_vaddrs_def the_pool_def upd_pcb_def running_thread_def split: pool_flags.split)+

lemma set_vaddrs_memory [simp]:
  "pde_of w (set_vaddrs PF v s) = pde_of w s" "translate w (set_vaddrs PF v s) = translate w s"
  "tables_wf (set_vaddrs PF v s) = tables_wf s" "table_frames (set_vaddrs PF v s) = table_frames s"
  "pages_ok a n (set_vaddrs PF v s) = pages_ok a n s" "unmapped w (set_vaddrs PF v s) = unmapped w s"
  "returnable PF' f (set_vaddrs PF v s) = returnable PF' f s"
  by (simp_all add: pde_of_def pte_of_def translate_def tables_wf_def self_mapped_def table_frames_def pages_ok_def
      same_slot_def unmapped_def returnable_def split: pool_flags.split)

lemma only_pool_vaddrs: "only_pool PF s t \<Longrightarrow> the_vaddrs PF' t = the_vaddrs PF' s"
  by (cases PF; cases PF') (auto simp: only_pool_def the_vaddrs_def set_pool_def running_thread_def)

text \<open>
  \<open>vaddrs_ok PF s\<close>: the pool of virtual addresses is well-formed, its pages and the one behind them
  have page tables, and the pages that are free in it are unmapped.
\<close>

definition vaddrs_ok :: "pool_flags \<Rightarrow> 'a thread_state_scheme \<Rightarrow> bool" where
  "vaddrs_ok PF s \<longleftrightarrow> (let b = vaddr_bitmap (the_vaddrs PF s); st = vaddr_start (the_vaddrs PF s) in
     bitmap_wf b \<and> unat (bitmap_len b) < length (bits b) \<and> st \<noteq> 0 \<and> frame_of st = st \<and>
     unat st + 4096 * nbits b \<le> (if PF = PF_USER then 0xbffff000 else 0xffc00000) \<and> pages_ok st (nbits b + 1) s \<and>
     (\<forall>k < nbits b. \<not> used b k \<longrightarrow> unmapped (page st k) s))"

lemma page_page: "page (page v i) k = page v (i + k)"
  by (simp add: page_def algebra_simps)

lemma pages_ok_part: "pages_ok v n s \<Longrightarrow> i + m \<le> n \<Longrightarrow> pages_ok (page v i) m s"
  by (simp add: pages_ok_def page_page)

lemma unat_page:
  assumes "unat v + 4096 * k < 2 ^ 32"
  shows "unat (page v k) = unat v + 4096 * k"
proof -
  have "unat (of_nat k :: u32) = k" using assms by (intro unat_of_nat_small) simp
  then have "unat (PAGE_SIZE * of_nat k) = 4096 * k" using assms by (simp add: PAGE_SIZE_def unat_word_ariths)
  then show ?thesis using assms by (simp add: page_def unat_word_ariths)
qed

text \<open>The pages \<^verbatim>\<open>vaddr_get_pages\<close> reserves, and that \<^verbatim>\<open>vaddr_remove_pages\<close> releases them.\<close>

lemma vaddr_get_pages_ok:
  fixes s :: "'a thread_state_scheme"
  assumes ok: "vaddrs_ok PF s" and n: "0 < unat cnt"
    and run: "free_run (vaddr_bitmap (the_vaddrs PF s)) r (unat cnt)" "r + unat cnt \<le> nbits (vaddr_bitmap (the_vaddrs PF s))"
  obtains i b1 b2 where "vaddr_get_pages PF cnt s = Inr (page (vaddr_start (the_vaddrs PF s)) i,
       set_vaddrs PF ((the_vaddrs PF s)\<lparr>vaddr_bitmap := b1\<rparr>) s)"
    "free_run (vaddr_bitmap (the_vaddrs PF s)) i (unat cnt)" "i + unat cnt \<le> nbits (vaddr_bitmap (the_vaddrs PF s))"
    "used b1 = (\<lambda>k. used (vaddr_bitmap (the_vaddrs PF s)) k \<or> i \<le> k \<and> k < i + unat cnt)"
    "\<forall>t. the_vaddrs PF t = (the_vaddrs PF s)\<lparr>vaddr_bitmap := b1\<rparr> \<longrightarrow>
       vaddr_remove_pages PF cnt (page (vaddr_start (the_vaddrs PF s)) i) t =
         Inr (set_vaddrs PF ((the_vaddrs PF s)\<lparr>vaddr_bitmap := b2\<rparr>) (t :: 'a thread_state_scheme))"
    "used b2 = used (vaddr_bitmap (the_vaddrs PF s))"
proof -
  let ?va = "the_vaddrs PF s"
  let ?b = "vaddr_bitmap ?va" and ?st = "vaddr_start ?va"
  have w: "bitmap_wf ?b" "unat (bitmap_len ?b) < length (bits ?b)"
    and st: "unat ?st + 4096 * nbits ?b \<le> (if PF = PF_USER then 0xbffff000 else 0xffc00000)"
    using ok by (simp_all add: vaddrs_ok_def Let_def)
  obtain i where i: "bitmap_scan ?b cnt = Inr i" "i \<noteq> -1" "free_run ?b (unat i) (unat cnt)" "unat i + unat cnt \<le> nbits ?b"
    using scan_finds_run[OF w n run] by blast
  have l: "unat i + unat cnt \<le> 8 * length (bits ?b)" "unat i + unat cnt < 2 ^ 32"
    using i(4) w by (auto simp: nbits_def bitmap_wf_def)
  obtain b1 b2 where b1: "set_run ?b i 1 (unat cnt) = Inr b1" "used b1 = (\<lambda>k. used ?b k \<or> unat i \<le> k \<and> k < unat i + unat cnt)"
    and b2: "set_run b1 i 0 (unat cnt) = Inr b2" "used b2 = used ?b"
    using set_run_back[OF l i(3)] by blast
  have p: "page ?st (unat i) = ?st + PAGE_SIZE * i" by (simp add: page_def)
  have u: "unat (page ?st (unat i)) = unat ?st + 4096 * unat i" using st i(4) n by (intro unat_page) (auto split: if_splits)
  have "page ?st (unat i) < 0xc0000000 - PAGE_SIZE" if "PF = PF_USER"
    using st i(4) n u that by (simp add: word_less_nat_alt PAGE_SIZE_def)
  then have g: "vaddr_get_pages PF cnt s = Inr (page ?st (unat i), set_vaddrs PF (?va\<lparr>vaddr_bitmap := b1\<rparr>) s)"
    using i(1,2) b1(1) by (cases PF) (simp_all add: vaddr_get_pages_def Let_def page_def)
  have d: "(page ?st (unat i) - ?st) div PAGE_SIZE = i"
  proof -
    have "unat (PAGE_SIZE * i) = 4096 * unat i" using u st i(4) n
      by (simp add: p PAGE_SIZE_def unat_word_ariths split: if_splits)
    then show ?thesis by (simp add: p word_unat_eq_iff unat_div) (simp add: PAGE_SIZE_def)
  qed
  have "vaddr_remove_pages PF cnt (page ?st (unat i)) t = Inr (set_vaddrs PF (?va\<lparr>vaddr_bitmap := b2\<rparr>) t)"
    if "the_vaddrs PF t = ?va\<lparr>vaddr_bitmap := b1\<rparr>" for t :: "'a thread_state_scheme"
    using that b2(1) d by (simp add: vaddr_remove_pages_def Let_def)
  then show ?thesis using that[of "unat i" b1 b2] g i(3,4) b1(2) b2(2) by blast
qed

lemma malloc_pages_ok:
  fixes s :: "'a thread_state_scheme"
  assumes wf: "tables_wf s" "pool_wf (the_pool PF s)" "vaddrs_ok PF s" and n: "0 < cnt" "cnt < 3840"
    and run: "free_run (vaddr_bitmap (the_vaddrs PF s)) r (unat cnt)" "r + unat cnt \<le> nbits (vaddr_bitmap (the_vaddrs PF s))"
    and room: "unat cnt \<le> card (free_frames (the_pool PF s))"
  obtains i fs b1 b2 s1 where "malloc_pages PF cnt s = Inr (page (vaddr_start (the_vaddrs PF s)) i, s1)" "length fs = unat cnt"
    "mapped_range PF (page (vaddr_start (the_vaddrs PF s)) i) fs (set_vaddrs PF ((the_vaddrs PF s)\<lparr>vaddr_bitmap := b1\<rparr>) s) s1"
    "i + unat cnt \<le> nbits (vaddr_bitmap (the_vaddrs PF s))"
    "\<forall>k < unat cnt. unmapped (page (page (vaddr_start (the_vaddrs PF s)) i) k) s"
    "used b1 = (\<lambda>k. used (vaddr_bitmap (the_vaddrs PF s)) k \<or> i \<le> k \<and> k < i + unat cnt)"
    "\<forall>t. the_vaddrs PF t = (the_vaddrs PF s)\<lparr>vaddr_bitmap := b1\<rparr> \<longrightarrow>
       vaddr_remove_pages PF cnt (page (vaddr_start (the_vaddrs PF s)) i) t =
         Inr (set_vaddrs PF ((the_vaddrs PF s)\<lparr>vaddr_bitmap := b2\<rparr>) (t :: 'a thread_state_scheme))"
    "used b2 = used (vaddr_bitmap (the_vaddrs PF s))"
proof -
  let ?va = "the_vaddrs PF s"
  let ?b = "vaddr_bitmap ?va" and ?st = "vaddr_start ?va"
  have n': "0 < unat cnt" using n(1) by (simp add: word_less_nat_alt)
  obtain i b1 b2 where i: "vaddr_get_pages PF cnt s = Inr (page ?st i, set_vaddrs PF (?va\<lparr>vaddr_bitmap := b1\<rparr>) s)"
    "free_run ?b i (unat cnt)" "i + unat cnt \<le> nbits ?b"
    "used b1 = (\<lambda>k. used ?b k \<or> i \<le> k \<and> k < i + unat cnt)"
    and rm: "\<forall>t. the_vaddrs PF t = ?va\<lparr>vaddr_bitmap := b1\<rparr> \<longrightarrow>
       vaddr_remove_pages PF cnt (page ?st i) t = Inr (set_vaddrs PF (?va\<lparr>vaddr_bitmap := b2\<rparr>) (t :: 'a thread_state_scheme))"
    and b2: "used b2 = used ?b" by (rule vaddr_get_pages_ok[OF wf(3) n' run])
  let ?s1 = "set_vaddrs PF (?va\<lparr>vaddr_bitmap := b1\<rparr>) s"
  have v: "?st \<noteq> 0" "unat ?st + 4096 * nbits ?b \<le> 0xffc00000" "pages_ok ?st (nbits ?b + 1) s"
    "\<And>k. k < nbits ?b \<Longrightarrow> \<not> used ?b k \<Longrightarrow> unmapped (page ?st k) s"
    using wf(3) by (auto simp: vaddrs_ok_def Let_def split: if_splits)
  have "unat (page ?st i) = unat ?st + 4096 * i" using v(2) i(3) n' by (intro unat_page) simp
  then have nz: "page ?st i \<noteq> 0" using v(1) by auto
  have un: "\<forall>k < unat cnt. unmapped (page (page ?st i) k) s"
  proof (intro allI impI)
    fix k assume k: "k < unat cnt"
    have "\<not> used ?b (i + k)" using i(2) k by (simp add: free_run_def)
    then show "unmapped (page (page ?st i) k) s" using v(4)[of "i + k"] i(3) k by (simp add: page_page)
  qed
  have "pages_ok (page ?st i) (unat cnt) ?s1" using pages_ok_part[OF v(3), of i "unat cnt"] i(3) by simp
  then obtain fs s1 where fs: "map_pages PF (page ?st i) (unat cnt) ?s1 = Inr (True, s1)" "length fs = unat cnt"
      "mapped_range PF (page ?st i) fs ?s1 s1"
    using map_pages_ok[of ?s1 PF "unat cnt" "page ?st i"] wf(1,2) room un by auto
  have "malloc_pages PF cnt s = Inr (page ?st i, s1)"
    using n i(1) nz fs(1) by (simp add: malloc_pages_def)
  then show ?thesis using that[of i s1 fs b1 b2] fs(2,3) i(3,4) un rm b2 by blast
qed

section \<open>The pools at boot\<close>

lemma bitmap_init_at:
  "\<exists>bs. bitmap_init (bitmap_at raw a len) = Inr \<lparr>bitmap_len = len, bits = bs\<rparr> \<and> length bs = unat len + 1 \<and>
     (\<forall>k < 8 * unat len. \<not> used \<lparr>bitmap_len = len, bits = bs\<rparr> k)"
proof -
  let ?b = "map (\<lambda>i. raw (a + of_nat i)) [0..<unat len + 1]"
  have "memset (Some (?b, 0)) 0 len = Inr (take 0 ?b @ replicate (unat len) 0 @ drop (0 + unat len) ?b)"
    by (rule memset_correct) simp
  then have "bitmap_init (bitmap_at raw a len) = Inr \<lparr>bitmap_len = len, bits = replicate (unat len) 0 @ drop (unat len) ?b\<rparr>"
    by (simp add: bitmap_init_def bitmap_at_def del: map_append upt_Suc)
  moreover have "\<not> used \<lparr>bitmap_len = len, bits = replicate (unat len) 0 @ drop (unat len) ?b\<rparr> k" if "k < 8 * unat len" for k
  proof -
    have "k div 8 < unat len" using that by linarith
    then show ?thesis by (simp add: used_def nth_append)
  qed
  ultimately show ?thesis by (intro exI[of _ "replicate (unat len) 0 @ drop (unat len) ?b"]) simp
qed

text \<open>The numbers of pages and bytes, for a memory of up to 512 MB.\<close>

lemma boot_numbers:
  fixes m :: u32
  assumes m: "0x200000 \<le> m" "m \<le> 0x20000000"
  defines "p \<equiv> (m - (PAGE_SIZE * 256 + 0x00100000)) div PAGE_SIZE"
  defines "k \<equiv> ucast (p div 2) :: u16"
  defines "u \<equiv> ucast (p - ucast k) :: u16"
  shows "unat p = (unat m - 0x200000) div 4096" "unat k = unat p div 2" "unat u = unat p - unat p div 2"
    "unat (ucast (k div 8) :: u32) = unat k div 8" "unat (ucast (u div 8) :: u32) = unat u div 8"
    "unat (PAGE_SIZE * 256 + 0x00100000 + ucast k * PAGE_SIZE) = 0x200000 + unat k * 4096"
proof -
  have mm: "0x200000 \<le> unat m" "unat m \<le> 0x20000000" using m by (simp_all add: word_le_nat_alt)
  have "unat (m - 0x200000) = unat m - 0x200000" using m(1) by (simp add: unat_sub)
  then show p: "unat p = (unat m - 0x200000) div 4096" by (simp add: p_def PAGE_SIZE_def unat_div)
  then have pl: "unat p \<le> 130560" using mm by simp
  show k: "unat k = unat p div 2" using pl by (simp add: k_def unsigned_ucast_eq take_bit_nat_eq_self unat_div)
  have kl: "unat (ucast k :: u32) = unat k" using pl by (simp add: unsigned_ucast_eq take_bit_nat_eq_self k)
  have "unat (p - ucast k) = unat p - unat p div 2"
    using k kl by (subst unat_sub) (simp_all add: word_le_nat_alt)
  then show u: "unat u = unat p - unat p div 2" using pl by (simp add: u_def unsigned_ucast_eq take_bit_nat_eq_self)
  show "unat (ucast (k div 8) :: u32) = unat k div 8" "unat (ucast (u div 8) :: u32) = unat u div 8"
    using pl by (simp_all add: unsigned_ucast_eq take_bit_nat_eq_self unat_div k u)
  have "unat (ucast k * PAGE_SIZE) = unat k * 4096"
    using kl k pl by (simp add: PAGE_SIZE_def unat_word_ariths)
  then show "unat (PAGE_SIZE * 256 + 0x00100000 + ucast k * PAGE_SIZE) = 0x200000 + unat k * 4096"
    using k pl by (simp add: PAGE_SIZE_def unat_word_ariths)
qed

lemma clear_pool:
  assumes "\<forall>k < nbits b. \<not> used b k" "bitmap_wf b" "unat st + 4096 * nbits b \<le> 2 ^ 32" "st \<noteq> 0" "unat st mod 4096 = 0"
    and pl_def: "pl = \<lparr>pool_bitmap = b, phy_start_addr = st, mem_size = m, pool_lock = l\<rparr>"
  shows "pool_wf pl" "used_frames pl = {}" "f \<in> pool_frames pl \<Longrightarrow> unat st \<le> unat f \<and> unat f + 4096 \<le> unat st + 4096 * nbits b"
proof -
  show wf: "pool_wf pl" using assms by (simp add: pool_wf_def)
  show "used_frames pl = {}" using assms(1) by (auto simp: used_frames_def pl_def)
  show "unat st \<le> unat f \<and> unat f + 4096 \<le> unat st + 4096 * nbits b" if "f \<in> pool_frames pl"
    using that unat_frame_no[OF wf] by (auto simp: pool_frames_def pl_def)
qed

lemma pool_fields: "(p :: pool)\<lparr>pool_bitmap := b, phy_start_addr := st, mem_size := m\<rparr> =
    \<lparr>pool_bitmap = b, phy_start_addr = st, mem_size = m, pool_lock = pool_lock p\<rparr>"
  by (cases p) simp

lemma lock_init_pools [simp]:
  "kernel_pool (lock_init l s) = kernel_pool s" "user_pool (lock_init l s) = user_pool s"
  by (simp_all add: lock_init_def sem_init_def list_init_def set_prev_def set_next_def Let_def)

section \<open>Properties\<close>

definition boot_pages :: "u32 \<Rightarrow> u32" where "boot_pages m = (m - (PAGE_SIZE * 256 + 0x00100000)) div PAGE_SIZE"
definition boot_kernel :: "u32 \<Rightarrow> u16" where "boot_kernel m = ucast (boot_pages m div 2)"
definition boot_user :: "u32 \<Rightarrow> u16" where "boot_user m = ucast (boot_pages m - ucast (boot_kernel m))"
definition boot_user_start :: "u32 \<Rightarrow> u32" where "boot_user_start m = PAGE_SIZE * 256 + 0x00100000 + ucast (boot_kernel m) * PAGE_SIZE"

lemmas boot_defs = boot_pages_def boot_kernel_def boot_user_def boot_user_start_def

text \<open>The two pools of frames and the kernel's pool of addresses, with all bits clear.\<close>

lemma mem_pool_init_run:
  assumes "kl = ucast (boot_kernel m div 8)" "ul = ucast (boot_user m div 8)"
  obtains kb ub vb t where "mem_pool_init raw m s = Inr t"
    "kernel_pool t = \<lparr>pool_bitmap = \<lparr>bitmap_len = kl, bits = kb\<rparr>, phy_start_addr = 0x200000, mem_size = ucast (boot_kernel m) * PAGE_SIZE,
       pool_lock = pool_lock (kernel_pool s)\<rparr>"
    "user_pool t = \<lparr>pool_bitmap = \<lparr>bitmap_len = ul, bits = ub\<rparr>, phy_start_addr = boot_user_start m, mem_size = ucast (boot_user m) * PAGE_SIZE,
       pool_lock = pool_lock (user_pool s)\<rparr>"
    "kernel_vaddr t = \<lparr>vaddr_bitmap = \<lparr>bitmap_len = kl, bits = vb\<rparr>, vaddr_start = KERNEL_HEAP_START\<rparr>"
    "length kb = unat kl + 1" "length ub = unat ul + 1"
    "\<forall>j < 8 * unat kl. \<not> used \<lparr>bitmap_len = kl, bits = kb\<rparr> j" "\<forall>j < 8 * unat ul. \<not> used \<lparr>bitmap_len = ul, bits = ub\<rparr> j"
    "\<forall>j < 8 * unat kl. \<not> used \<lparr>bitmap_len = kl, bits = vb\<rparr> j"
proof -
  obtain kb where kb: "bitmap_init (bitmap_at raw KERNEL_BITMAP_START kl) = Inr \<lparr>bitmap_len = kl, bits = kb\<rparr>"
    "length kb = unat kl + 1" "\<forall>j < 8 * unat kl. \<not> used \<lparr>bitmap_len = kl, bits = kb\<rparr> j" using bitmap_init_at by blast
  obtain ub where ub: "bitmap_init (bitmap_at raw (KERNEL_BITMAP_START + kl) ul) = Inr \<lparr>bitmap_len = ul, bits = ub\<rparr>"
    "length ub = unat ul + 1" "\<forall>j < 8 * unat ul. \<not> used \<lparr>bitmap_len = ul, bits = ub\<rparr> j" using bitmap_init_at by blast
  obtain vb where vb: "bitmap_init (bitmap_at raw (KERNEL_BITMAP_START + kl + ul) kl) = Inr \<lparr>bitmap_len = kl, bits = vb\<rparr>"
    "length vb = unat kl + 1" "\<forall>j < 8 * unat kl. \<not> used \<lparr>bitmap_len = kl, bits = vb\<rparr> j" using bitmap_init_at by blast
  let ?K = "\<lparr>pool_bitmap = \<lparr>bitmap_len = kl, bits = kb\<rparr>, phy_start_addr = 0x200000, mem_size = ucast (boot_kernel m) * PAGE_SIZE,
    pool_lock = pool_lock (kernel_pool s)\<rparr>"
  let ?U = "\<lparr>pool_bitmap = \<lparr>bitmap_len = ul, bits = ub\<rparr>, phy_start_addr = boot_user_start m, mem_size = ucast (boot_user m) * PAGE_SIZE,
    pool_lock = pool_lock (user_pool s)\<rparr>"
  let ?V = "\<lparr>vaddr_bitmap = \<lparr>bitmap_len = kl, bits = vb\<rparr>, vaddr_start = KERNEL_HEAP_START\<rparr>"
  have "\<exists>t. mem_pool_init raw m s = Inr t \<and> kernel_pool t = ?K \<and> user_pool t = ?U \<and> kernel_vaddr t = ?V"
    unfolding mem_pool_init_def Let_def boot_pages_def[symmetric] boot_kernel_def[symmetric] boot_user_def[symmetric]
      boot_user_start_def[symmetric] assms[symmetric]
    by (simp add: kb(1) ub(1) vb(1) pool_fields putStr_def putInt_def putChar_def) (simp add: PAGE_SIZE_def bitmap_at_def)
  then show ?thesis using that kb(2,3) ub(2,3) vb(3) by blast
qed



text \<open>Giving back a range that is held: the frames are free again and no page of it is mapped.\<close>

lemma free_held_range:
  fixes s1 :: "'a thread_state_scheme"
  assumes "tables_wf s1" "pool_wf (the_pool PF s1)" "holds_range PF v fs s1" "pages_ok v (length fs + 1) s1" "frame_of v = v"
    and "length fs = unat cnt" "0 < cnt"
  obtains s2 where "free_pages PF cnt v s1 = vaddr_remove_pages PF cnt v s2" "only_pool PF s1 s2"
    "free_frames (the_pool PF s2) = free_frames (the_pool PF s1) \<union> set fs" "\<forall>k < length fs. unmapped (page v k) s2"
proof -
  obtain f gs where fs: "fs = f # gs" using assms(6,7) by (cases fs) (auto simp: word_less_nat_alt)
  have f: "f \<in> set fs" "returnable PF f s1" "f \<in> pool_frames (the_pool PF s1)" "maps_page (page v 0) f s1"
    using fs assms(3) by (force simp: holds_range_def)+
  note fa = frame_aligned[OF assms(2) f(3)]
  have lk: "addr_virtual_to_phy v s1 = Inr f"
    using f(4) lookup_aligned(2)[OF tables_wfD(1)[OF assms(1)] _ assms(5), of f] fa(1) pages_ok_Suc(3)[of v "length fs" s1] assms(4) by simp
  obtain s2 where s2: "unmap_pages (PF = PF_USER) f v (length fs) s1 = Inr s2" "only_pool PF s1 s2"
     "free_frames (the_pool PF s2) = free_frames (the_pool PF s1) \<union> set fs" "\<forall>k < length fs. unmapped (page v k) s2"
    using unmap_pages_ok[OF assms(3-5), of f] fs by auto
  have "unat v mod 4096 = 0" using assms(5) by (simp add: aligned_iff)
  then have "v mod PAGE_SIZE = 0" by (simp add: word_unat_eq_iff unat_mod PAGE_SIZE_def)
  moreover have "1 \<le> cnt" using assms(7) by (simp add: word_le_nat_alt word_less_nat_alt)
  moreover have "(phy_start_addr (user_pool s1) < f) = (PF = PF_USER)" "0x102000 \<le> f"
    using f(2) by (cases PF; auto simp: returnable_def)+
  ultimately have "free_pages PF cnt v s1 = vaddr_remove_pages PF cnt v s2"
    using lk fa(2) s2(1) assms(6) by (simp add: free_pages_def)
  then show ?thesis using that s2(2-4) by blast
qed

lemma page_frame: "frame_of v = v \<Longrightarrow> frame_of (page v k) = page v k"
  by (induction k arbitrary: v) (simp_all flip: page_next add: page_aligned)


text \<open>
  C13: the first frame of the user pool is never given back: \<^verbatim>\<open>free_pages\<close> of a range whose first
  page is mapped to it fails in an assertion.
\<close>

theorem free_pages_first_user_frame:
  assumes "self_mapped s" "translate va s = Inr (phy_start_addr (user_pool s))" "va mod PAGE_SIZE = 0" "1 \<le> cnt"
  shows "\<exists>msg. free_pages PF cnt va s = Inl (Assert_failed msg)"
proof -
  have "unat cnt \<noteq> 0" using assms(4) by (auto simp: word_le_nat_alt)
  then obtain n where n: "unat cnt = Suc n" by (cases "unat cnt") auto
  have "\<exists>msg. unmap_pages False (phy_start_addr (user_pool s)) va (unat cnt) s = Inl (Assert_failed msg)"
    by (simp add: n)
  then show ?thesis using addr_virtual_to_phy_ok[OF assms(1,2)] assms(3,4) by (auto simp: free_pages_def)
qed

section \<open>Witnesses\<close>

text \<open>
  A directory at 0x100000 with an entry for the kernel heap, whose table is at 0x101000; eight
  frames in each pool; the pages of the heap are unmapped but for what \<open>e\<close> enters for the first.
\<close>

definition mem_sample :: "u32 \<Rightarrow> unit timer_state_scheme" where
  "mem_sample e = sample_state\<lparr>
     phys := (\<lambda>_. 0)(entry_at 0x100000 0x3ff := 0x100007, entry_at 0x100000 0x300 := 0x101007, entry_at 0x101000 0x100 := e),
     kernel_pool := \<lparr>pool_bitmap = \<lparr>bitmap_len = 1, bits = [0]\<rparr>, phy_start_addr = 0x200000, mem_size = 0x8000, pool_lock = 0xc0008100\<rparr>,
     user_pool := \<lparr>pool_bitmap = \<lparr>bitmap_len = 1, bits = [1]\<rparr>, phy_start_addr = 0x208000, mem_size = 0x8000, pool_lock = 0xc0008200\<rparr>,
     kernel_vaddr := \<lparr>vaddr_bitmap = \<lparr>bitmap_len = 1, bits = [0, 0]\<rparr>, vaddr_start = 0xc0100000\<rparr>\<rparr>"

lemmas mem_sample_defs = mem_sample_def sample_state_def

lemma small_cases: "k < 9 \<Longrightarrow> k = 0 \<or> k = 1 \<or> k = 2 \<or> k = 3 \<or> k = 4 \<or> k = 5 \<or> k = 6 \<or> k = 7 \<or> k = (8 :: nat)"
  by arith

lemma sample_page:
  "k < 9 \<Longrightarrow> pd_index (page 0xc0100000 k) = 0x300 \<and> pt_index (page 0xc0100000 k) = of_nat (0x100 + k)"
  by (drule small_cases) (elim disjE; simp add: page_def PAGE_SIZE_def pd_index_def pt_index_def)

lemma sample_frames: "frame_of 0x100007 = 0x100000" "frame_of 0x100000 = 0x100000" "frame_of 0x101007 = 0x101000"
    "frame_of 0x101000 = 0x101000" "index 0x300" "index 0x100"
  by (simp_all add: frame_of_def index_def)

lemma sample_pde: "k < 9 \<Longrightarrow> pde_of (page 0xc0100000 k) (mem_sample e) = 0x101007"
  using sample_page[of k] sample_frames by (simp add: pde_of_def mem_sample_defs entry_eq)

lemma sample_pools:
  "pool_wf (kernel_pool (mem_sample e))" "free_frames (kernel_pool (mem_sample e)) = pool_frames (kernel_pool (mem_sample e))"
  "card (pool_frames (kernel_pool (mem_sample e))) = 8"
  "f \<in> pool_frames (kernel_pool (mem_sample e)) \<Longrightarrow> 0x200000 \<le> unat f \<and> unat f < 0x208000"
proof -
  let ?K = "kernel_pool (mem_sample e)"
  show wf: "pool_wf ?K" by (simp add: mem_sample_defs pool_wf_def bitmap_wf_def nbits_def)
  have n: "nbits (pool_bitmap ?K) = 8" by (simp add: mem_sample_defs nbits_def)
  have u: "\<not> used (pool_bitmap ?K) k" if "k < 8" for k
    using that by (simp add: mem_sample_defs used_def)
  then show "free_frames ?K = pool_frames ?K" using n by (auto simp: free_frames_def pool_frames_def)
  have "inj_on (frame_no ?K) {k. k < 8}" using frame_no_inj[OF wf] n by (intro inj_onI) auto
  then show "card (pool_frames ?K) = 8" by (simp add: pool_frames_def n card_image)
  show "0x200000 \<le> unat f \<and> unat f < 0x208000" if "f \<in> pool_frames ?K"
    using that unat_frame_no[OF wf] n by (auto simp: pool_frames_def) (simp_all add: mem_sample_defs)
qed

lemma sample_tables: "tables_wf (mem_sample e)" "table_frames (mem_sample e) \<subseteq> {0x100000, 0x101000}"
proof -
  let ?s = "mem_sample e"
  have a: "phys ?s (entry_at 0x100000 i) = (if i = 0x3ff then 0x100007 else if i = 0x300 then 0x101007 else 0)" if "index i" for i
    using that sample_frames by (simp add: mem_sample_defs entry_eq)
  have c: "cr3 ?s = 0x100000" by (simp add: mem_sample_defs)
  have n: "0x100000 \<notin> free_frames (kernel_pool ?s)" "0x101000 \<notin> free_frames (kernel_pool ?s)"
    using sample_pools(4)[of "0x100000" e] sample_pools(4)[of "0x101000" e] sample_pools(2)[of e] by auto
  have b: "bit (0x101007 :: u32) 0" "bit (0x100007 :: u32) 0" by (simp_all add: bit_0)
  show "tables_wf ?s" unfolding tables_wf_def self_mapped_def Let_def
    using a n c sample_frames sample_pools(1)[of e] b by auto
  show "table_frames ?s \<subseteq> {0x100000, 0x101000}"
    using a sample_frames by (auto simp: table_frames_def c pde_of_def split: if_splits)
qed

lemma sample_vaddrs: "vaddrs_ok PF_KERNEL (mem_sample 0)"
proof -
  let ?s = "mem_sample 0"
  have v: "the_vaddrs PF_KERNEL ?s = \<lparr>vaddr_bitmap = \<lparr>bitmap_len = 1, bits = [0, 0]\<rparr>, vaddr_start = 0xc0100000\<rparr>"
    by (simp add: the_vaddrs_def mem_sample_defs)
  have n: "nbits \<lparr>bitmap_len = 1, bits = [0, 0]\<rparr> = 8" by (simp add: nbits_def)
  have d: "of_nat (0x100 + j) = (of_nat (0x100 + k) :: u32) \<longleftrightarrow> j = k" if "j < 9" "k < 9" for j k
    using that by (subst word_unat_eq_iff) (simp add: unat_of_nat del: of_nat_add)
  have "\<not> same_slot ?s (page 0xc0100000 j) (page 0xc0100000 k)" if "j < 9" "k < 9" "j \<noteq> k" for j k
    using that sample_page[of j] sample_page[of k] d[of k j] by (simp add: same_slot_def)
  moreover have b: "bit (0x101007 :: u32) 0" by (simp add: bit_0)
  ultimately have ok: "pages_ok 0xc0100000 9 ?s"
    using sample_page sample_pde by (simp add: pages_ok_def)
  have "phys ?s (entry_at 0x101007 (pt_index w)) = 0" for w
    using sample_frames by (simp add: mem_sample_defs entry_eq)
  then have "pte_of (page 0xc0100000 k) ?s = 0" if "k < 8" for k
    using that sample_pde[of k] by (simp add: pte_of_def)
  then have "unmapped (page 0xc0100000 k) ?s" if "k < 8" for k
    using that by (simp add: unmapped_iff)
  then show ?thesis using ok n
    by (simp add: vaddrs_ok_def v Let_def bitmap_wf_def frame_of_def)
qed


lemma sample_run: "free_run (vaddr_bitmap (the_vaddrs PF_KERNEL (mem_sample 0))) 0 3"
    "0 + 3 \<le> nbits (vaddr_bitmap (the_vaddrs PF_KERNEL (mem_sample 0)))"
  by (simp_all add: free_run_def used_def nbits_def the_vaddrs_def mem_sample_defs)



theorem free_pages_first_user_frame_witness:
  "\<exists>msg. free_pages PF_KERNEL 1 0xc0100000 (mem_sample 0x208007) = Inl (Assert_failed msg)"
proof -
  have "pd_index 0xc0100000 = 0x300" "pt_index 0xc0100000 = 0x100" by (simp_all add: pd_index_def pt_index_def)
  then have e: "pde_of 0xc0100000 (mem_sample 0x208007) = 0x101007" "pte_of 0xc0100000 (mem_sample 0x208007) = 0x208007"
    using sample_frames by (simp_all add: pte_of_def pde_of_def mem_sample_defs entry_eq)
  have b: "bit (0x101007 :: u32) 0" "bit (0x208007 :: u32) 0" by (simp_all add: bit_0)
  have "translate 0xc0100000 (mem_sample 0x208007) = Inr 0x208000"
    using b by (simp add: translate_def e frame_of_def)
  moreover have "phy_start_addr (user_pool (mem_sample 0x208007)) = 0x208000" by (simp add: mem_sample_defs)
  ultimately show ?thesis
    using free_pages_first_user_frame[OF tables_wfD(1)[OF sample_tables(1)[of "0x208007"]], of "0xc0100000" 1 PF_KERNEL]
    by (simp add: PAGE_SIZE_def)
qed
end
