(* ===== verification/Ioqueue.thy ===== *)
theory Ioqueue
  imports Timer
begin

text \<open>
  The ring buffer between an interrupt handler and its readers (\<^verbatim>\<open>device/ioqueue.c\<close>).
  The kernel has one such queue, the keyboard's \<^verbatim>\<open>kdb_buf\<close>; it is the field the routines
  work on. \<^verbatim>\<open>head\<close> is where the next byte goes, \<^verbatim>\<open>tail\<close> where the next one is
  taken from.

  A caller that finds the queue empty or full takes the lock, enters itself as the waiting thread
  and blocks: the outcome is then \<open>Blocked\<close>. Shown: as long as nobody waits, the routines implement
  a first-in first-out queue of 63 bytes; a thread that waits is not woken.
\<close>

section \<open>Operations\<close>

record ioqueue =
  producer :: u32
  consumer :: u32
  buf :: "u8 list"
  head :: u32
  tail :: u32

record ioq_state = timer_state +
  kdb_buf :: ioqueue
  io_lock :: u32

definition buf_size :: u32 where "buf_size = 64"

definition upd_ioq :: "(ioqueue \<Rightarrow> ioqueue) \<Rightarrow> 'a ioq_state_scheme \<Rightarrow> 'a ioq_state_scheme" where
  "upd_ioq f s = s\<lparr>kdb_buf := f (kdb_buf s)\<rparr>"

definition ioqueue_init :: "'a ioq_state_scheme \<Rightarrow> 'a ioq_state_scheme" where
  "ioqueue_init s =
     upd_ioq (\<lambda>q. q\<lparr>producer := 0, consumer := 0, head := 0, tail := 0\<rparr>) (lock_init (io_lock s) s)"

definition next_pos :: "u32 \<Rightarrow> u32" where
  "next_pos pos = (pos + 1) mod buf_size"

definition ioqueue_is_full :: "'a ioq_state_scheme \<Rightarrow> error + bool" where
  "ioqueue_is_full s =
     bnd (ASSERT (get_intr_status s = INTR_OFF) ''get_intr_status() == INTR_OFF'') (\<lambda>_.
     Inr (next_pos (head (kdb_buf s)) = tail (kdb_buf s)))"

definition ioqueue_is_empty :: "'a ioq_state_scheme \<Rightarrow> bool" where
  "ioqueue_is_empty s \<longleftrightarrow> head (kdb_buf s) = tail (kdb_buf s)"

text \<open>
  \<^verbatim>\<open>ioq_wait\<close> receives the address of a field of the queue: \<open>rd\<close> and \<open>wr\<close> stand for that
  address.
\<close>

definition ioq_wait ::
  "(ioqueue \<Rightarrow> u32) \<Rightarrow> (u32 \<Rightarrow> ioqueue \<Rightarrow> ioqueue) \<Rightarrow> 'a ioq_state_scheme \<Rightarrow> error + 'a ioq_state_scheme" where
  "ioq_wait rd wr s =
     bnd (ASSERT (rd (kdb_buf s) = 0) ''waiter != 0 && (*waiter == 0)'') (\<lambda>_.
     thread_lock TASK_BLOCKED (upd_ioq (wr (running_thread s)) s))"

text \<open>
  \<^verbatim>\<open>ioq_wakeup\<close> expects the address of such a field too, but both calls pass the contents of
  the field, the address of a control block. The word it reads and clears there is the first one
  of the block, \<^verbatim>\<open>self_kernel_stack\<close>.
\<close>

definition ioq_wakeup :: "u32 \<Rightarrow> 'a ioq_state_scheme \<Rightarrow> error + 'a ioq_state_scheme" where
  "ioq_wakeup waiter s =
     bnd (ASSERT (self_kernel_stack (pcbs s waiter) \<noteq> 0) ''*waiter != 0'') (\<lambda>_.
     bnd (thread_unlock (self_kernel_stack (pcbs s waiter)) s) (\<lambda>s.
     Inr (upd_pcb waiter (\<lambda>p. p\<lparr>self_kernel_stack := 0\<rparr>) s)))"

definition ioq_getchar :: "'a ioq_state_scheme \<Rightarrow> error + (u8 \<times> 'a ioq_state_scheme)" where
  "ioq_getchar s =
     bnd (ASSERT (get_intr_status s = INTR_OFF) ''get_intr_status() == INTR_OFF'') (\<lambda>_.
     if ioqueue_is_empty s
     then bnd (lock_acquire_now (io_lock s) s) (\<lambda>s.
          bnd (ioq_wait consumer (\<lambda>p q. q\<lparr>consumer := p\<rparr>) s) (\<lambda>_. Inl Blocked))
     else bnd (get_at (buf (kdb_buf s)) (unat (tail (kdb_buf s)))) (\<lambda>byte.
          let s = upd_ioq (\<lambda>q. q\<lparr>tail := next_pos (tail q)\<rparr>) s in
          bnd (if producer (kdb_buf s) \<noteq> 0 then ioq_wakeup (producer (kdb_buf s)) s else Inr s) (\<lambda>s.
          Inr (byte, s))))"

definition ioq_putchar :: "u8 \<Rightarrow> 'a ioq_state_scheme \<Rightarrow> error + 'a ioq_state_scheme" where
  "ioq_putchar byte s =
     bnd (ASSERT (get_intr_status s = INTR_OFF) ''get_intr_status() == INTR_OFF'') (\<lambda>_.
     bnd (ioqueue_is_full s) (\<lambda>full.
     if full
     then bnd (lock_acquire_now (io_lock s) s) (\<lambda>s.
          bnd (ioq_wait producer (\<lambda>p q. q\<lparr>producer := p\<rparr>) s) (\<lambda>_. Inl Blocked))
     else bnd (put_at (buf (kdb_buf s)) (unat (head (kdb_buf s))) byte) (\<lambda>b.
          let s = upd_ioq (\<lambda>q. q\<lparr>buf := b\<rparr>) s;
              s = upd_ioq (\<lambda>q. q\<lparr>head := next_pos (head q)\<rparr>) s in
          if consumer (kdb_buf s) \<noteq> 0 then ioq_wakeup (consumer (kdb_buf s)) s else Inr s)))"

section \<open>The queue as a sequence\<close>

definition ring :: "ioqueue \<Rightarrow> u8 list" where
  "ring q = map (\<lambda>i. buf q ! ((unat (tail q) + i) mod 64))
     [0..<(unat (head q) + 64 - unat (tail q)) mod 64]"

definition ioq_holds :: "'a ioq_state_scheme \<Rightarrow> u8 list \<Rightarrow> bool" where
  "ioq_holds s xs \<longleftrightarrow> get_intr_status s = INTR_OFF \<and> producer (kdb_buf s) = 0 \<and> consumer (kdb_buf s) = 0 \<and>
     length (buf (kdb_buf s)) = 64 \<and> head (kdb_buf s) < 64 \<and> tail (kdb_buf s) < 64 \<and> ring (kdb_buf s) = xs"

definition ioq_room :: "u8 list \<Rightarrow> 'a ioq_state_scheme \<Rightarrow> bool" where
  "ioq_room ys s \<longleftrightarrow> length (ring (kdb_buf s)) + length ys < 64"

lemma unat_next_pos: "unat (next_pos p) = (unat p + 1) mod 64" if "p < 64"
proof -
  have "unat p < 64" using that by (simp add: word_less_nat_alt)
  then have "unat (p + 1) = unat p + 1" by (intro unat_plus1[THEN trans]) simp_all
  then show ?thesis by (simp add: next_pos_def buf_size_def unat_mod)
qed

lemma next_pos_less: "next_pos p < 64"
  by (simp add: next_pos_def buf_size_def word_less_nat_alt unat_mod)

lemma length_ring: "length (ring q) = (unat (head q) + 64 - unat (tail q)) mod 64"
  by (simp add: ring_def)

lemma wrap: "x < 128 \<Longrightarrow> x mod 64 = (if x < 64 then x else x - 64)" for x :: nat
  by (auto simp: le_mod_geq)

lemma ring_put:
  assumes "length (buf q) = 64" "head q < 64" "tail q < 64" "next_pos (head q) \<noteq> tail q"
  shows "ring (q\<lparr>buf := (buf q)[unat (head q) := b], head := next_pos (head q)\<rparr>) = ring q @ [b]"
proof -
  define h t where "h = unat (head q)" and "t = unat (tail q)"
  have b: "h < 64" "t < 64" using assms by (simp_all add: h_def t_def word_less_nat_alt)
  have nx: "unat (next_pos (head q)) = Suc h mod 64" using unat_next_pos[OF assms(2)] by (simp add: h_def)
  then have ne: "Suc h mod 64 \<noteq> t" using assms(4) by (auto simp: t_def word_unat_eq_iff)
  define n where "n = (h + 64 - t) mod 64"
  have n: "n = (if t \<le> h then h - t else h + 64 - t)" "n < 63"
    using b ne by (auto simp: n_def wrap split: if_splits)
  have n': "(Suc h mod 64 + 64 - t) mod 64 = n + 1"
    using b ne n by (auto simp: wrap split: if_splits)
  have hn: "(t + n) mod 64 = h" and hi: "\<And>i. i < n \<Longrightarrow> (t + i) mod 64 \<noteq> h"
    using b n by (auto simp: wrap split: if_splits)
  have "ring (q\<lparr>buf := (buf q)[h := b], head := next_pos (head q)\<rparr>) =
      map (\<lambda>i. (buf q)[h := b] ! ((t + i) mod 64)) [0..<n + 1]"
    by (simp add: ring_def t_def[symmetric] nx n')
  also have "\<dots> = map (\<lambda>i. buf q ! ((t + i) mod 64)) [0..<n] @ [b]"
  proof -
    have "(buf q)[h := b] ! ((t + i) mod 64) = buf q ! ((t + i) mod 64)" if "i < n" for i
      using hi[OF that] by (metis nth_list_update_neq)
    then have "map (\<lambda>i. (buf q)[h := b] ! ((t + i) mod 64)) [0..<n] = map (\<lambda>i. buf q ! ((t + i) mod 64)) [0..<n]"
      by (intro map_cong) auto
    then show ?thesis using hn assms(1) b by simp
  qed
  also have "\<dots> = ring q @ [b]" by (simp add: ring_def n_def h_def t_def)
  finally show ?thesis by (simp add: h_def)
qed

lemma ring_get:
  assumes "head q < 64" "tail q < 64" "head q \<noteq> tail q"
  shows "ring q = buf q ! unat (tail q) # ring (q\<lparr>tail := next_pos (tail q)\<rparr>)"
proof -
  define h t where "h = unat (head q)" and "t = unat (tail q)"
  have b: "h < 64" "t < 64" "h \<noteq> t"
    using assms by (simp_all add: h_def t_def word_less_nat_alt word_unat_eq_iff)
  have nx: "unat (next_pos (tail q)) = Suc t mod 64" using unat_next_pos[OF assms(2)] by (simp add: t_def)
  define n where "n = (h + 64 - t) mod 64"
  have n: "n = (if t \<le> h then h - t else h + 64 - t)" "0 < n" "n < 64"
    using b by (auto simp: n_def wrap split: if_splits)
  have n': "(h + 64 - Suc t mod 64) mod 64 = n - 1"
    using b n by (auto simp: wrap split: if_splits)
  have up: "[0..<n] = 0 # map Suc [0..<n - 1]" using n(2) by (metis map_Suc_upt upt_rec Suc_pred' One_nat_def)
  have ix: "(Suc t mod 64 + i) mod 64 = (t + Suc i) mod 64" for i by (simp add: mod_simps)
  have "ring q = map (\<lambda>i. buf q ! ((t + i) mod 64)) [0..<n]" by (simp add: ring_def n_def h_def t_def)
  also have "\<dots> = buf q ! t # map (\<lambda>i. buf q ! ((t + Suc i) mod 64)) [0..<n - 1]"
    unfolding up using b by (simp add: o_def)
  also have "map (\<lambda>i. buf q ! ((t + Suc i) mod 64)) [0..<n - 1] = ring (q\<lparr>tail := next_pos (tail q)\<rparr>)"
    by (simp add: ring_def nx n' ix h_def[symmetric])
  finally show ?thesis by (simp add: t_def)
qed

lemma ring_empty: "head q < 64 \<Longrightarrow> tail q < 64 \<Longrightarrow> ring q = [] \<longleftrightarrow> head q = tail q"
proof -
  assume "head q < 64" "tail q < 64"
  then have "unat (head q) < 64" "unat (tail q) < 64" by (simp_all add: word_less_nat_alt)
  then show ?thesis using length_ring[of q] word_unat_eq_iff[of "head q" "tail q"]
    by (auto simp: wrap split: if_splits)
qed

lemma ring_full:
  assumes "head q < 64" "tail q < 64"
  shows "next_pos (head q) = tail q \<longleftrightarrow> length (ring q) = 63"
proof -
  have "unat (head q) < 64" "unat (tail q) < 64" using assms by (simp_all add: word_less_nat_alt)
  then show ?thesis using length_ring[of q] unat_next_pos[OF assms(1)] word_unat_eq_iff[of "next_pos (head q)" "tail q"]
    by (auto simp: wrap split: if_splits)
qed

definition after_put :: "u8 \<Rightarrow> 'a ioq_state_scheme \<Rightarrow> 'a ioq_state_scheme" where
  "after_put b s = s\<lparr>kdb_buf := (kdb_buf s)\<lparr>buf := (buf (kdb_buf s))[unat (head (kdb_buf s)) := b],
      head := next_pos (head (kdb_buf s))\<rparr>\<rparr>"

definition after_get :: "'a ioq_state_scheme \<Rightarrow> 'a ioq_state_scheme" where
  "after_get s = s\<lparr>kdb_buf := (kdb_buf s)\<lparr>tail := next_pos (tail (kdb_buf s))\<rparr>\<rparr>"

lemma putchar_holds:
  assumes "ioq_holds s xs" "length xs < 63"
  shows "ioq_putchar b s = Inr (after_put b s)" "ioq_holds (after_put b s) (xs @ [b])"
proof -
  let ?q = "kdb_buf s"
  have q: "get_intr_status s = INTR_OFF" "producer ?q = 0" "consumer ?q = 0" "length (buf ?q) = 64"
      "head ?q < 64" "tail ?q < 64" "ring ?q = xs"
    using assms(1) by (simp_all add: ioq_holds_def)
  have nf: "next_pos (head ?q) \<noteq> tail ?q" using ring_full[OF q(5,6)] q(7) assms(2) by simp
  have u: "unat (head ?q) < 64" using q(5) by (simp add: word_less_nat_alt)
  show "ioq_putchar b s = Inr (after_put b s)"
    using q nf u by (simp add: after_put_def ioq_putchar_def ioqueue_is_full_def upd_ioq_def Let_def)
  show "ioq_holds (after_put b s) (xs @ [b])"
    using q ring_put[OF q(4-6) nf, of b] next_pos_less by (simp add: after_put_def ioq_holds_def get_intr_status_def)
qed

lemma getchar_holds:
  assumes "ioq_holds s (x # xs)"
  shows "ioq_getchar s = Inr (x, after_get s)" "ioq_holds (after_get s) xs"
proof -
  let ?q = "kdb_buf s"
  have q: "get_intr_status s = INTR_OFF" "producer ?q = 0" "consumer ?q = 0" "length (buf ?q) = 64"
      "head ?q < 64" "tail ?q < 64" "ring ?q = x # xs"
    using assms(1) by (simp_all add: ioq_holds_def)
  have ne: "head ?q \<noteq> tail ?q" using ring_empty[OF q(5,6)] q(7) by auto
  have u: "unat (tail ?q) < 64" using q(6) by (simp add: word_less_nat_alt)
  show "ioq_getchar s = Inr (x, after_get s)"
    using q ne u ring_get[OF q(5,6) ne] by (simp add: after_get_def ioq_getchar_def ioqueue_is_empty_def upd_ioq_def)
  show "ioq_holds (after_get s) xs"
    using q ring_get[OF q(5,6) ne] next_pos_less by (simp add: after_get_def ioq_holds_def get_intr_status_def)
qed

interpretation ioq: fifo ioq_holds ioq_room ioq_putchar ioq_getchar
proof unfold_locales
  fix s :: "'a ioq_state_scheme" and xs x ys
  assume h: "ioq_holds s xs" and r: "ioq_room (x # ys) s"
  have "length xs + Suc (length ys) < 64" using h r by (simp add: ioq_holds_def ioq_room_def)
  then show "\<exists>s'. ioq_putchar x s = Inr s' \<and> ioq_holds s' (xs @ [x]) \<and> ioq_room ys s'"
    using putchar_holds[OF h, of x] by (auto simp: ioq_holds_def ioq_room_def)
next
  fix s :: "'a ioq_state_scheme" and x xs
  assume "ioq_holds s (x # xs)"
  then show "\<exists>s'. ioq_getchar s = Inr (x, s') \<and> ioq_holds s' xs" using getchar_holds by blast
qed

section \<open>Properties\<close>

text \<open>
  C33: with interrupts closed and nobody waiting, up to 63 bytes put into an empty queue come out of
  it in the same order, and the queue is empty again.
\<close>

theorem ioqueue_first_in_first_out:
  assumes "ioq_holds s []" and "length ys < 64"
  shows "\<exists>s' s''. run_puts ioq_putchar ys s = Inr s' \<and> run_gets ioq_getchar (length ys) s' = Inr (ys, s'') \<and>
    ioq_holds s'' []"
  by (rule ioq.in_order[OF assms(1)]) (use assms in \<open>simp add: ioq_room_def ioq_holds_def\<close>)

text \<open>
  A reader that waits is not woken. When the queue is not full and a thread is entered as the
  waiting consumer, then \<^verbatim>\<open>ioq_putchar\<close>, if it returns at all, has left that thread's state
  as it was and the thread entered as waiting, and has overwritten its saved stack pointer by 0;
  and if the word at the thread's saved stack pointer is not the control block of a blocked
  thread, it ends in a failed assertion.
\<close>

theorem putchar_loses_consumer:
  assumes "get_intr_status s = INTR_OFF" and "next_pos (head (kdb_buf s)) \<noteq> tail (kdb_buf s)"
    and "unat (head (kdb_buf s)) < length (buf (kdb_buf s))"
    and "consumer (kdb_buf s) = c" and "c \<noteq> 0" and "self_kernel_stack (pcbs s c) = k" and "k \<noteq> 0" and "k \<noteq> c"
  shows "(\<not> can_unlock (status (pcbs s k)) \<longrightarrow> (\<exists>msg. ioq_putchar b s = Inl (Assert_failed msg))) \<and>
    (\<forall>s'. ioq_putchar b s = Inr s' \<longrightarrow> status (pcbs s' c) = status (pcbs s c) \<and>
       self_kernel_stack (pcbs s' c) = 0 \<and> consumer (kdb_buf s') = c)"
proof -
  let ?s1 = "upd_ioq (\<lambda>q. q\<lparr>head := next_pos (head q)\<rparr>) (upd_ioq (\<lambda>q. q\<lparr>buf := (buf q)[unat (head q) := b]\<rparr>) s)"
  have e: "ioq_putchar b s = bnd (thread_unlock k ?s1) (\<lambda>s. Inr (upd_pcb c (\<lambda>p. p\<lparr>self_kernel_stack := 0\<rparr>) s))"
    using assms by (simp add: ioq_putchar_def ioqueue_is_full_def ioq_wakeup_def upd_ioq_def Let_def)
  have p: "pcbs ?s1 = pcbs s" by (simp add: upd_ioq_def)
  show ?thesis
  proof (intro conjI impI allI)
    assume "\<not> can_unlock (status (pcbs s k))"
    then show "\<exists>msg. ioq_putchar b s = Inl (Assert_failed msg)"
      using thread_unlock_fails[of ?s1 k] e p by auto
  next
    fix s' assume "ioq_putchar b s = Inr s'"
    then obtain t where t: "thread_unlock k ?s1 = Inr t" "s' = upd_pcb c (\<lambda>p. p\<lparr>self_kernel_stack := 0\<rparr>) t"
      using e by (auto simp: outcome)
    obtain h where h: "t = ?s1\<lparr>lheap := h, pcbs := (pcbs ?s1)(k := (pcbs ?s1 k)\<lparr>status := TASK_READY\<rparr>)\<rparr>"
      using thread_unlock_frame[OF t(1)] by blast
    show "status (pcbs s' c) = status (pcbs s c)" "self_kernel_stack (pcbs s' c) = 0" "consumer (kdb_buf s') = c"
      using assms(4,8) by (simp_all add: t(2) h upd_pcb_def upd_ioq_def)
  qed
qed

section \<open>Witnesses\<close>

definition empty_ioq :: ioqueue where
  "empty_ioq = \<lparr>producer = 0, consumer = 0, buf = replicate 64 0, head = 62, tail = 62\<rparr>"

definition ioq_sample :: "ioqueue \<Rightarrow> unit ioq_state_scheme" where
  "ioq_sample q = timer_state.extend (timer_state.truncate sample_state) \<lparr>kdb_buf = q, io_lock = 0xc0009000\<rparr>"

lemmas ioq_sample_defs = ioq_sample_def timer_state.defs sample_state_def

lemma ioq_sample_off: "get_intr_status (ioq_sample q) = INTR_OFF"
  by (simp add: ioq_sample_defs get_intr_status_def bit_numeral_simps)

theorem ioqueue_first_in_first_out_witness:
  "\<exists>s' s''. run_puts ioq_putchar [104, 105, 33] (ioq_sample empty_ioq) = Inr s' \<and>
    run_gets ioq_getchar 3 s' = Inr ([104, 105, 33], s'')"
proof -
  have "ioq_holds (ioq_sample empty_ioq) []"
    using ioq_sample_off by (simp add: ioq_holds_def) (simp add: ioq_sample_defs empty_ioq_def ring_def)
  from ioqueue_first_in_first_out[OF this, of "[104, 105, 33]"] show ?thesis
    by (simp add: eval_nat_numeral) blast
qed

definition waiting_sample :: "unit ioq_state_scheme" where
  "waiting_sample = (ioq_sample (empty_ioq\<lparr>consumer := 0xc0101000\<rparr>))
     \<lparr>pcbs := \<lambda>p. sample_pcb p (if p = 0xc0101000 then TASK_BLOCKED else TASK_DIED)\<rparr>"

theorem putchar_loses_consumer_witness:
  "\<exists>msg. ioq_putchar 97 waiting_sample = Inl (Assert_failed msg)"
proof -
  have i: "get_intr_status waiting_sample = INTR_OFF"
    using ioq_sample_off by (simp add: waiting_sample_def get_intr_status_def)
  have "next_pos (head (kdb_buf waiting_sample)) \<noteq> tail (kdb_buf waiting_sample)"
      "unat (head (kdb_buf waiting_sample)) < length (buf (kdb_buf waiting_sample))"
      "consumer (kdb_buf waiting_sample) = 0xc0101000" "self_kernel_stack (pcbs waiting_sample 0xc0101000) = 0xc0101e50"
      "\<not> can_unlock (status (pcbs waiting_sample 0xc0101e50))"
    by (simp_all add: waiting_sample_def ioq_sample_defs empty_ioq_def next_pos_def buf_size_def sample_pcb_def can_unlock_def)
  with putchar_loses_consumer[OF i this(1,2,3) _ this(4), of 97] show ?thesis by simp
qed

end
