(* ===== verification/Keyboard.thy ===== *)
theory Keyboard
  imports Ioqueue
begin

text \<open>
  The keyboard (\<^verbatim>\<open>device/keyboard.c\<close>). The byte read from the keyboard controller's
  port is the argument of the handler. Characters are their ASCII codes.

  Shown: a key without modifiers is echoed and put into the queue as the table says; and no byte
  from the controller ever sets one of the modifier flags, so that the shifted column of the table
  is never used.
\<close>

section \<open>Operations\<close>

record kbd_state = ioq_state +
  ctrl_status :: bool
  shift_status :: bool
  alt_status :: bool
  caps_lock_status :: bool
  ext_scancode :: bool

definition shift_l_make :: u16 where "shift_l_make = 0x2a"
definition shift_r_make :: u16 where "shift_r_make = 0x36"
definition alt_l_make :: u16 where "alt_l_make = 0x38"
definition alt_r_make :: u16 where "alt_r_make = 0xe038"
definition ctrl_l_make :: u16 where "ctrl_l_make = 0x1d"
definition ctrl_r_make :: u16 where "ctrl_r_make = 0xe01d"

definition keymap :: "(u8 \<times> u8) list" where
  "keymap = [
     (0, 0), (27, 27), (49, 33), (50, 64), (51, 35), (52, 36),
     (53, 37), (54, 94), (55, 38), (56, 42), (57, 40), (48, 41),
     (45, 95), (61, 43), (8, 8), (9, 9), (113, 81), (119, 87),
     (101, 69), (114, 82), (116, 84), (121, 89), (117, 85), (105, 73),
     (111, 79), (112, 80), (91, 123), (93, 125), (13, 13), (0, 0),
     (97, 65), (115, 83), (100, 68), (102, 70), (103, 71), (104, 72),
     (106, 74), (107, 75), (108, 76), (59, 58), (39, 34), (96, 126),
     (0, 0), (92, 124), (122, 90), (120, 88), (99, 67), (118, 86),
     (98, 66), (110, 78), (109, 77), (44, 60), (46, 62), (47, 63),
     (0, 0), (42, 42), (0, 0), (32, 32), (0, 0)]"

definition break_code :: "u16 \<Rightarrow> 'a kbd_state_scheme \<Rightarrow> 'a kbd_state_scheme" where
  "break_code scancode s =
     (let make_code = scancode AND 0xff7f in
      if make_code = ctrl_l_make \<or> make_code = ctrl_r_make then s\<lparr>ctrl_status := False\<rparr>
      else if make_code = shift_l_make \<or> make_code = shift_r_make then s\<lparr>shift_status := False\<rparr>
      else if make_code = alt_l_make \<or> make_code = alt_r_make then s\<lparr>alt_status := False\<rparr>
      else s)"

definition shifted :: "u16 \<Rightarrow> bool \<Rightarrow> bool \<Rightarrow> bool" where
  "shifted scancode shift_down_last alt_down_last \<longleftrightarrow>
     (if scancode < 0x0e \<or> scancode = 0x29 \<or> scancode = 0x1a \<or> scancode = 0x1b \<or> scancode = 0x2b \<or>
         scancode = 0x27 \<or> scancode = 0x28 \<or> scancode = 0x33 \<or> scancode = 0x34 \<or> scancode = 0x35
      then shift_down_last
      else if shift_down_last \<and> alt_down_last then False
      else shift_down_last \<or> alt_down_last)"

definition intr_keyboard_handler :: "u8 \<Rightarrow> 'a kbd_state_scheme \<Rightarrow> error + 'a kbd_state_scheme" where
  "intr_keyboard_handler byte s =
     (let shift_down_last = shift_status s;
          alt_down_last = alt_status s;
          scancode = ucast byte :: u16
      in if scancode = 0xe0 then Inr (s\<lparr>ext_scancode := True\<rparr>)
      else let (scancode, s) = (if ext_scancode s then (scancode OR 0xe000, s\<lparr>ext_scancode := False\<rparr>)
                                else (scancode, s))
      in if scancode AND 0x0080 \<noteq> 0 then Inr (break_code scancode s)
      else if (scancode > 0x00 \<and> scancode < 0x3b) \<or> (scancode = alt_r_make \<and> scancode = ctrl_l_make)
      then let shift = shifted scancode shift_down_last alt_down_last;
               index = unat (scancode AND 0x00ff)
           in bnd (get_at keymap index) (\<lambda>k.
              let ch = (if shift then snd k else fst k) in
              if ch \<noteq> 0
              then bnd (ioqueue_is_full s) (\<lambda>full.
                   if \<not> full then ioq_putchar ch (putChar ch s) else Inr s)
              else Inr s)
      else Inr (putStr ''unknow char\<newline>'' s))"

definition keyboard_init :: "'a kbd_state_scheme \<Rightarrow> error + 'a kbd_state_scheme" where
  "keyboard_init s =
     (let s = ioqueue_init (putStr ''keyboard init \<newline>'' s) in
      bnd (register_handler 0x21 intr_keyboard_handler_p s) (\<lambda>s.
      Inr (putStr ''keyboard init done \<newline>'' s)))"

section \<open>Bytes from the controller\<close>

fun scan :: "u8 list \<Rightarrow> 'a kbd_state_scheme \<Rightarrow> error + 'a kbd_state_scheme" where
  "scan [] s = Inr s"
| "scan (b # bs) s = bnd (intr_keyboard_handler b s) (\<lambda>s. scan bs s)"

definition no_modifier :: "'a kbd_state_scheme \<Rightarrow> bool" where
  "no_modifier s \<longleftrightarrow> \<not> ctrl_status s \<and> \<not> shift_status s \<and> \<not> alt_status s"

text \<open>What the table gives for a byte that is pressed without modifiers.\<close>

definition plain_char :: "u8 \<Rightarrow> u8 option" where
  "plain_char b = (if 0 < b \<and> b < 0x3b \<and> fst (keymap ! unat b) \<noteq> 0 then Some (fst (keymap ! unat b)) else None)"

lemma length_keymap: "length keymap = 59" by (simp add: keymap_def)

lemma small_byte:
  assumes "b < (0x3b :: u8)"
  shows "(ucast b :: u16) \<noteq> 0xe0" "(ucast b :: u16) AND 0x80 = 0" "(ucast b :: u16) < 0x3b"
    "unat ((ucast b :: u16) AND 0xff) = unat b" "(0 < (ucast b :: u16)) = (0 < b)" "unat b < 59"
proof -
  show u: "unat b < 59" using assms by (simp add: word_less_nat_alt)
  have e: "unat (ucast b :: u16) = unat b" using u by (simp add: unsigned_ucast_eq take_bit_nat_eq_self)
  have m: "(0xff :: u16) = mask 8" by (simp add: mask_eq_exp_minus_1)
  show "unat ((ucast b :: u16) AND 0xff) = unat b"
    unfolding m take_bit_eq_mask[symmetric] using u by (simp add: unsigned_take_bit_eq e take_bit_nat_eq_self)
  show "(ucast b :: u16) < 0x3b" "(0 < (ucast b :: u16)) = (0 < b)" using u e by (simp_all add: word_less_nat_alt)
  show "(ucast b :: u16) \<noteq> 0xe0" using u e by auto
  have "\<not> bit (ucast b :: u16) 7"
  proof -
    have "\<not> bit (unat b) 7" using u by (simp add: bit_iff_odd)
    then show ?thesis by (simp add: bit_simps)
  qed
  then show "(ucast b :: u16) AND 0x80 = 0" using and_exp_eq_0_iff_not_bit[of "ucast b :: u16" 7] by simp
qed

lemma handler_plain:
  assumes "no_modifier s" "\<not> ext_scancode s" "plain_char b = Some ch" "ioq_holds s xs" "length xs < 63"
  shows "intr_keyboard_handler b s = Inr (after_put ch (putChar ch s))"
proof -
  have b: "b < 0x3b" "0 < b" and ch: "ch = fst (keymap ! unat b)" "ch \<noteq> 0"
    using assms(3) by (auto simp: plain_char_def split: if_splits)
  note sb = small_byte[OF b(1)]
  have h: "ioq_holds (putChar ch s) xs" using assms(4) by (simp add: ioq_holds_def putChar_def get_intr_status_def)
  have full: "ioqueue_is_full s = Inr False"
    using assms(4,5) ring_full[of "kdb_buf s"] by (auto simp: ioqueue_is_full_def ioq_holds_def)
  have sh: "\<not> shifted (ucast b) (shift_status s) (alt_status s)" using assms(1) by (simp add: shifted_def no_modifier_def)
  show ?thesis
    using assms(2) sb b ch sh full putchar_holds(1)[OF h assms(5), of ch] length_keymap
    by (simp add: intr_keyboard_handler_def Let_def)
qed

lemma putchar_frame:
  assumes "ioq_putchar ch u = Inr t"
  shows "\<exists>h P q. t = u\<lparr>lheap := h, pcbs := P, kdb_buf := q\<rparr>"
proof -
  obtain b where t: "bnd (Inr (upd_ioq (\<lambda>q. q\<lparr>buf := b, head := next_pos (head q)\<rparr>) u)) (\<lambda>s.
      if consumer (kdb_buf s) \<noteq> 0 then ioq_wakeup (consumer (kdb_buf s)) s else Inr s) = Inr t"
    using assms by (auto simp: ioq_putchar_def upd_ioq_def Let_def outcome split: if_splits)
  let ?s1 = "upd_ioq (\<lambda>q. q\<lparr>buf := b, head := next_pos (head q)\<rparr>) u"
  show ?thesis
  proof (cases "consumer (kdb_buf ?s1) = 0")
    case True
    then have "t = ?s1" using t by simp
    also have "\<dots> = u\<lparr>lheap := lheap u, pcbs := pcbs u, kdb_buf := kdb_buf ?s1\<rparr>" by (simp add: upd_ioq_def)
    finally show ?thesis by blast
  next
    case False
    then obtain w k where w: "thread_unlock k ?s1 = Inr w" "t = upd_pcb (consumer (kdb_buf ?s1)) (\<lambda>p. p\<lparr>self_kernel_stack := 0\<rparr>) w"
      using t by (auto simp: ioq_wakeup_def outcome split: if_splits)
    obtain h P where "w = ?s1\<lparr>lheap := h, pcbs := P\<rparr>" using thread_unlock_frame[OF w(1)] by blast
    then have "t = ?s1\<lparr>lheap := h, pcbs := pcbs t\<rparr>" using w(2) by (simp add: upd_pcb_def)
    also have "\<dots> = u\<lparr>lheap := h, pcbs := pcbs t, kdb_buf := kdb_buf ?s1\<rparr>" by (cases u) (simp add: upd_ioq_def)
    finally show ?thesis by blast
  qed
qed

lemma handler_no_modifier:
  assumes "no_modifier s" "intr_keyboard_handler b s = Inr s'"
  shows "no_modifier s'"
proof -
  have put: "no_modifier t" if "ioq_putchar ch u = Inr t" "no_modifier u" for ch t and u :: "'a kbd_state_scheme"
    using putchar_frame[OF that(1)] that(2) by (auto simp: no_modifier_def)
  have scr: "no_modifier (putChar ch u)" "no_modifier (putStr m u)" "no_modifier (u\<lparr>ext_scancode := e\<rparr>)" "no_modifier (break_code c u)"
    if "no_modifier u" for ch m e c and u :: "'a kbd_state_scheme"
    using that by (auto simp: no_modifier_def putChar_def putStr_def break_code_def Let_def)
  have ext: "no_modifier (if ext_scancode s then s\<lparr>ext_scancode := False\<rparr> else s)" using scr(3)[OF assms(1)] assms(1) by simp
  show ?thesis
    using assms put scr
    by (auto simp: intr_keyboard_handler_def Let_def outcome split: if_splits prod.splits)
qed

lemma scan_plain:
  "\<lbrakk> no_modifier s; \<not> ext_scancode s; ioq_holds s xs; length xs + length bs < 64; \<forall>b \<in> set bs. plain_char b \<noteq> None \<rbrakk> \<Longrightarrow>
   \<exists>s'. scan bs s = Inr s' \<and> ioq_holds s' (xs @ map (\<lambda>b. the (plain_char b)) bs) \<and>
     screen s' = screen s @ map (\<lambda>b. Put_char (the (plain_char b))) bs"
proof (induction bs arbitrary: s xs)
  case Nil
  then show ?case by simp
next
  case (Cons b bs)
  obtain ch where ch: "plain_char b = Some ch" using Cons.prems(5) by auto
  have len: "length xs < 63" using Cons.prems(4) by simp
  let ?t = "after_put ch (putChar ch s)"
  have h: "intr_keyboard_handler b s = Inr ?t" by (rule handler_plain[OF Cons.prems(1,2) ch Cons.prems(3) len])
  have hp: "ioq_holds (putChar ch s) xs" using Cons.prems(3) by (simp add: ioq_holds_def putChar_def get_intr_status_def)
  have t: "no_modifier ?t" "\<not> ext_scancode ?t" "ioq_holds ?t (xs @ [ch])" "screen ?t = screen s @ [Put_char ch]"
    using Cons.prems(1,2) putchar_holds(2)[OF hp len] by (simp_all add: no_modifier_def after_put_def putChar_def)
  obtain s' where "scan bs ?t = Inr s'" "ioq_holds s' ((xs @ [ch]) @ map (\<lambda>b. the (plain_char b)) bs)"
      "screen s' = screen ?t @ map (\<lambda>b. Put_char (the (plain_char b))) bs"
    using Cons.IH[OF t(1-3)] Cons.prems(4,5) by (simp del: append_assoc) blast
  then show ?case using h ch t(4) by simp
qed

section \<open>Properties\<close>

text \<open>
  C34: keys pressed without modifiers arrive in order: with the queue in order and room in it, the
  handler puts the character that the table gives for each byte into the queue and echoes it, and
  does nothing else to either.
\<close>

theorem keyboard_queues_plain_keys:
  assumes "no_modifier s" and "\<not> ext_scancode s" and "ioq_holds s xs" and "length xs + length bs < 64"
    and "\<forall>b \<in> set bs. plain_char b \<noteq> None"
  shows "\<exists>s'. scan bs s = Inr s' \<and> ioq_holds s' (xs @ map (\<lambda>b. the (plain_char b)) bs) \<and>
     screen s' = screen s @ map (\<lambda>b. Put_char (the (plain_char b))) bs"
  by (rule scan_plain[OF assms])

text \<open>
  No sequence of bytes from the controller, those of the shift, control and alt keys included,
  ever sets a modifier flag: the code clears the flags when such a key is released and has no place
  that sets them.
\<close>

theorem keyboard_never_sets_modifier:
  assumes "no_modifier s" and "scan bs s = Inr s'"
  shows "no_modifier s'"
  using assms by (induction bs arbitrary: s) (auto simp: outcome dest: handler_no_modifier)

section \<open>Witnesses\<close>

definition kbd_sample :: "unit kbd_state_scheme" where
  "kbd_sample = ioq_state.extend (ioq_state.truncate (ioq_sample empty_ioq))
     \<lparr>ctrl_status = False, shift_status = False, alt_status = False, caps_lock_status = False, ext_scancode = False\<rparr>"

lemma kbd_sample_holds: "ioq_holds kbd_sample []"
  by (simp add: ioq_holds_def kbd_sample_def ioq_state.defs ioq_sample_defs empty_ioq_def ring_def get_intr_status_def
      bit_numeral_simps)

theorem keyboard_queues_plain_keys_witness:
  "\<exists>s'. scan [0x23, 0x17] kbd_sample = Inr s' \<and> ioq_holds s' [104, 105] \<and> screen s' = [Put_char 104, Put_char 105]"
proof -
  have p: "plain_char 0x23 = Some 104" "plain_char 0x17 = Some 105" by (simp_all add: plain_char_def keymap_def)
  have "no_modifier kbd_sample" "\<not> ext_scancode kbd_sample" "screen kbd_sample = []"
    by (simp_all add: no_modifier_def kbd_sample_def ioq_state.defs ioq_sample_defs)
  then show ?thesis
    using keyboard_queues_plain_keys[OF _ _ kbd_sample_holds, of "[0x23, 0x17]"] p by simp
qed

theorem keyboard_never_sets_modifier_witness:
  "\<exists>s'. scan [0x2a] kbd_sample = Inr s' \<and> no_modifier s'"
proof -
  have n: "no_modifier kbd_sample" "\<not> ext_scancode kbd_sample"
    by (simp_all add: no_modifier_def kbd_sample_def ioq_state.defs ioq_sample_defs)
  have s: "scan [0x2a] kbd_sample = Inr kbd_sample"
    using n(2) by (simp add: intr_keyboard_handler_def keymap_def shifted_def Let_def)
  show ?thesis using keyboard_never_sets_modifier[OF n(1) s] s by blast
qed

end
