(* ===== verification/Stdio.thy ===== *)
theory Stdio
  imports CString
begin

text \<open>
  Formatting numbers and text (\<^verbatim>\<open>lib/stdio.c\<close>): \<^verbatim>\<open>itoa\<close>,
  \<^verbatim>\<open>vsprintf\<close> and \<^verbatim>\<open>sprintf\<close>. The output object is a byte list with the
  position of the write pointer, the format an object read from its start, the variable arguments
  the 32-bit words on the stack behind the format, and \<open>mem\<close> gives the object a pointer among them
  points to.

  Shown: \<^verbatim>\<open>itoa\<close> writes the digits of the number in the base, and they can be read
  back; \<^verbatim>\<open>vsprintf\<close> writes what an independent rendering of the format gives and stays in
  the object when that fits; it writes no terminator of its own; \<^verbatim>\<open>%d\<close> prints every
  number as unsigned.
\<close>

section \<open>Operations\<close>

text \<open>
  A division by zero raises the exception of the processor. With base 1 the quotient never gets
  smaller, so the recursion does not end unless the number is 0.
\<close>

function itoa :: "u32 \<Rightarrow> u8 list \<times> nat \<Rightarrow> u32 \<Rightarrow> error + (u8 list \<times> nat)" where
  "itoa number str base =
     (if base = 0 then Inl (Exception ''#DE Divide Error'')
      else if base = 1 \<and> number \<noteq> 0 then Inl Diverges
      else let remainder = number mod base; divRes = number div base in
           bnd (if divRes \<noteq> 0 then itoa divRes str base else Inr str) (\<lambda>(buf, p).
           bnd (put_at buf p (ucast (if remainder < 10 then remainder + 48 else remainder - 10 + 65))) (\<lambda>buf.
           Inr (buf, p + 1))))"
  by pat_completeness auto

lemma div_word_less:
  assumes "b \<noteq> 0" "b \<noteq> 1" "n div b \<noteq> (0 :: u32)"
  shows "unat (n div b) < unat n"
proof -
  have "unat b > 1" using assms(1,2) by (metis One_nat_def Suc_lessI unat_gt_0 unat_1 word_unat_eq_iff)
  moreover have "unat n > 0" using assms(3) by (auto simp: unat_gt_0)
  ultimately show ?thesis by (simp add: unat_div)
qed

termination itoa
  by (relation "measure (\<lambda>(number, str, base). unat number)") (auto intro: div_word_less)

declare itoa.simps [simp del]

text \<open>
  The loop of \<^verbatim>\<open>vsprintf\<close>. \<^verbatim>\<open>va_arg\<close> takes the next word; reading behind the last
  one is \<open>Out_of_bounds\<close>. \<^verbatim>\<open>number\<close> is unsigned, so that \<^verbatim>\<open>number < 0\<close> never
  holds. The character after an unknown directive is not skipped.
\<close>

definition va_arg :: "u32 list \<Rightarrow> error + (u32 \<times> u32 list)" where
  "va_arg ap = (case ap of [] \<Rightarrow> Inl Out_of_bounds | w # ap \<Rightarrow> Inr (w, ap))"

definition char_ptr :: "(u32 \<Rightarrow> u8 list) \<Rightarrow> u32 \<Rightarrow> ptr" where
  "char_ptr mem p = (if p = 0 then None else Some (mem p, 0))"

definition directive ::
  "(u32 \<Rightarrow> u8 list) \<Rightarrow> u8 \<Rightarrow> u8 list \<times> nat \<Rightarrow> u32 list \<Rightarrow> error + ((u8 list \<times> nat) \<times> u32 list) option" where
  "directive mem c str ap =
     (if c = 120 then bnd (va_arg ap) (\<lambda>(number, ap).
        bnd (itoa number str 16) (\<lambda>str. Inr (Some (str, ap))))
      else if c = 115 then bnd (va_arg ap) (\<lambda>(str_copy, ap).
        bnd (strcpy (Some str) (char_ptr mem str_copy)) (\<lambda>buf.
        bnd (strlen (char_ptr mem str_copy)) (\<lambda>len. Inr (Some ((buf, snd str + unat len), ap)))))
      else if c = 99 then bnd (va_arg ap) (\<lambda>(ch, ap).
        bnd (put_at (fst str) (snd str) (ucast ch)) (\<lambda>buf. Inr (Some ((buf, snd str + 1), ap))))
      else if c = 100 then bnd (va_arg ap) (\<lambda>(number, ap).
        bnd (if number < 0
             then bnd (put_at (fst str) (snd str) 45) (\<lambda>buf. Inr (0 - number, (buf, snd str + 1)))
             else Inr (number, str)) (\<lambda>(number, str).
        bnd (itoa number str 10) (\<lambda>str. Inr (Some (str, ap)))))
      else Inr None)"

function vsprintf_loop ::
  "(u32 \<Rightarrow> u8 list) \<Rightarrow> u8 list \<Rightarrow> nat \<Rightarrow> u8 list \<times> nat \<Rightarrow> u32 list \<Rightarrow> error + (u8 list \<times> nat)" where
  "vsprintf_loop mem format format_index str ap =
     (if format_index < length format
      then (if format ! format_index = 0 then Inr str
            else if format ! format_index \<noteq> 37
            then bnd (put_at (fst str) (snd str) (format ! format_index)) (\<lambda>buf.
                 vsprintf_loop mem format (format_index + 1) (buf, snd str + 1) ap)
            else bnd (get_at format (format_index + 1)) (\<lambda>c.
                 bnd (directive mem c str ap) (\<lambda>r.
                 case r of Some (str, ap) \<Rightarrow> vsprintf_loop mem format (format_index + 2) str ap
                 | None \<Rightarrow> vsprintf_loop mem format (format_index + 1) str ap)))
      else Inl Out_of_bounds)"
  by pat_completeness auto
termination
  by (relation "measure (\<lambda>(mem, format, i, str, ap). length format - i)") auto

declare vsprintf_loop.simps [simp del]

definition vsprintf ::
  "(u32 \<Rightarrow> u8 list) \<Rightarrow> u8 list \<Rightarrow> u8 list \<Rightarrow> u32 list \<Rightarrow> error + (u32 \<times> u8 list)" where
  "vsprintf mem str format ap =
     bnd (vsprintf_loop mem format 0 (str, 0) ap) (\<lambda>(buf, p).
     bnd (strlen (Some (buf, 0))) (\<lambda>len. Inr (len, buf)))"

definition sprintf ::
  "(u32 \<Rightarrow> u8 list) \<Rightarrow> u8 list \<Rightarrow> u8 list \<Rightarrow> u32 list \<Rightarrow> error + (u32 \<times> u8 list)" where
  "sprintf mem buf format args = vsprintf mem buf format args"

section \<open>The digits of a number\<close>

text \<open>The reference: the digits by repeated division, and how they are read.\<close>

definition digit_char :: "nat \<Rightarrow> u8" where
  "digit_char d = of_nat (if d < 10 then 48 + d else 55 + d)"

fun digits :: "nat \<Rightarrow> nat \<Rightarrow> u8 list" where
  "digits b n = (if b < 2 \<or> n < b then [digit_char n] else digits b (n div b) @ [digit_char (n mod b)])"

declare digits.simps [simp del]

definition char_digit :: "u8 \<Rightarrow> nat" where
  "char_digit c = (if unat c < 58 then unat c - 48 else unat c - 55)"

definition read_digits :: "nat \<Rightarrow> u8 list \<Rightarrow> nat" where
  "read_digits b cs = foldl (\<lambda>n c. b * n + char_digit c) 0 cs"

lemma unat_digit_char: "d < 36 \<Longrightarrow> unat (digit_char d) = (if d < 10 then 48 + d else 55 + d)"
  by (simp add: digit_char_def unat_of_nat del: of_nat_add)

lemma char_digit_char: "d < 36 \<Longrightarrow> char_digit (digit_char d) = d"
  by (simp add: char_digit_def digit_char_def unat_of_nat)

lemma read_digits_snoc: "read_digits b (cs @ [c]) = b * read_digits b cs + char_digit c"
  by (simp add: read_digits_def)

lemma read_digits_digits: "\<lbrakk> 2 \<le> b; b \<le> 36 \<rbrakk> \<Longrightarrow> read_digits b (digits b n) = n"
proof (induction b n rule: digits.induct)
  case (1 b n)
  show ?case
  proof (cases "n < b")
    case True
    then show ?thesis using 1 by (simp add: digits.simps[of b n] read_digits_def char_digit_char)
  next
    case False
    have "n mod b < b" using 1(2) by simp
    then have "char_digit (digit_char (n mod b)) = n mod b" using 1(3) by (intro char_digit_char) linarith
    then show ?thesis using 1 False by (simp add: digits.simps[of b n] read_digits_snoc)
  qed
qed

lemma digits_nonzero: "2 \<le> b \<Longrightarrow> b \<le> 36 \<Longrightarrow> 0 \<notin> set (digits b n)"
proof (induction b n rule: digits.induct)
  case (1 b n)
  have z: "digit_char d \<noteq> 0" if "d < 36" for d
    using that by (simp add: digit_char_def word_unat_eq_iff unat_of_nat)
  have "n mod b < b" using 1(2) by simp
  then have "n mod b < 36" using 1(3) by linarith
  then show ?case using 1 z[of n] z[of "n mod b"] by (auto simp: digits.simps[of b n])
qed

lemma digits_no_leading_zero: "2 \<le> b \<Longrightarrow> b \<le> 36 \<Longrightarrow> n > 0 \<Longrightarrow> hd (digits b n) \<noteq> 48"
proof (induction b n rule: digits.induct)
  case (1 b n)
  have ne: "digits b m \<noteq> []" for m by (simp add: digits.simps[of b m])
  have "digit_char n \<noteq> 48" if "n < 36"
    using that 1(4) by (simp add: digit_char_def word_unat_eq_iff unat_of_nat)
  then show ?case using 1 ne by (auto simp: digits.simps[of b n] div_greater_zero_iff)
qed

section \<open>What \<^verbatim>\<open>itoa\<close> writes\<close>

definition write_at :: "u8 list \<Rightarrow> nat \<Rightarrow> u8 list \<Rightarrow> u8 list" where
  "write_at b p cs = take p b @ cs @ drop (p + length cs) b"

lemma length_write_at [simp]: "p + length cs \<le> length b \<Longrightarrow> length (write_at b p cs) = length b"
  by (simp add: write_at_def)

lemma write_at_Nil [simp]: "write_at b p [] = b"
  by (simp add: write_at_def)

lemma write_at_one: "p < length b \<Longrightarrow> write_at b p [c] = b[p := c]"
  by (simp add: write_at_def upd_conv_take_nth_drop)

lemma write_at_append:
  assumes "p + length cs + length ds \<le> length b"
  shows "write_at (write_at b p cs) (p + length cs) ds = write_at b p (cs @ ds)"
proof -
  have "min (length b) p = p" using assms by simp
  then show ?thesis using assms by (simp add: write_at_def drop_drop ac_simps)
qed

lemma digit_word:
  assumes "r < (36 :: u32)"
  shows "(ucast (if r < 10 then r + 48 else r - 10 + 65) :: u8) = digit_char (unat r)"
proof -
  have u: "unat r < 36" using assms by (simp add: word_less_nat_alt)
  have l: "r < 10 \<longleftrightarrow> unat r < 10" by (simp add: word_less_nat_alt)
  have a: "unat (r + 48) = unat r + 48" using u by (subst unat_add_lem[THEN iffD1]) simp_all
  have s: "unat (r - 10) = unat r - 10" if "\<not> r < 10" using that by (simp add: unat_sub linorder_not_less)
  have b: "unat (r - 10 + 65) = unat r + 55" if "\<not> r < 10"
    using u s[OF that] that l by (subst unat_add_lem[THEN iffD1]) simp_all
  have "(ucast w :: u8) = of_nat (unat w)" for w :: u32 by simp
  with a b l show ?thesis by (simp only: digit_char_def split: if_splits) (simp add: add.commute)
qed

lemma itoa_digits:
  fixes n b :: u32
  assumes "2 \<le> unat b" "unat b \<le> 36"
  defines "ds \<equiv> \<lambda>n. digits (unat b) (unat (n :: u32))"
  shows "itoa n (buf, p) b = (if p + length (ds n) \<le> length buf
    then Inr (write_at buf p (ds n), p + length (ds n)) else Inl Out_of_bounds)"
proof (induction "unat n" arbitrary: n rule: less_induct)
  case less
  have b: "b \<noteq> 0" "b \<noteq> 1" using assms(1) by auto
  have "unat n mod unat b < unat b" using assms(1) by simp
  then have "n mod b < 36" using assms(2) by (simp add: word_less_nat_alt unat_mod)
  then have c: "(ucast (if n mod b < 10 then n mod b + 48 else n mod b - 10 + 65) :: u8) =
      digit_char (unat n mod unat b)" by (simp only: digit_word unat_mod)
  have s: "itoa n (buf, p) b = bnd (if n div b \<noteq> 0 then itoa (n div b) (buf, p) b else Inr (buf, p)) (\<lambda>(buf, p).
      bnd (put_at buf p (digit_char (unat n mod unat b))) (\<lambda>buf. Inr (buf, p + 1)))"
    using b by (subst itoa.simps) (simp only: Let_def c simp_thms if_False)
  show ?case
  proof (cases "n div b = 0")
    case True
    then have l: "unat n < unat b" using b by (metis unat_div unat_0 div_eq_0_iff unat_gt_0 less_irrefl)
    then have "ds n = [digit_char (unat n)]" by (simp add: ds_def digits.simps)
    then show ?thesis using s True l by (simp add: put_at_def write_at_one Suc_le_eq)
  next
    case False
    then have "\<not> unat n < unat b" using b by (metis unat_div unat_0 div_eq_0_iff word_unat_eq_iff)
    then have d: "ds n = ds (n div b) @ [digit_char (unat n mod unat b)]"
      using assms(1) by (simp add: ds_def digits.simps[of "unat b" "unat n"] unat_div)
    note IH = less[OF div_word_less[OF b False]]
    show ?thesis
    proof (cases "p + length (ds n) \<le> length buf")
      case True
      then have l: "p + length (ds (n div b)) < length buf" using d by simp
      then have "put_at (write_at buf p (ds (n div b))) (p + length (ds (n div b))) x =
          Inr (write_at buf p (ds (n div b) @ [x]))" for x
        using write_at_append[of p "ds (n div b)" "[x]" buf]
        by (simp add: write_at_one)
      then show ?thesis using s False IH True l d by simp
    next
      case no: False
      have "put_at (write_at buf p (ds (n div b))) (p + length (ds (n div b))) x = Inl Out_of_bounds"
        if "p + length (ds (n div b)) \<le> length buf" for x
        using that no d by (simp add: put_at_def)
      then show ?thesis using s False IH no by simp
    qed
  qed
qed

section \<open>What \<^verbatim>\<open>vsprintf\<close> writes\<close>

text \<open>
  The reference: the text a format stands for, given the arguments; \<open>None\<close> when arguments are
  missing or do not point to a string.
\<close>

definition string_at :: "(u32 \<Rightarrow> u8 list) \<Rightarrow> u32 \<Rightarrow> u8 list option" where
  "string_at mem w =
     (if w \<noteq> 0 \<and> 0 \<in> set (mem w) \<and> length (mem w) < 2 ^ 32 then Some (takeWhile (\<lambda>c. c \<noteq> 0) (mem w)) else None)"

definition show_arg :: "(u32 \<Rightarrow> u8 list) \<Rightarrow> u8 \<Rightarrow> u32 \<Rightarrow> u8 list option" where
  "show_arg mem d w =
     (if d = 120 then Some (digits 16 (unat w))
      else if d = 115 then string_at mem w
      else if d = 99 then Some [ucast w]
      else Some (digits 10 (unat w)))"

fun render :: "(u32 \<Rightarrow> u8 list) \<Rightarrow> u8 list \<Rightarrow> u32 list \<Rightarrow> u8 list option" where
  "render mem [] args = Some []"
| "render mem [c] args = Some (if c = 37 then [] else [c])"
| "render mem (c # d # fs) args =
     (if c \<noteq> 37 then map_option (Cons c) (render mem (d # fs) args)
      else if d \<in> {120, 115, 99, 100}
      then (case args of [] \<Rightarrow> None
            | w # args \<Rightarrow> (case show_arg mem d w of None \<Rightarrow> None
               | Some cs \<Rightarrow> map_option (append cs) (render mem fs args)))
      else render mem (d # fs) args)"

text \<open>
  \<open>written b p cs b'\<close>: \<open>cs\<close> has been written at \<open>p\<close>, and at most one terminator behind it.
\<close>

definition written :: "u8 list \<Rightarrow> nat \<Rightarrow> u8 list \<Rightarrow> u8 list \<Rightarrow> bool" where
  "written b p cs b' \<longleftrightarrow> b' = write_at b p cs \<or> b' = write_at b p (cs @ [0])"

lemma write_at_over:
  assumes "p + length cs + length ds \<le> length b" "ds \<noteq> []"
  shows "write_at (write_at b p (cs @ [0])) (p + length cs) ds = write_at b p (cs @ ds)"
proof -
  have "min (length b) p = p" using assms by simp
  moreover obtain d es where "ds = d # es" using assms(2) by (cases ds) auto
  ultimately show ?thesis using assms(1) by (simp add: write_at_def drop_drop ac_simps)
qed

lemma written_append:
  assumes "written b p cs b1" "written b1 (p + length cs) ds b2" "p + length cs + length ds < length b"
  shows "written b p (cs @ ds) b2"
  using assms write_at_append[of p cs ds b] write_at_append[of p cs "ds @ [0]" b]
    write_at_over[of p cs ds b] write_at_over[of p cs "ds @ [0]" b]
  by (cases "ds = []") (auto simp: written_def)

lemma written_length: "written b p cs b' \<Longrightarrow> p + length cs < length b \<Longrightarrow> length b' = length b"
  by (auto simp: written_def)

lemma written_plain: "written b p cs (write_at b p cs)"
  by (simp add: written_def)

lemma written_one: "p < length b \<Longrightarrow> written b p [c] (b[p := c])"
  by (simp add: written_def write_at_one)

lemma string_at_cstr:
  assumes "string_at mem w = Some cs"
  shows "char_ptr mem w = Some (mem w, 0)" "cstr (mem w) 0 cs" "length (mem w) < 2 ^ 32"
proof -
  have w: "w \<noteq> 0" "0 \<in> set (mem w)" "cs = takeWhile (\<lambda>c. c \<noteq> 0) (mem w)"
    using assms by (auto simp: string_at_def split: if_splits)
  then show "char_ptr mem w = Some (mem w, 0)" by (simp add: char_ptr_def)
  show "length (mem w) < 2 ^ 32" using assms by (auto simp: string_at_def split: if_splits)
  obtain ys zs where "mem w = ys @ 0 # zs" "0 \<notin> set ys" using split_list_first[OF w(2)] by blast
  then show "cstr (mem w) 0 cs" using cstr_at[of ys 0 "[]" zs] w(3)
    by (simp add: takeWhile_append)
qed

lemma strcpy_loop_overrun:
  "\<lbrakk> cstr s q cs; length d \<le> p + length cs \<rbrakk> \<Longrightarrow> strcpy_loop d p s q = Inl Out_of_bounds"
  by (induction cs arbitrary: p q d) (simp_all add: strcpy_loop.simps put_at_def)

lemma directive_writes:
  assumes "d \<in> {120, 115, 99, 100}" "show_arg mem d w = Some cs" "p + length cs < length b"
  shows "\<exists>b'. directive mem d (b, p) (w # ap) = Inr (Some ((b', p + length cs), ap)) \<and> written b p cs b'"
proof (cases "d = 115")
  case True
  then have s: "string_at mem w = Some cs" using assms(2) by (simp add: show_arg_def)
  note c = string_at_cstr[OF s]
  have "length cs < 2 ^ 32" using cstr_bound[OF c(2)] c(3) by simp
  then have "unat (of_nat (length cs) :: u32) = length cs" by (intro unat_of_nat_small) simp
  then show ?thesis using True c strcpy_correct(1)[OF c(2) assms(3)] strlen_correct[OF c(2)]
    by (simp add: directive_def va_arg_def written_def write_at_def)
next
  case False
  then show ?thesis using assms(1-3) itoa_digits[of 16 w b p] itoa_digits[of 10 w b p]
    by (auto simp: directive_def va_arg_def show_arg_def written_one written_plain)
qed

lemma directive_room:
  assumes "d \<in> {120, 115, 99, 100}" "show_arg mem d w = Some cs"
  shows "directive mem d (b, p) (w # ap) = Inl Out_of_bounds \<or>
    (\<exists>b'. directive mem d (b, p) (w # ap) = Inr (Some ((b', p + length cs), ap)) \<and>
      p + length cs \<le> length b \<and> length b' = length b)"
proof (cases "d = 115")
  case True
  then have s: "string_at mem w = Some cs" using assms(2) by (simp add: show_arg_def)
  note c = string_at_cstr[OF s]
  show ?thesis
  proof (cases "p + length cs < length b")
    case True
    then show ?thesis using directive_writes[OF assms True, of ap] by (auto dest: written_length[OF _ True])
  next
    case False
    then show ?thesis using \<open>d = 115\<close> c strcpy_loop_overrun[OF c(2)]
      by (simp add: directive_def va_arg_def strcpy_def)
  qed
next
  case False
  then show ?thesis using assms itoa_digits[of 16 w b p] itoa_digits[of 10 w b p]
    by (auto simp: directive_def va_arg_def show_arg_def put_at_def split: if_splits)
qed

lemma vsprintf_loop_end: "cstr format i [] \<Longrightarrow> vsprintf_loop mem format i str ap = Inr str"
  by (simp add: vsprintf_loop.simps)

lemma vsprintf_loop_char:
  assumes "cstr format i (c # fs)" "c \<noteq> 37"
  shows "vsprintf_loop mem format i (b, p) ap =
    bnd (put_at b p c) (\<lambda>b. vsprintf_loop mem format (i + 1) (b, p + 1) ap)"
  using assms by (simp add: vsprintf_loop.simps[of mem format i])

lemma vsprintf_loop_percent:
  assumes "cstr format i (37 # d # fs)"
  shows "vsprintf_loop mem format i str ap = bnd (directive mem d str ap) (\<lambda>r.
    case r of Some (str, ap) \<Rightarrow> vsprintf_loop mem format (Suc (Suc i)) str ap
    | None \<Rightarrow> vsprintf_loop mem format (Suc i) str ap)"
  using assms by (simp add: vsprintf_loop.simps[of mem format i])

lemma vsprintf_loop_last_percent:
  "cstr format i [37] \<Longrightarrow> vsprintf_loop mem format i str ap = Inr str"
  by (simp add: vsprintf_loop.simps[of mem format] directive_def)

lemmas vsprintf_loop_steps = vsprintf_loop_end vsprintf_loop_char vsprintf_loop_percent vsprintf_loop_last_percent

lemma directive_other: "d \<notin> {120, 115, 99, 100} \<Longrightarrow> directive mem d str ap = Inr None"
  by (simp add: directive_def)

lemma vsprintf_loop_renders:
  "\<lbrakk> cstr format i fs; render mem fs ap = Some out; p + length out < length b \<rbrakk> \<Longrightarrow>
   \<exists>b'. vsprintf_loop mem format i (b, p) ap = Inr (b', p + length out) \<and> written b p out b'"
proof (induction mem fs ap arbitrary: i p b out rule: render.induct)
  case (1 mem ap)
  then show ?case by (simp add: vsprintf_loop_end written_def)
next
  case (2 mem c ap)
  show ?case
  proof (cases "c = 37")
    case True
    then show ?thesis using 2 vsprintf_loop_last_percent[of format i] by (simp add: written_def)
  next
    case False
    have "cstr format (i + 1) []" using 2(1) by simp
    then show ?thesis
      using 2 False by (auto simp: vsprintf_loop_char[OF 2(1)] vsprintf_loop_end written_one)
  qed
next
  case (3 mem c d fs ap)
  have tl: "cstr format (i + 1) (d # fs)" "cstr format (i + 2) fs" using 3(4) by simp_all
  consider "c \<noteq> 37" | "c = 37" "d \<in> {120, 115, 99, 100}" | "c = 37" "d \<notin> {120, 115, 99, 100}" by blast
  then show ?case
  proof cases
    case 1
    then obtain o1 where o: "render mem (d # fs) ap = Some o1" "out = c # o1" using 3(5) by auto
    let ?b = "b[p := c]"
    have w: "written b p [c] ?b" using 3(6) by (simp add: written_one)
    obtain b' where b': "vsprintf_loop mem format (i + 1) (?b, p + 1) ap = Inr (b', p + 1 + length o1)"
      "written ?b (p + 1) o1 b'" using 3(1)[OF 1 tl(1) o(1), of "p + 1" ?b] 3(6) o(2) by auto
    have "written b p (c # o1) b'" using written_append[OF w, of o1 b'] b'(2) 3(6) o(2) by simp
    then show ?thesis using vsprintf_loop_char[OF 3(4) 1] b'(1) 3(6) o(2) by simp
  next
    case 2
    then obtain w ap' where ap: "ap = w # ap'" using 3(5) by (cases ap) auto
    then obtain cs where cs: "show_arg mem d w = Some cs" using 2 3(5) by (cases "show_arg mem d w") auto
    obtain o1 where o: "render mem fs ap' = Some o1" "out = cs @ o1" using 2 3(5) ap cs by auto
    have l: "p + length cs < length b" using 3(6) o(2) by simp
    obtain b1 where b1: "directive mem d (b, p) ap = Inr (Some ((b1, p + length cs), ap'))" "written b p cs b1"
      using directive_writes[OF 2(2) cs l] ap by blast
    obtain b' where b': "vsprintf_loop mem format (i + 2) (b1, p + length cs) ap' = Inr (b', p + length cs + length o1)"
      "written b1 (p + length cs) o1 b'"
      using 3(2)[OF _ 2(2) ap cs tl(2) o(1), of "p + length cs" b1] 2 3(6) o(2) written_length[OF b1(2) l] by auto
    have "written b p (cs @ o1) b'" using written_append[OF b1(2) b'(2)] 3(6) o(2) by simp
    then show ?thesis using vsprintf_loop_percent[of format i d fs] 3(4) 2 b1(1) b'(1) o(2) by auto
  next
    case other: 3
    then show ?thesis
      using 3(3)[OF _ other(2) tl(1), of out p b] 3(4,5,6) vsprintf_loop_percent[of format i d fs] directive_other[OF other(2)]
      by simp
  qed
qed

lemma vsprintf_loop_overruns:
  "\<lbrakk> cstr format i fs; render mem fs ap = Some out; length b < p + length out; p \<le> length b \<rbrakk> \<Longrightarrow>
   vsprintf_loop mem format i (b, p) ap = Inl Out_of_bounds"
proof (induction mem fs ap arbitrary: i p b out rule: render.induct)
  case (1 mem ap)
  then show ?case by simp
next
  case (2 mem c ap)
  then show ?case by (cases "c = 37") (auto simp: vsprintf_loop_char[OF 2(1)] put_at_def)
next
  case (3 mem c d fs ap)
  have tl: "cstr format (i + 1) (d # fs)" "cstr format (i + 2) fs" using 3(4) by simp_all
  consider "c \<noteq> 37" | "c = 37" "d \<in> {120, 115, 99, 100}" | "c = 37" "d \<notin> {120, 115, 99, 100}" by blast
  then show ?case
  proof cases
    case 1
    then obtain o1 where o: "render mem (d # fs) ap = Some o1" "out = c # o1" using 3(5) by auto
    show ?thesis using 3(1)[OF 1 tl(1) o(1), of "b[p := c]" "p + 1"] 3(6,7) o(2)
      by (simp add: vsprintf_loop_char[OF 3(4) 1] put_at_def)
  next
    case 2
    then obtain w ap' where ap: "ap = w # ap'" using 3(5) by (cases ap) auto
    then obtain cs where cs: "show_arg mem d w = Some cs" using 2 3(5) by (cases "show_arg mem d w") auto
    obtain o1 where o: "render mem fs ap' = Some o1" "out = cs @ o1" using 2 3(5) ap cs by auto
    have "cstr format i (37 # d # fs)" using 3(4) 2(1) by simp
    note e = vsprintf_loop_percent[OF this]
    show ?thesis
    proof (cases "directive mem d (b, p) ap = Inl Out_of_bounds")
      case True
      then show ?thesis by (simp add: e)
    next
      case False
      then obtain b1 where b1: "directive mem d (b, p) ap = Inr (Some ((b1, p + length cs), ap'))" "length b1 = length b"
          "p + length cs \<le> length b"
        using directive_room[OF 2(2) cs, of b p ap'] ap by auto
      then show ?thesis
        using 3(2)[OF _ 2(2) ap cs tl(2) o(1), of b1 "p + length cs"] 2 3(6) o(2) e by simp
    qed
  next
    case other: 3
    then show ?thesis
      using 3(3)[OF _ other(2) tl(1), of out b p] 3(4-7) vsprintf_loop_percent[of format i d fs] directive_other[OF other(2)]
      by simp
  qed
qed

lemma digits_length: "\<lbrakk> 2 \<le> b; n < 2 ^ k; 0 < k \<rbrakk> \<Longrightarrow> length (digits b n) \<le> k"
proof (induction b n arbitrary: k rule: digits.induct)
  case (1 b n)
  show ?case
  proof (cases "n < b")
    case True
    then show ?thesis using 1 by (simp add: digits.simps)
  next
    case False
    have "1 < k" using 1(2,3,4) False by (cases "k = 1") auto
    then obtain j where j: "k = Suc j" "0 < j" by (metis One_nat_def less_imp_Suc_add add_Suc_right less_numeral_extra(3) Suc_lessE)
    have "n div b \<le> n div 2" using 1(2) by (intro div_le_mono2) simp_all
    also have "\<dots> < 2 ^ j" using 1(3) j by (simp add: less_mult_imp_div_less mult.commute)
    finally have "length (digits b (n div b)) \<le> j" using 1(1)[of j] 1(2) False j by simp
    then show ?thesis using False 1(2) j by (simp add: digits.simps[of b n])
  qed
qed

lemma strlen_fresh:
  assumes "0 \<notin> set out" "length out < n" "n < 2 ^ 32" "written (replicate n 0) 0 out b"
  shows "b = out @ replicate (n - length out) 0" "cstr b 0 out" "strlen (Some (b, 0)) = Inr (of_nat (length out))"
proof -
  obtain m where m: "n = Suc (length out + m)" using assms(2) less_imp_Suc_add by blast
  have "n - length out = Suc m" "n - Suc (length out) = m" using m by simp_all
  then show b: "b = out @ replicate (n - length out) 0"
    using assms(4) by (auto simp: written_def write_at_def drop_replicate)
  then show "cstr b 0 out" using assms(1) m cstr_at[of out 0 "[]" "replicate m 0"] by simp
  then show "strlen (Some (b, 0)) = Inr (of_nat (length out))" by (rule strlen_correct)
qed

lemma sint_negative:
  assumes "sint (w :: u32) < 0"
  shows "sint w = int (unat w) - 2 ^ 32"
proof -
  have u: "uint w = int (unat w)" by simp
  have "\<not> unat w < 2 ^ 31" using assms sint_small[of w] by auto
  then have "\<not> int (unat w) < 2 ^ 31" by (simp del: of_nat_unat)
  then have "2 ^ 31 \<le> uint w" "uint w < 2 ^ 32"
    unfolding u[symmetric] using uint_lt2p[of w] by simp_all
  moreover have "sint w = (uint w + 2 ^ 31) mod 2 ^ 32 - 2 ^ 31"
    using int_word_sint[of "uint w", where ?'a = 32] by simp
  moreover have "(uint w + 2 ^ 31) mod 2 ^ 32 = uint w + 2 ^ 31 - 2 ^ 32" if "2 ^ 31 \<le> uint w" "uint w < 2 ^ 32"
    using that by (subst minus_mod_self2[symmetric], intro mod_pos_pos_trivial) simp_all
  ultimately show ?thesis by simp
qed

section \<open>Properties\<close>

text \<open>
  C37: for every base from 2 to 36, \<^verbatim>\<open>itoa\<close> writes at most 32 characters at the pointer,
  moves the pointer behind them and leaves the rest of the object as it was; reading the characters
  in that base gives the number back, and there is no leading zero unless the number is 0.
\<close>

theorem itoa_round_trip:
  assumes "2 \<le> unat base" "unat base \<le> 36" "p + 32 \<le> length buf"
  shows "\<exists>buf' q. itoa n (buf, p) base = Inr (buf', q) \<and> p < q \<and> q \<le> p + 32 \<and>
    take p buf' = take p buf \<and> drop q buf' = drop q buf \<and>
    read_digits (unat base) (take (q - p) (drop p buf')) = unat n \<and>
    (n \<noteq> 0 \<longrightarrow> buf' ! p \<noteq> 48)"
proof -
  let ?ds = "digits (unat base) (unat n)"
  have l: "length ?ds \<le> 32" using assms(1) unsigned_less[of n] by (intro digits_length) simp_all
  have ne: "?ds \<noteq> []" by (simp add: digits.simps)
  have "(take p buf @ ?ds @ drop (p + length ?ds) buf) ! p = hd ?ds"
    using assms(3) ne by (simp add: nth_append hd_conv_nth)
  moreover have "n \<noteq> 0 \<longrightarrow> hd ?ds \<noteq> 48"
    using digits_no_leading_zero[OF assms(1,2)] by (auto simp: unat_gt_0)
  ultimately show ?thesis
    using itoa_digits[OF assms(1,2), of n buf p] l ne assms(3) read_digits_digits[OF assms(1,2)]
    by (auto simp: write_at_def)
qed

theorem itoa_round_trip_witness:
  "\<exists>buf' q. itoa 255 (replicate 40 1, 3) 16 = Inr (buf', q) \<and> read_digits 16 (take (q - 3) (drop 3 buf')) = 255"
  using itoa_round_trip[of 16 3 "replicate 40 1" 255] by auto

text \<open>
  C36: into an object of \<open>n\<close> zero bytes, as \<^verbatim>\<open>printf\<close> and \<^verbatim>\<open>printk\<close> use it,
  \<^verbatim>\<open>sprintf\<close> writes exactly the text the format stands for and returns its length when the
  text and a terminator fit; when the text is longer than the object, it writes outside of it.
\<close>

theorem sprintf_renders:
  assumes "cstr format 0 fs" "render mem fs args = Some out" "0 \<notin> set out" "n < 2 ^ 32"
  shows "(length out < n \<longrightarrow> sprintf mem (replicate n 0) format args =
      Inr (of_nat (length out), out @ replicate (n - length out) 0)) \<and>
    (n < length out \<longrightarrow> sprintf mem (replicate n 0) format args = Inl Out_of_bounds)"
proof (intro conjI impI)
  assume l: "length out < n"
  obtain b where b: "vsprintf_loop mem format 0 (replicate n 0, 0) args = Inr (b, length out)"
      "written (replicate n 0) 0 out b"
    using vsprintf_loop_renders[OF assms(1,2), of 0 "replicate n 0"] l by auto
  then show "sprintf mem (replicate n 0) format args = Inr (of_nat (length out), out @ replicate (n - length out) 0)"
    using strlen_fresh[OF assms(3) l assms(4) b(2)] by (simp add: sprintf_def vsprintf_def)
next
  assume "n < length out"
  then show "sprintf mem (replicate n 0) format args = Inl Out_of_bounds"
    using vsprintf_loop_overruns[OF assms(1,2), of "replicate n 0" 0] by (simp add: sprintf_def vsprintf_def)
qed

text \<open>The format \<^verbatim>\<open>sd%c%d\<close>, as for the name of a partition.\<close>

theorem sprintf_renders_witness:
  "sprintf (\<lambda>_. []) (replicate 8 0) [115, 100, 37, 99, 37, 100, 0] [97, 12] =
     Inr (5, [115, 100, 97, 49, 50, 0, 0, 0])"
proof -
  have "cstr [115, 100, 37, 99, 37, 100, 0] 0 [115, 100, 37, 99, 37, 100]" by (simp add: cstr_def)
  moreover have "render (\<lambda>_. []) [115, 100, 37, 99, 37, 100] [97, 12] = Some [115, 100, 97, 49, 50]"
    by (simp add: show_arg_def digits.simps[of 10 12] digits.simps[of 10 "Suc 0"] digit_char_def)
  moreover have "replicate 3 (0 :: u8) = [0, 0, 0]" by (simp add: eval_nat_numeral)
  ultimately show ?thesis using sprintf_renders[of "[115, 100, 37, 99, 37, 100, 0]" _ _ _ _ 8] by fastforce
qed

text \<open>
  \<^verbatim>\<open>sprintf\<close> writes no terminator: a text without directives that is written over a
  longer string leaves the end of that string standing, and the length returned is that of the old
  string.
\<close>

theorem sprintf_leaves_old_tail:
  assumes "cstr format 0 fs" "37 \<notin> set fs" "cstr old 0 cs" "length fs < length cs"
  shows "sprintf mem old format args = Inr (of_nat (length cs), fs @ drop (length fs) old) \<and>
    cstr (fs @ drop (length fs) old) 0 (fs @ drop (length fs) cs)"
proof -
  have "vsprintf_loop mem format i (b, p) args = Inr (write_at b p fs, p + length fs)"
    if "cstr format i fs" "37 \<notin> set fs" "p + length fs < length b" for i fs p b
    using that
  proof (induction fs arbitrary: i p b)
    case Nil
    then show ?case by (simp add: vsprintf_loop_end)
  next
    case (Cons c fs)
    then have "write_at (b[p := c]) (p + 1) fs = write_at b p (c # fs)"
      using write_at_append[of p "[c]" fs b] by (simp add: write_at_one)
    then show ?case using Cons vsprintf_loop_char[OF Cons.prems(1)] by simp
  qed
  from this[OF assms(1,2), of 0 old] have
    w: "vsprintf_loop mem format 0 (old, 0) args = Inr (fs @ drop (length fs) old, length fs)"
    using cstr_bound[OF assms(3)] assms(4) by (simp add: write_at_def)
  have "0 \<notin> set fs" "0 \<notin> set cs" using assms(1,3) by (simp_all add: cstr_def)
  moreover obtain ys where "old = cs @ 0 # ys"
    using assms(3) by (simp add: cstr_def) (metis append_take_drop_id append.assoc append_Cons append_Nil)
  ultimately have c: "cstr (fs @ drop (length fs) old) 0 (fs @ drop (length fs) cs)"
    using cstr_at[of "fs @ drop (length fs) cs" 0 "[]" ys] assms(4) by (auto dest: in_set_dropD)
  then show ?thesis using w strlen_correct[OF c] assms(4) by (simp add: sprintf_def vsprintf_def)
qed

theorem sprintf_leaves_old_tail_witness:
  "sprintf (\<lambda>_. []) [115, 100, 97, 49, 0] [115, 100, 98, 0] [] = Inr (4, [115, 100, 98, 49, 0])"
  using sprintf_leaves_old_tail[of "[115, 100, 98, 0]" "[115, 100, 98]" "[115, 100, 97, 49, 0]" "[115, 100, 97, 49]"]
  by (simp add: cstr_def)

text \<open>
  \<^verbatim>\<open>%d\<close> takes its argument as unsigned: for a negative number no sign is printed, and
  the digits are those of the number plus \<open>2 ^ 32\<close>.
\<close>

theorem sprintf_negative:
  assumes "sint w < 0"
  shows "\<exists>ds. sprintf mem (replicate 1024 0) [37, 100, 0] [w] = Inr (of_nat (length ds), ds @ replicate (1024 - length ds) 0) \<and>
    45 \<notin> set ds \<and> int (read_digits 10 ds) = sint w + 2 ^ 32"
proof -
  let ?ds = "digits 10 (unat w)"
  have l: "length ?ds \<le> 32" using unsigned_less[of w] by (intro digits_length) simp_all
  have "45 \<notin> set (digits 10 m)" for m
  proof (induction m rule: less_induct)
    case (less m)
    have "digit_char d \<noteq> 45" if "d < 10" for d
      using that unat_digit_char[of d] by auto
    then show ?case using less[of "m div 10"] by (auto simp: digits.simps[of 10 m])
  qed
  moreover have "int (read_digits 10 ?ds) = sint w + 2 ^ 32"
    using sint_negative[OF assms] by (simp add: read_digits_digits)
  moreover obtain b where b: "vsprintf_loop mem [37, 100, 0] 0 (replicate 1024 0, 0) [w] = Inr (b, length ?ds)"
      "written (replicate 1024 0) 0 ?ds b"
    using vsprintf_loop_renders[of "[37, 100, 0]" 0 "[37, 100]" mem "[w]" ?ds 0 "replicate 1024 0"] l
    by (auto simp: cstr_def show_arg_def)
  then have "sprintf mem (replicate 1024 0) [37, 100, 0] [w] = Inr (of_nat (length ?ds), ?ds @ replicate (1024 - length ?ds) 0)"
    using strlen_fresh[OF digits_nonzero _ _ b(2)] l by (simp add: sprintf_def vsprintf_def)
  ultimately show ?thesis by blast
qed

theorem sprintf_negative_witness:
  "\<exists>ds. sprintf (\<lambda>_. []) (replicate 1024 0) [37, 100, 0] [-5] = Inr (of_nat (length ds), ds @ replicate (1024 - length ds) 0) \<and>
    int (read_digits 10 ds) = 4294967291"
  using sprintf_negative[of "-5" "\<lambda>_. []"] by auto
end
