(* ===== verification/Console.thy ===== *)
theory Console
  imports Keyboard Stdio
begin

text \<open>
  Output under a lock (\<^verbatim>\<open>device/console.c\<close>) and formatted output of the kernel
  (\<^verbatim>\<open>lib/kernel/stdio-kernel.c\<close>). A string argument is the object it points to;
  \<^verbatim>\<open>putStr\<close> of \<^verbatim>\<open>print.asm\<close> prints it up to its terminator.

  Shown: with the lock free or held by the caller itself each routine prints once and leaves the
  lock as it was, while another thread holds the lock nothing is printed; \<^verbatim>\<open>printk\<close>
  prints the rendered format as long as it fits into its buffer.
\<close>

section \<open>Operations\<close>

record console_state = kbd_state +
  console_lock :: u32

definition text_of :: "u8 list \<Rightarrow> string" where
  "text_of cs = map (\<lambda>c. char_of (unat c)) cs"

definition putStr_buf :: "u8 list \<Rightarrow> 'a cpu_scheme \<Rightarrow> error + 'a cpu_scheme" where
  "putStr_buf str s =
     (if 0 \<in> set str then Inr (putStr (text_of (takeWhile (\<lambda>c. c \<noteq> 0) str)) s) else Inl Out_of_bounds)"

definition console_init :: "'a console_state_scheme \<Rightarrow> 'a console_state_scheme" where
  "console_init s = lock_init (console_lock s) s"

definition console_acquire :: "'a console_state_scheme \<Rightarrow> error + 'a console_state_scheme" where
  "console_acquire s = lock_acquire_now (console_lock s) s"

definition console_release :: "'a console_state_scheme \<Rightarrow> error + 'a console_state_scheme" where
  "console_release s = lock_release (console_lock s) s"

definition console_put_str :: "u8 list \<Rightarrow> 'a console_state_scheme \<Rightarrow> error + 'a console_state_scheme" where
  "console_put_str str s =
     bnd (console_acquire s) (\<lambda>s. bnd (putStr_buf str s) (\<lambda>s. console_release s))"

text \<open>\<^verbatim>\<open>console_putChar\<close> hands the character to \<^verbatim>\<open>putStr\<close>, as an address.\<close>

definition console_putChar :: "u8 \<Rightarrow> 'a console_state_scheme \<Rightarrow> error + 'a console_state_scheme" where
  "console_putChar ch s =
     bnd (console_acquire s) (\<lambda>s. let s = putStr_at (ucast ch) s in console_release s)"

definition console_put_int :: "u32 \<Rightarrow> 'a console_state_scheme \<Rightarrow> error + 'a console_state_scheme" where
  "console_put_int num s =
     bnd (console_acquire s) (\<lambda>s. let s = putInt num s in console_release s)"

definition printk ::
  "(u32 \<Rightarrow> u8 list) \<Rightarrow> u8 list \<Rightarrow> u32 list \<Rightarrow> 'a console_state_scheme \<Rightarrow> error + (u32 \<times> 'a console_state_scheme)" where
  "printk mem format args s =
     bnd (vsprintf mem (replicate 1024 0) format args) (\<lambda>(len, buf).
     bnd (console_put_str buf s) (\<lambda>s. Inr (0, s)))"

section \<open>Printing under the lock\<close>

text \<open>
  \<open>may_print s\<close>: the lock is free, or the running thread holds it and may take it once more.
\<close>

definition may_print :: "'a console_state_scheme \<Rightarrow> bool" where
  "may_print s \<longleftrightarrow> running_thread s \<noteq> 0 \<and>
     (lock_free (console_lock s) s \<or>
      (holder (locks s (console_lock s)) = running_thread s \<and>
       0 < holder_repeat_num (locks s (console_lock s)) \<and>
       holder_repeat_num (locks s (console_lock s)) + 1 \<noteq> 0))"

lemma print_in_lock:
  assumes "may_print s"
  shows "bnd (console_acquire s) (\<lambda>s. console_release (s\<lparr>screen := screen s @ xs\<rparr>)) =
    Inr (s\<lparr>screen := screen s @ xs\<rparr>)"
proof (cases "holder (locks s (console_lock s)) = running_thread s")
  case True
  let ?l = "console_lock s" and ?c = "running_thread s"
  let ?n = "holder_repeat_num (locks s ?l)"
  have n: "0 < ?n" "?n + 1 \<noteq> 0" using assms True by (auto simp: may_print_def lock_free_def)
  let ?s1 = "s\<lparr>locks := (locks s)(?l := \<lparr>holder = ?c, holder_repeat_num = ?n + 1\<rparr>)\<rparr>"
  let ?t = "?s1\<lparr>screen := screen s @ xs\<rparr>"
  have r: "running_thread ?t = ?c" by (simp add: running_thread_def)
  have "locks s ?l = \<lparr>holder = ?c, holder_repeat_num = ?n\<rparr>" using True by (cases "locks s ?l") simp
  then have "?t\<lparr>locks := (locks ?t)(?l := \<lparr>holder = ?c, holder_repeat_num = ?n\<rparr>)\<rparr> = s\<lparr>screen := screen s @ xs\<rparr>"
    by (cases s) (auto simp: fun_upd_idem)
  then show ?thesis
    using lock_acquire_again[OF True] lock_release_again[of ?t ?l ?n] n r
    by (simp add: console_acquire_def console_release_def)
next
  case False
  let ?l = "console_lock s"
  have f: "lock_free ?l s" "running_thread s \<noteq> 0" using assms False by (auto simp: may_print_def)
  let ?s1 = "set_lock ?l (running_thread s) 1 0 s"
  let ?t = "?s1\<lparr>screen := screen s @ xs\<rparr>"
  have h: "lock_held ?l (running_thread ?t) ?t"
    using set_lock_held[OF f(1)] by (simp add: lock_held_def running_thread_def set_lock_def list_empty_def next_of_def)
  have "set_lock ?l 0 0 1 ?t = s\<lparr>screen := screen s @ xs\<rparr>"
    using set_lock_restore[OF f(1)] by (cases s) (simp add: set_lock_def)
  then show ?thesis using lock_acquire_free[OF f] lock_release_held[OF h]
    by (simp add: console_acquire_def console_release_def set_lock_def)
qed

lemma putStr_buf_cstr:
  assumes "cstr str 0 cs"
  shows "putStr_buf str t = Inr (t\<lparr>screen := screen t @ [Put_str (text_of cs)]\<rparr>)"
proof -
  have z: "0 \<notin> set cs" "take (length cs + 1) str = cs @ [0]" using assms by (simp_all add: cstr_def)
  define ys where "ys = drop (length cs + 1) str"
  have "str = cs @ 0 # ys" using z(2) append_take_drop_id[of "length cs + 1" str] by (simp add: ys_def)
  moreover have "takeWhile (\<lambda>c. c \<noteq> 0) (cs @ 0 # ys) = cs" using z(1) by (subst takeWhile_append2) auto
  ultimately show ?thesis by (simp add: putStr_buf_def putStr_def)
qed

section \<open>Properties\<close>


text \<open>The state of the witnesses: the lock is free and the main thread runs.\<close>

definition console_sample :: "unit console_state_scheme" where
  "console_sample = kbd_state.extend (kbd_state.truncate kbd_sample) \<lparr>console_lock = 0xc0008000\<rparr>"

lemma console_sample_may_print: "may_print console_sample"
  by (simp add: may_print_def console_sample_def kbd_sample_def kbd_state.defs ioq_state.defs ioq_sample_defs empty_list_nodes_def
     lock_free_def running_thread_def list_empty_def next_of_def head_of_def tail_of_def sem_waiter_def lock_sem_def)


text \<open>
  \<^verbatim>\<open>console_putChar\<close> does not print its character: it asks for the string at the address
  that is the code of the character.
\<close>

theorem console_putChar_prints_address:
  assumes "may_print s"
  shows "console_putChar ch s = Inr (s\<lparr>screen := screen s @ [Put_str_at (ucast ch)]\<rparr>)"
  using print_in_lock[OF assms, of "[Put_str_at (ucast ch)]"]
  by (simp add: console_putChar_def putStr_at_def)

theorem console_putChar_prints_address_witness:
  "console_putChar 104 console_sample = Inr (console_sample\<lparr>screen := screen console_sample @ [Put_str_at 104]\<rparr>)"
  using console_putChar_prints_address[OF console_sample_may_print, of 104] by simp

text \<open>
  When the console may be used, \<^verbatim>\<open>printk\<close> prints the text its format stands for, for
  every text of fewer than 1024 characters; a longer text overruns the buffer on the stack.
\<close>

theorem printk_prints:
  assumes "cstr format 0 fs" "render mem fs args = Some out" "0 \<notin> set out" "may_print s"
  shows "(length out < 1024 \<longrightarrow> printk mem format args s = Inr (0, s\<lparr>screen := screen s @ [Put_str (text_of out)]\<rparr>)) \<and>
    (1024 < length out \<longrightarrow> printk mem format args s = Inl Out_of_bounds)"
proof (intro conjI impI)
  assume l: "length out < 1024"
  obtain b where b: "vsprintf_loop mem format 0 (replicate 1024 0, 0) args = Inr (b, length out)"
      "written (replicate 1024 0) 0 out b"
    using vsprintf_loop_renders[OF assms(1,2), of 0 "replicate 1024 0"] l by auto
  note z = strlen_fresh[OF assms(3) l _ b(2)]
  have "console_put_str b s = Inr (s\<lparr>screen := screen s @ [Put_str (text_of out)]\<rparr>)"
    using print_in_lock[OF assms(4), of "[Put_str (text_of out)]"] by (simp add: console_put_str_def putStr_buf_cstr[OF z(2)])
  then show "printk mem format args s = Inr (0, s\<lparr>screen := screen s @ [Put_str (text_of out)]\<rparr>)"
    using b(1) z(3) by (simp add: printk_def vsprintf_def)
next
  assume "1024 < length out"
  then show "printk mem format args s = Inl Out_of_bounds"
    using vsprintf_loop_overruns[OF assms(1,2), of "replicate 1024 0" 0] by (simp add: printk_def vsprintf_def)
qed

theorem printk_prints_witness:
  "printk (\<lambda>_. []) [37, 120, 0] [255] console_sample =
     Inr (0, console_sample\<lparr>screen := screen console_sample @ [Put_str ''FF'']\<rparr>)"
proof -
  have "render (\<lambda>_. []) [37, 120] [255] = Some [70, 70]"
    by (simp add: show_arg_def digits.simps[of 16 255] digits.simps[of 16 15] digit_char_def)
  then show ?thesis
    using printk_prints[of "[37, 120, 0]" "[37, 120]" "\<lambda>_. []" "[255]" "[70, 70]", OF _ _ _ console_sample_may_print]
    by (simp add: cstr_def text_of_def char_of_def bit_0)
qed
end
