(* ===== verification/Heap.thy ===== *)
theory Heap
  imports Memory Console
begin

text \<open>
  The heap of blocks behind \<^verbatim>\<open>sys_malloc\<close> and \<^verbatim>\<open>sys_free\<close>
  (\<^verbatim>\<open>kernel/memory.c\<close>). The header of an arena is three words of memory, read and written
  through the page tables. The nodes of the free lists are in the node store, by virtual address; the
  address space is the one of the running thread. A block descriptor is a record in the store of
  descriptors, at the address it has in its array; its list is 8 bytes behind.

  Shown: the blocks of an arena lie in its page, do not overlap and lead back to it; a request is
  served with the smallest kind of block that holds it; and a large request is not always given as
  much memory as it asks for.
\<close>

section \<open>Descriptors\<close>

record heap_state = console_state +
  k_mem_block_descs :: u32

definition SIZEOF_ARENA :: u32 where "SIZEOF_ARENA = 12"
definition SIZEOF_MEM_BLOCK_DESC :: u32 where "SIZEOF_MEM_BLOCK_DESC = 24"
definition desc_addr :: "u32 \<Rightarrow> u32 \<Rightarrow> u32" where "desc_addr mem_block_descs i = mem_block_descs + SIZEOF_MEM_BLOCK_DESC * i"
definition free_list :: "u32 \<Rightarrow> u32" where "free_list desc = desc + 8"

fun block_des_init_loop :: "u32 \<Rightarrow> u32 \<Rightarrow> u32 \<Rightarrow> nat \<Rightarrow> 'a thread_state_scheme \<Rightarrow> 'a thread_state_scheme" where
  "block_des_init_loop mem_block_descs idx capacity 0 s = s"
| "block_des_init_loop mem_block_descs idx capacity (Suc n) s =
     (let d = desc_addr mem_block_descs idx;
          s = s\<lparr>block_descs := (block_descs s)(d := \<lparr>block_size = capacity,
                blocks_per_arena = (PAGE_SIZE - SIZEOF_ARENA) div capacity\<rparr>)\<rparr>;
          s = list_init (free_list d) s
      in block_des_init_loop mem_block_descs (idx + 1) (capacity * 2) n s)"

definition block_des_init :: "u32 \<Rightarrow> 'a thread_state_scheme \<Rightarrow> 'a thread_state_scheme" where
  "block_des_init mem_block_descs s = block_des_init_loop mem_block_descs 0 16 7 s"

definition mem_init :: "(u32 \<Rightarrow> u8) \<Rightarrow> 'a heap_state_scheme \<Rightarrow> error + 'a heap_state_scheme" where
  "mem_init raw s =
     (let s = putStr ''mem init start\<newline>'' s in
      bnd (load_word 0xb00 s) (\<lambda>memory_size.
      bnd (mem_pool_init raw memory_size s) (\<lambda>s.
      let s = block_des_init (k_mem_block_descs s) s
      in Inr (putStr ''mem init done\<newline>'' s))))"


section \<open>Blocks\<close>

definition arena_to_block :: "u32 \<Rightarrow> u32 \<Rightarrow> 'a thread_state_scheme \<Rightarrow> error + u32" where
  "arena_to_block arena_ptr idx s =
     bnd (load_word arena_ptr s) (\<lambda>mem_desc_addr.
     Inr (arena_ptr + SIZEOF_ARENA + idx * block_size (block_descs s mem_desc_addr)))"

definition block_to_arena :: "u32 \<Rightarrow> u32" where
  "block_to_arena block = block AND 0xfffff000"

definition store_arena :: "u32 \<Rightarrow> u32 \<Rightarrow> u32 \<Rightarrow> u32 \<Rightarrow> 'a thread_state_scheme \<Rightarrow> error + 'a thread_state_scheme" where
  "store_arena arena mem_desc_addr cnt large s =
     bnd (store_word arena mem_desc_addr s) (\<lambda>s.
     bnd (store_word (arena + 4) cnt s) (\<lambda>s.
     store_word (arena + 8) large s))"

definition arena_cnt :: "u32 \<Rightarrow> 'a thread_state_scheme \<Rightarrow> error + u32" where
  "arena_cnt arena s = load_word (arena + 4) s"

definition set_arena_cnt :: "u32 \<Rightarrow> u32 \<Rightarrow> 'a thread_state_scheme \<Rightarrow> error + 'a thread_state_scheme" where
  "set_arena_cnt arena cnt s = store_word (arena + 4) cnt s"

text \<open>The search for the smallest kind of block that is large enough; 7 when there is none.\<close>

fun find_desc :: "u32 \<Rightarrow> u32 \<Rightarrow> u32 \<Rightarrow> nat \<Rightarrow> 'a thread_state_scheme \<Rightarrow> u32" where
  "find_desc mem_desc_set sz des_idx 0 s = des_idx"
| "find_desc mem_desc_set sz des_idx (Suc n) s =
     (if sz \<le> block_size (block_descs s (desc_addr mem_desc_set des_idx)) then des_idx
      else find_desc mem_desc_set sz (des_idx + 1) n s)"

text \<open>The loop that puts the blocks of a new arena on the free list, from the block \<open>i\<close> on.\<close>

fun divide_arena :: "u32 \<Rightarrow> u32 \<Rightarrow> u32 \<Rightarrow> nat \<Rightarrow> 'a thread_state_scheme \<Rightarrow> error + 'a thread_state_scheme" where
  "divide_arena mem_arena desc i 0 s = Inr s"
| "divide_arena mem_arena desc i (Suc n) s =
     bnd (arena_to_block mem_arena i s) (\<lambda>divide_mem.
     bnd (elem_find (free_list desc) divide_mem s) (\<lambda>found.
     bnd (ASSERT (\<not> found) ''!elem_find(&used_block_desc->free_list, &divide_mem->free_elem)'') (\<lambda>_.
     divide_arena mem_arena desc (i + 1) n (list_append (free_list desc) divide_mem s))))"

definition new_arena :: "pool_flags \<Rightarrow> u32 \<Rightarrow> 'a thread_state_scheme \<Rightarrow> error + (bool \<times> 'a thread_state_scheme)" where
  "new_arena PF desc s =
     bnd (malloc_pages PF 1 s) (\<lambda>(mem_arena, s).
     if mem_arena = 0 then Inr (False, s)
     else bnd (memset_0 mem_arena PAGE_SIZE s) (\<lambda>s.
          bnd (store_arena mem_arena desc (blocks_per_arena (block_descs s desc)) 0 s) (\<lambda>s.
          let (old_status, s) = intr_disable s in
          bnd (arena_cnt mem_arena s) (\<lambda>cnt.
          bnd (divide_arena mem_arena desc 0 (unat cnt) s) (\<lambda>s.
          Inr (True, snd (intr_set_status old_status s)))))))"

definition malloc_large :: "pool_flags \<Rightarrow> u32 \<Rightarrow> 'a thread_state_scheme \<Rightarrow> error + (u32 \<times> 'a thread_state_scheme)" where
  "malloc_large PF sz s =
     (let cnt = (sz + PAGE_SIZE - 1) div PAGE_SIZE in
      bnd (malloc_pages PF cnt s) (\<lambda>(new_arena, s).
      if new_arena = 0
      then bnd (lock_release (pool_lock (the_pool PF s)) s) (\<lambda>s. Inr (0, s))
      else bnd (memset_0 new_arena (cnt * PAGE_SIZE) s) (\<lambda>s.
           bnd (store_arena new_arena 0 cnt 1 s) (\<lambda>s.
           bnd (lock_release (pool_lock (the_pool PF s)) s) (\<lambda>s.
           Inr (new_arena + SIZEOF_ARENA, s))))))"

definition malloc_small :: "pool_flags \<Rightarrow> u32 \<Rightarrow> u32 \<Rightarrow> 'a thread_state_scheme \<Rightarrow> error + (u32 \<times> 'a thread_state_scheme)" where
  "malloc_small PF mem_desc_set sz s =
     (let desc = desc_addr mem_desc_set (find_desc mem_desc_set sz 0 7 s) in
      bnd (if list_empty (free_list desc) s then new_arena PF desc s else Inr (True, s)) (\<lambda>(ok, s).
      if \<not> ok then bnd (lock_release (pool_lock (the_pool PF s)) s) (\<lambda>s. Inr (0, s))
      else let (pop_elem, s) = list_pop (free_list desc) s in
           bnd (ASSERT (pop_elem \<noteq> 0) ''pop_elem != 0'') (\<lambda>_.
           let mem_elem = pop_elem; mem_elem_arena = block_to_arena mem_elem in
           bnd (arena_cnt mem_elem_arena s) (\<lambda>cnt.
           bnd (set_arena_cnt mem_elem_arena (cnt - 1) s) (\<lambda>s.
           bnd (memset_0 mem_elem (block_size (block_descs s desc)) s) (\<lambda>s.
           bnd (lock_release (pool_lock (the_pool PF s)) s) (\<lambda>s.
           Inr (mem_elem, s))))))))"

definition sys_malloc :: "u32 \<Rightarrow> 'a heap_state_scheme \<Rightarrow> error + (u32 \<times> 'a heap_state_scheme)" where
  "sys_malloc sz s =
     (let curr_process = running_thread s;
          PF = (if pgdir (pcbs s curr_process) = 0 then PF_KERNEL else PF_USER);
          mem_desc_set = (if pgdir (pcbs s curr_process) = 0 then k_mem_block_descs s else u_mem_block_desc curr_process)
      in bnd (lock_acquire_now (pool_lock (the_pool PF s)) s) (\<lambda>s.
         if sz > 1024 then malloc_large PF sz s else malloc_small PF mem_desc_set sz s))"

text \<open>The loop that takes the blocks of an arena off the free list.\<close>

fun collect_arena :: "u32 \<Rightarrow> u32 \<Rightarrow> nat \<Rightarrow> 'a thread_state_scheme \<Rightarrow> error + 'a thread_state_scheme" where
  "collect_arena mem_arena block_idx 0 s = Inr s"
| "collect_arena mem_arena block_idx (Suc n) s =
     bnd (arena_to_block mem_arena block_idx s) (\<lambda>block.
     bnd (load_word mem_arena s) (\<lambda>desc.
     bnd (elem_find (free_list desc) block s) (\<lambda>found.
     bnd (ASSERT found ''elem_find(&mem_arena->mem_desc_addr->free_list, &block->free_elem)'') (\<lambda>_.
     collect_arena mem_arena (block_idx + 1) n (list_remove block s)))))"

definition sys_free :: "u32 \<Rightarrow> 'a thread_state_scheme \<Rightarrow> error + 'a thread_state_scheme" where
  "sys_free ptr s =
     (let PF = (if pgdir (pcbs s (running_thread s)) = 0 then PF_KERNEL else PF_USER) in
      bnd (lock_acquire_now (pool_lock (the_pool PF s)) s) (\<lambda>s.
      let mem_arena = block_to_arena ptr in
      bnd (load_word mem_arena s) (\<lambda>desc.
      bnd (if desc = 0
           then bnd (arena_cnt mem_arena s) (\<lambda>cnt. free_pages PF cnt mem_arena s)
           else let s = list_append (free_list desc) ptr s in
                bnd (arena_cnt mem_arena s) (\<lambda>cnt.
                bnd (set_arena_cnt mem_arena (cnt + 1) s) (\<lambda>s.
                if cnt + 1 = blocks_per_arena (block_descs s desc)
                then bnd (collect_arena mem_arena 0 (unat (blocks_per_arena (block_descs s desc))) s) (\<lambda>s.
                     free_pages PF 1 mem_arena s)
                else Inr s))) (\<lambda>s.
      lock_release (pool_lock (the_pool PF s)) s))))"

section \<open>Kinds of blocks\<close>

definition kind :: "nat \<Rightarrow> mem_block_desc" where
  "kind i = \<lparr>block_size = 2 ^ (4 + i), blocks_per_arena = of_nat (4084 div 2 ^ (4 + i))\<rparr>"

definition descs_ok :: "u32 \<Rightarrow> 'a thread_state_scheme \<Rightarrow> bool" where
  "descs_ok base s \<longleftrightarrow> (\<forall>i < 7. block_descs s (desc_addr base (of_nat i)) = kind i)"

lemma less_7: "i < 7 \<longleftrightarrow> i \<in> {0, 1, 2, 3, 4, 5, 6 :: nat}"
  by auto

lemma kinds:
  "kind 0 = \<lparr>block_size = 16, blocks_per_arena = 255\<rparr>" "kind 1 = \<lparr>block_size = 32, blocks_per_arena = 127\<rparr>"
  "kind 2 = \<lparr>block_size = 64, blocks_per_arena = 63\<rparr>" "kind 3 = \<lparr>block_size = 128, blocks_per_arena = 31\<rparr>"
  "kind 4 = \<lparr>block_size = 256, blocks_per_arena = 15\<rparr>" "kind 5 = \<lparr>block_size = 512, blocks_per_arena = 7\<rparr>"
  "kind 6 = \<lparr>block_size = 1024, blocks_per_arena = 3\<rparr>" "kind (Suc 0) = \<lparr>block_size = 32, blocks_per_arena = 127\<rparr>"
  by (simp_all add: kind_def)

lemma list_init_descs [simp]: "block_descs (list_init l s) = block_descs s"
  by (simp add: list_init_def set_prev_def set_next_def Let_def)

lemma block_des_init_descs: "descs_ok base (block_des_init base s)"
proof -
  let ?a = "\<lambda>i. base + 24 * i :: u32"
  have "block_des_init_loop base 0 16 7 s = block_des_init_loop base 0 16 (Suc (Suc (Suc (Suc (Suc (Suc (Suc 0))))))) s"
    by (simp add: eval_nat_numeral)
  then show ?thesis
    unfolding descs_ok_def block_des_init_def less_7
    by (simp add: kinds desc_addr_def SIZEOF_MEM_BLOCK_DESC_def PAGE_SIZE_def SIZEOF_ARENA_def Let_def)
qed

lemma unat_frame_of: "unat (frame_of w) = unat w div 4096 * 4096"
proof -
  have "frame_of w = push_bit 12 (drop_bit 12 w)" unfolding frame_of_def
    by (rule bit_word_eqI) (auto simp only: bit_simps bit_consts o_def; auto)
  then have "frame_of w = drop_bit 12 w * 4096" by (simp add: push_bit_eq_mult)
  moreover have "unat (drop_bit 12 w) = unat w div 4096" by (simp add: drop_bit_eq_div unat_div)
  moreover have "unat w div 4096 * 4096 < 2 ^ 32"
    using unsigned_less[of w] by (intro le_less_trans[OF div_times_less_eq_dividend]) simp
  ultimately show ?thesis by (simp add: unat_word_ariths)
qed

text \<open>A block of kind \<open>k\<close> of the arena.\<close>

definition block_at :: "u32 \<Rightarrow> nat \<Rightarrow> nat \<Rightarrow> u32" where
  "block_at arena k i = arena + 12 + of_nat (i * 2 ^ (4 + k))"

lemma block_in_page:
  fixes i k :: nat
  assumes "k < 7" "i < 4084 div 2 ^ (4 + k)"
  shows "12 + i * 2 ^ (4 + k) + 2 ^ (4 + k) \<le> 4096"
proof -
  have "(i + 1) * 2 ^ (4 + k) \<le> (4084 div 2 ^ (4 + k)) * 2 ^ (4 + k)" using assms(2) by (intro mult_right_mono) simp_all
  also have "\<dots> \<le> 4084" by (rule div_times_less_eq_dividend)
  finally show ?thesis by (simp add: algebra_simps)
qed

lemma unat_block_at:
  assumes "frame_of arena = arena" "k < 7" "i < 4084 div 2 ^ (4 + k)"
  shows "unat (block_at arena k i) = unat arena + 12 + i * 2 ^ (4 + k)" "unat (block_at arena k i) + 2 ^ (4 + k) \<le> unat arena + 4096"
    "block_to_arena (block_at arena k i) = arena"
proof -
  note p = block_in_page[OF assms(2,3)]
  have al: "unat arena mod 4096 = 0" using assms(1) by (simp add: aligned_iff)
  have "unat arena < 2 ^ 32" using unsigned_less[of arena] by simp
  then have e: "unat arena + 4096 \<le> 2 ^ 32" using al by (auto simp: mod_eq_0_iff_dvd dvd_def)
  define m where "m = i * 2 ^ (4 + k)"
  have "0 < (2 :: nat) ^ (4 + k)" by simp
  then have m: "m + 12 < 4096" using p unfolding m_def by linarith
  have "unat (of_nat m :: u32) = m" using m by (intro unat_of_nat_small) simp
  then have "unat (block_at arena k i) = unat arena + 12 + m"
    using m e by (simp add: block_at_def m_def[symmetric] unat_word_ariths del: of_nat_mult)
  then show u: "unat (block_at arena k i) = unat arena + 12 + i * 2 ^ (4 + k)" by (simp add: m_def)
  show "unat (block_at arena k i) + 2 ^ (4 + k) \<le> unat arena + 4096" using u p by simp
  show "block_to_arena (block_at arena k i) = arena"
  proof -
    obtain q where "unat arena = q * 4096" using al by (auto simp: mod_eq_0_iff_dvd dvd_def mult.commute)
    then have "unat (block_at arena k i) div 4096 * 4096 = unat arena" using u m by (simp add: m_def[symmetric])
    then show ?thesis by (simp add: block_to_arena_def frame_of_def[symmetric] word_unat_eq_iff unat_frame_of)
  qed
qed

section \<open>Words of a data page\<close>

text \<open>
  \<open>data_step s t\<close>: only words of memory have changed, and none of the page tables.
\<close>

definition data_step :: "'a mem_state_scheme \<Rightarrow> 'a mem_state_scheme \<Rightarrow> bool" where
  "data_step s t \<longleftrightarrow> t = s\<lparr>phys := phys t\<rparr> \<and> tables_wf t \<and> same_dir s t \<and> (\<forall>w. translate w t = translate w s)"

definition data_page :: "u32 \<Rightarrow> u32 \<Rightarrow> 'a mem_state_scheme \<Rightarrow> bool" where
  "data_page v f s \<longleftrightarrow> maps_page v f s \<and> frame_of f \<notin> table_frames s"

definition word_at :: "u32 \<Rightarrow> u32 \<Rightarrow> u32" where
  "word_at f w = frame_of f OR w AND 0xfff"

lemma frame_of_word_at [simp]: "frame_of (word_at f w) = frame_of f"
  unfolding word_at_def frame_of_def
  by (rule bit_word_eqI) (auto simp only: bit_simps bit_consts)

lemma word_at_inj: "frame_of v = frame_of w \<Longrightarrow> word_at f v = word_at f w \<Longrightarrow> v = w"
proof (rule bit_word_eqI)
  fix n assume a: "frame_of v = frame_of w" "word_at f v = word_at f w" "n < LENGTH(32)"
  have "bit (v AND 0xfffff000) n = bit (w AND 0xfffff000) n" using a(1) by (simp add: frame_of_def)
  moreover have "bit (frame_of f OR v AND 0xfff) n = bit (frame_of f OR w AND 0xfff) n" using a(2) by (simp add: word_at_def)
  ultimately show "bit v n = bit w n"
    using a(3) unfolding frame_of_def by (simp only: bit_simps bit_consts) (cases "n < 12"; auto)
qed

lemma data_step_refl: "tables_wf s \<Longrightarrow> data_step s s"
  by (simp add: data_step_def)

lemma data_step_trans: "data_step s t \<Longrightarrow> data_step t u \<Longrightarrow> data_step s u"
proof -
  assume a: "data_step s t" "data_step t u"
  have "t = s\<lparr>phys := phys t\<rparr>" "u = t\<lparr>phys := phys u\<rparr>" using a by (simp_all add: data_step_def)
  then have "u = (s\<lparr>phys := phys t\<rparr>)\<lparr>phys := phys u\<rparr>" by metis
  then show ?thesis using a same_dir_trans[of s t u] by (simp add: data_step_def)
qed

lemma data_page_step: "data_step s t \<Longrightarrow> data_page v f t = data_page v f s"
  using table_frames_same_dir[of s t] by (auto simp: data_step_def data_page_def maps_page_def)

lemma data_word:
  assumes "tables_wf s" "frame_of a \<notin> table_frames s"
  shows "data_step s (s\<lparr>phys := (phys s)(a := x)\<rparr>)"
proof -
  let ?t = "s\<lparr>phys := (phys s)(a := x)\<rparr>"
  note self = tables_wfD(1)[OF assms(1)]
  have c: "a \<noteq> entry_at (cr3 s) i" if "index i" for i
    using assms(2) that by (auto simp: table_frames_def)
  have d: "pde_of w ?t = pde_of w s" for w using c[of "pd_index w"] by (simp add: pde_of_def)
  then have sd: "same_dir s ?t" by (simp add: same_dir_def)
  have "a \<noteq> entry_at (pde_of w s) (pt_index w)" if "bit (pde_of w s) 0" for w
  proof (cases "pd_index w = 0x3ff")
    case True
    then have "frame_of (pde_of w s) = frame_of (cr3 s)" using self by (simp add: self_mapped_def pde_of_def Let_def)
    then show ?thesis using assms(2) by (auto simp: table_frames_def)
  next
    case False
    then show ?thesis using assms(2) that by (auto simp: table_frames_def)
  qed
  then have "translate w ?t = translate w s" for w
    using d[of w] by (intro translate_cong) (auto simp: pde_of_def pte_of_def)
  moreover have "tables_wf ?t"
    using tables_wfD(2)[OF assms(1)] by (intro tables_wf_transfer[OF assms(1) sd]) simp_all
  ultimately show ?thesis using sd by (simp add: data_step_def)
qed

lemma data_store:
  assumes "tables_wf s" "data_page v f s" "frame_of w = frame_of v"
  shows "store_word w x s = Inr (s\<lparr>phys := (phys s)(word_at f w := x)\<rparr>)" "load_word w s = Inr (phys s (word_at f w))"
    "data_step s (s\<lparr>phys := (phys s)(word_at f w := x)\<rparr>)"
proof -
  have t: "translate w s = Inr (word_at f w)" using assms(2,3) by (simp add: data_page_def maps_page_def word_at_def)
  then show "store_word w x s = Inr (s\<lparr>phys := (phys s)(word_at f w := x)\<rparr>)" "load_word w s = Inr (phys s (word_at f w))"
    by (simp_all add: store_word_def load_word_def)
  show "data_step s (s\<lparr>phys := (phys s)(word_at f w := x)\<rparr>)"
    using assms(2) by (intro data_word[OF assms(1)]) (simp add: data_page_def)
qed

lemma zero_words_data:
  "\<lbrakk> tables_wf s; data_page v f s; \<forall>i < n. frame_of (va + 4 * of_nat i) = frame_of v \<rbrakk> \<Longrightarrow>
   \<exists>t. zero_words va n s = Inr t \<and> data_step s t \<and>
     (\<forall>a. phys t a = (if \<exists>i < n. a = word_at f (va + 4 * of_nat i) then 0 else phys s a))"
proof (induction n arbitrary: va s)
  case 0
  then show ?case by (simp add: data_step_refl)
next
  case (Suc n)
  have v: "frame_of va = frame_of v" using Suc.prems(3)[rule_format, of 0] by simp
  let ?s1 = "s\<lparr>phys := (phys s)(word_at f va := 0)\<rparr>"
  note st = data_store(1,3)[OF Suc.prems(1,2) v, of 0]
  have e: "va + 4 + 4 * of_nat i = va + 4 * of_nat (Suc i)" for i :: nat by (simp add: algebra_simps)
  have al: "\<forall>i < n. frame_of (va + 4 + 4 * of_nat i) = frame_of v" using Suc.prems(3) unfolding e by auto
  have s1: "tables_wf ?s1" "data_page v f ?s1"
    using st(2) Suc.prems(2) data_page_step[OF st(2)] by (simp_all add: data_step_def)
  obtain t where t: "zero_words (va + 4) n ?s1 = Inr t" "data_step ?s1 t"
     "\<forall>a. phys t a = (if \<exists>i < n. a = word_at f (va + 4 * of_nat (Suc i)) then 0 else phys ?s1 a)"
    using Suc.IH[OF s1 al] unfolding e by (elim exE conjE) (rule that)
  have "(\<exists>i < Suc n. P i) \<longleftrightarrow> P 0 \<or> (\<exists>i < n. P (Suc i))" for P :: "nat \<Rightarrow> bool"
    unfolding less_Suc_eq_0_disj by auto
  from this[of "\<lambda>i. _ = word_at f (va + 4 * of_nat i)"] have "\<forall>a. phys t a = (if \<exists>i < Suc n. a = word_at f (va + 4 * of_nat i) then 0 else phys s a)"
    using t(3) by simp blast
  then show ?case using st(1) t(1) data_step_trans[OF st(2) t(2)] by auto
qed

section \<open>Taking a block from a free list\<close>

text \<open>\<open>apart p n Q\<close>: no node of the lists lies in the \<open>n\<close> bytes from \<open>p\<close>, but for \<open>p\<close> itself.\<close>

definition apart :: "u32 \<Rightarrow> nat \<Rightarrow> (u32 \<rightharpoonup> u32 list) \<Rightarrow> bool" where
  "apart p n Q \<longleftrightarrow> (\<forall>q ys x. Q q = Some ys \<and> x \<in> set (nodes q ys) \<and> x \<noteq> p \<longrightarrow> \<not> x - p < of_nat n)"

lemma lists_at_cong:
  assumes "\<And>q ys x. Q q = Some ys \<Longrightarrow> x \<in> set (nodes q ys) \<Longrightarrow> h' x = h x"
  shows "lists_at h' Q = lists_at h Q"
proof -
  have "Q q = Some ys \<Longrightarrow> list_at h' q ys = list_at h q ys" for q ys
    unfolding list_at_def using links_same[of "nodes q ys" h' h] assms by blast
  then show ?thesis unfolding lists_at_def by blast
qed

lemma zero_nodes_lists:
  assumes "lists_at h Q" "unlinked p Q" "apart p n Q"
  shows "lists_at (zero_nodes p (of_nat n) h) Q"
proof -
  have "zero_nodes p (of_nat n) h x = h x" if "Q q = Some ys" "x \<in> set (nodes q ys)" for q ys x
  proof -
    have "x \<noteq> p" using assms(2) that by (auto simp: unlinked_def)
    then have "\<not> x - p < of_nat n" using assms(3) that unfolding apart_def by blast
    then show ?thesis by (simp add: zero_nodes_def)
  qed
  then show ?thesis using assms(1) lists_at_cong[of Q "zero_nodes p (of_nat n) h" h] by blast
qed

lemma lheap_memory [simp]:
  "translate w (s\<lparr>lheap := h\<rparr>) = translate w s" "tables_wf (s\<lparr>lheap := h\<rparr>) = tables_wf s"
  "table_frames (s\<lparr>lheap := h\<rparr>) = table_frames s" "data_page v f (s\<lparr>lheap := h\<rparr>) = data_page v f s"
  by (simp_all add: translate_def pde_of_def pte_of_def tables_wf_def self_mapped_def table_frames_def data_page_def maps_page_def)

lemma frame_of_offset:
  assumes "frame_of a = a" "unat w = unat a + n" "n < 4096"
  shows "frame_of w = a"
proof -
  obtain q where "unat a = q * 4096" using assms(1) by (auto simp: aligned_iff mod_eq_0_iff_dvd dvd_def mult.commute)
  then have "unat w div 4096 * 4096 = unat a" using assms(2,3) by simp
  then show ?thesis by (simp add: word_unat_eq_iff unat_frame_of)
qed

lemma page_room:
  assumes "frame_of a = a"
  shows "unat a + 4096 \<le> 2 ^ 32"
proof -
  have "unat a < 2 ^ 32" using unsigned_less[of a] by simp
  moreover obtain q where "unat a = q * 4096" using assms by (auto simp: aligned_iff mod_eq_0_iff_dvd dvd_def mult.commute)
  ultimately show ?thesis by simp
qed

lemma header_word: "frame_of a = a \<Longrightarrow> n < 4096 \<Longrightarrow> frame_of (a + of_nat n) = a \<and> unat (a + of_nat n) = unat a + n"
proof -
  assume a: "frame_of a = a" "n < 4096"
  have "unat (of_nat n :: u32) = n" using a(2) by (intro unat_of_nat_small) simp
  then have u: "unat (a + of_nat n) = unat a + n" using page_room[OF a(1)] a(2) by (simp add: unat_word_ariths)
  then show ?thesis using frame_of_offset[OF a(1) u a(2)] by simp
qed

lemma block_words:
  assumes "frame_of arena = arena" "k < 7" "j < 4084 div 2 ^ (4 + k)" "i < 2 ^ (2 + k)"
  shows "frame_of (block_at arena k j + 4 * of_nat i) = arena" "block_at arena k j + 4 * of_nat i \<noteq> arena + 4"
    "block_at arena k j + 4 * of_nat i \<noteq> arena"
proof -
  define m where "m = 12 + j * 2 ^ (4 + k)"
  have e: "(2 :: nat) ^ (4 + k) = 4 * 2 ^ (2 + k)" by (simp add: power_add)
  have b: "m + 4 * i < 4096" using block_in_page[OF assms(2,3)] assms(4) unfolding m_def e by linarith
  have "block_at arena k j + 4 * of_nat i = arena + of_nat (m + 4 * i)"
    by (simp add: block_at_def m_def)
  then have h: "frame_of (block_at arena k j + 4 * of_nat i) = arena" "unat (block_at arena k j + 4 * of_nat i) = unat arena + (m + 4 * i)"
    using header_word[OF assms(1) b] by (simp_all only:)
  show "frame_of (block_at arena k j + 4 * of_nat i) = arena" by (rule h(1))
  have "unat (arena + 4) = unat arena + 4" using header_word[OF assms(1), of 4] by simp
  then show "block_at arena k j + 4 * of_nat i \<noteq> arena + 4" using h(2) by (auto simp: m_def)
  show "block_at arena k j + 4 * of_nat i \<noteq> arena" using h(2) by (auto simp: m_def)
qed

lemma kind_sizes:
  assumes "k < 7"
  shows "unat (2 ^ (4 + k) :: u32) = 2 ^ (4 + k)" "(2 ^ (4 + k) :: u32) mod 4 = 0" "(2 ^ (4 + k) :: u32) = of_nat (2 ^ (4 + k))"
proof -
  have "(2 :: nat) ^ (4 + k) \<le> 2 ^ 10" using assms by (intro power_increasing) simp_all
  then show u: "unat (2 ^ (4 + k) :: u32) = 2 ^ (4 + k)"
    using unat_of_nat_small[of "2 ^ (4 + k)", where ?'a = 32] by simp
  show "(2 ^ (4 + k) :: u32) = of_nat (2 ^ (4 + k))" by simp
  have "unat ((2 ^ (4 + k) :: u32) mod 4) = 2 ^ (4 + k) mod 4" by (simp only: unat_mod u) simp
  also have "\<dots> = 0" by (simp add: power_add)
  finally have "unat ((2 ^ (4 + k) :: u32) mod 4) = 0" .
  then show "(2 ^ (4 + k) :: u32) mod 4 = 0" by (simp only: unat_eq_zero)
qed

lemma clear_block:
  assumes "tables_wf s" "data_page arena f s" "frame_of arena = arena" "k < 7" "j < 4084 div 2 ^ (4 + k)"
  defines "p \<equiv> block_at arena k j"
  shows "\<exists>ph. memset_0 p (2 ^ (4 + k)) s = Inr (s\<lparr>lheap := zero_nodes p (of_nat (2 ^ (4 + k))) (lheap s), phys := ph\<rparr>) \<and>
     data_step s (s\<lparr>phys := ph\<rparr>) \<and>
     (\<forall>a. ph a = (if \<exists>i < 2 ^ (2 + k). a = word_at f (p + 4 * of_nat i) then 0 else phys s a))"
proof -
  have "unat p \<noteq> 0" using unat_block_at(1)[OF assms(3-5)] by (simp add: p_def)
  then have nz: "p \<noteq> 0" by auto
  have al: "frame_of arena = frame_of arena" "\<forall>i < 2 ^ (2 + k). frame_of (p + 4 * of_nat i) = frame_of arena"
    using block_words(1)[OF assms(3-5)] assms(3) by (simp_all add: p_def)
  obtain t where t: "zero_words p (2 ^ (2 + k)) s = Inr t" "data_step s t"
      "\<forall>a. phys t a = (if \<exists>i < 2 ^ (2 + k). a = word_at f (p + 4 * of_nat i) then 0 else phys s a)"
    using zero_words_data[OF assms(1,2) al(2)] by (elim exE conjE) (rule that)
  have e: "t = s\<lparr>phys := phys t\<rparr>" using t(2) by (simp add: data_step_def)
  have z: "unat (2 ^ (4 + k) :: u32) div 4 = 2 ^ (2 + k)"
    unfolding kind_sizes(1)[OF assms(4)] by (simp add: power_add)
  have "memset_0 p (2 ^ (4 + k)) s = Inr (t\<lparr>lheap := zero_nodes p (2 ^ (4 + k)) (lheap t)\<rparr>)"
    unfolding memset_0_def z kind_sizes(2)[OF assms(4)] using nz t(1) by simp
  also have "\<dots> = Inr (s\<lparr>lheap := zero_nodes p (2 ^ (4 + k)) (lheap s), phys := phys t\<rparr>)"
  proof -
    have "lheap t = lheap s" by (subst e) simp
    moreover have "t\<lparr>lheap := h\<rparr> = s\<lparr>lheap := h, phys := phys t\<rparr>" for h by (subst e) (cases s, simp)
    ultimately show ?thesis by simp
  qed
  finally have m: "memset_0 p (2 ^ (4 + k)) s = Inr (s\<lparr>lheap := zero_nodes p (2 ^ (4 + k)) (lheap s), phys := phys t\<rparr>)" .
  have "data_step s (s\<lparr>phys := phys t\<rparr>)" by (subst e[symmetric]) (rule t(2))
  then show ?thesis using t(3) m unfolding kind_sizes(3)[OF assms(4), symmetric] by blast
qed

lemma find_desc_ok:
  assumes "descs_ok base s" "sz \<le> 1024"
  shows "\<exists>k < 7. find_desc base sz 0 7 s = of_nat k \<and> unat sz \<le> 2 ^ (4 + k) \<and> (\<forall>i < k. 2 ^ (4 + i) < unat sz)"
proof -
  have step: "find_desc base sz (of_nat i) (7 - i) s = of_nat k"
    if "k < 7" "unat sz \<le> 2 ^ (4 + k)" "\<forall>i < k. 2 ^ (4 + i) < unat sz" "i \<le> k" for i k
    using that(4)
  proof (induction "k - i" arbitrary: i)
    case 0
    then have "i = k" by simp
    define n where "n = 6 - k"
    have n: "7 - k = Suc n" unfolding n_def using that(1) by arith
    have "sz \<le> 2 ^ (4 + k)" using that(2) kind_sizes(1)[OF that(1)] by (simp add: word_le_nat_alt)
    then show ?case using assms(1) that(1) \<open>i = k\<close> by (simp add: n descs_ok_def kind_def)
  next
    case (Suc d)
    then have i: "i < k" "d = k - Suc i" by simp_all
    define n where "n = 7 - Suc i"
    have n: "7 - i = Suc n" "7 - Suc i = n" unfolding n_def using that(1) i(1) by arith+
    have "\<not> sz \<le> 2 ^ (4 + i)"
      using that(1,3) i kind_sizes(1)[of i] by (simp add: word_le_nat_alt not_le)
    then have "find_desc base sz (of_nat i) (7 - i) s = find_desc base sz (of_nat (Suc i)) n s"
      using assms(1) that(1) i(1) by (simp add: n(1) descs_ok_def kind_def add.commute)
    then show ?case using Suc.hyps(1)[OF i(2)] i(1) n(2) by simp
  qed
  have "unat sz \<le> 2 ^ (4 + 6)" using assms(2) by (simp add: word_le_nat_alt)
  then obtain k where k: "unat sz \<le> 2 ^ (4 + k)" "\<forall>i < k. \<not> unat sz \<le> 2 ^ (4 + i)" "k \<le> 6"
    using exists_least_iff[of "\<lambda>k. unat sz \<le> 2 ^ (4 + k)"] by (metis not_le)
  then show ?thesis using step[of k 0] by (intro exI[of _ k]) (simp add: not_le)
qed

lemma apart_sub:
  "\<lbrakk> apart p n Q; Q l = Some ys; set xs \<subseteq> set ys \<rbrakk> \<Longrightarrow> apart p n (Q(l \<mapsto> xs))"
  unfolding apart_def by (auto simp: map_upd_Some_unfold nodes_def split: if_splits)

text \<open>
  \<open>free_block base k arena j f xs Q s\<close>: the block \<open>j\<close> of the arena, of kind \<open>k\<close>, is the first on its
  free list, in front of \<open>xs\<close>; the arena is mapped to the frame \<open>f\<close>.
\<close>

definition free_block :: "u32 \<Rightarrow> nat \<Rightarrow> u32 \<Rightarrow> nat \<Rightarrow> u32 \<Rightarrow> u32 list \<Rightarrow> (u32 \<rightharpoonup> u32 list) \<Rightarrow> 'a thread_state_scheme \<Rightarrow> bool" where
  "free_block base k arena j f xs Q s \<longleftrightarrow> descs_ok base s \<and> tables_wf s \<and> data_page arena f s \<and> frame_of arena = arena \<and>
     k < 7 \<and> j < 4084 div 2 ^ (4 + k) \<and> lists_at (lheap s) Q \<and>
     Q (free_list (desc_addr base (of_nat k))) = Some (block_at arena k j # xs) \<and> apart (block_at arena k j) (2 ^ (4 + k)) Q"

definition taken :: "nat \<Rightarrow> u32 \<Rightarrow> nat \<Rightarrow> u32 \<Rightarrow> (u32 \<Rightarrow> u32) \<Rightarrow> (u32 \<Rightarrow> u32)" where
  "taken k arena j f ph = (\<lambda>a. if \<exists>i < 2 ^ (2 + k). a = word_at f (block_at arena k j + 4 * of_nat i) then 0
     else if a = word_at f (arena + 4) then ph a - 1 else ph a)"

lemma malloc_small_pops:
  assumes fb: "free_block base k arena j f xs Q s" and sz: "find_desc base sz 0 7 s = of_nat k"
  defines "l \<equiv> free_list (desc_addr base (of_nat k))" and "p \<equiv> block_at arena k j"
  obtains h where "malloc_small PF base sz s =
      bnd (lock_release (pool_lock (the_pool PF s)) (s\<lparr>lheap := h, phys := taken k arena j f (phys s)\<rparr>)) (\<lambda>s. Inr (p, s))"
    "lists_at h (Q(l \<mapsto> xs))" "data_step s (s\<lparr>phys := taken k arena j f (phys s)\<rparr>)" "unlinked p (Q(l \<mapsto> xs))"
proof -
  have c: "descs_ok base s" "tables_wf s" "data_page arena f s" "frame_of arena = arena" "k < 7" "j < 4084 div 2 ^ (4 + k)"
    "lists_at (lheap s) Q" "Q l = Some (p # xs)" "apart p (2 ^ (4 + k)) Q"
    using fb by (simp_all add: free_block_def l_def p_def)
  have d: "block_descs s (desc_addr base (of_nat k)) = kind k" using c(1,5) by (simp add: descs_ok_def)
  note b = unat_block_at[OF c(4-6)]
  have p0: "p \<noteq> 0" using b(1) by (auto simp: p_def)
  let ?h1 = "remove_heap p (lheap s)"
  let ?s1 = "s\<lparr>lheap := ?h1\<rparr>"
  note pop = lists_at_pop[OF c(7,8)]
  have un: "unlinked p (Q(l \<mapsto> xs))" using unlinked_removed[of "lheap s" Q l "[]" p xs] c(7,8) by simp
  have ar: "frame_of (arena + 4) = frame_of arena" using header_word[OF c(4), of 4] c(4) by simp
  let ?ph = "(phys s)(word_at f (arena + 4) := phys s (word_at f (arena + 4)) - 1)"
  let ?s2 = "?s1\<lparr>phys := ?ph\<rparr>"
  have s1: "tables_wf ?s1" "data_page arena f ?s1" using c(2,3) by simp_all
  note st = data_store(1,2)[OF s1 ar]
  have d2: "data_step ?s1 ?s2" using data_store(3)[OF s1 ar] by simp
  then have s2: "tables_wf ?s2" "data_page arena f ?s2" using data_page_step[OF d2] s1(2) by (simp_all add: data_step_def)
  obtain ph where ph: "memset_0 p (2 ^ (4 + k)) ?s2 = Inr (?s2\<lparr>lheap := zero_nodes p (of_nat (2 ^ (4 + k))) ?h1, phys := ph\<rparr>)"
     "data_step ?s2 (?s2\<lparr>phys := ph\<rparr>)"
     "\<forall>a. ph a = (if \<exists>i < 2 ^ (2 + k). a = word_at f (p + 4 * of_nat i) then 0 else ?ph a)"
  proof (atomize_elim)
    let ?h = "zero_nodes p (of_nat (2 ^ (4 + k))) ?h1"
    have "lheap ?s2 = ?h1" "phys ?s2 = ?ph" by simp_all
    then show "\<exists>ph. memset_0 p (2 ^ (4 + k)) ?s2 = Inr (?s2\<lparr>lheap := ?h, phys := ph\<rparr>) \<and>
       data_step ?s2 (?s2\<lparr>phys := ph\<rparr>) \<and>
       (\<forall>a. ph a = (if \<exists>i < 2 ^ (2 + k). a = word_at f (p + 4 * of_nat i) then 0 else ?ph a))"
      using clear_block[OF s2 c(4-6), folded p_def] by (simp only:)
  qed
  have ph_eq: "ph = taken k arena j f (phys s)" using ph(3) by (auto simp: taken_def p_def fun_eq_iff)
  let ?h = "zero_nodes p (of_nat (2 ^ (4 + k))) ?h1"
  have "apart p (2 ^ (4 + k)) (Q(l \<mapsto> xs))" using apart_sub[OF c(9,8)] by auto
  then have L: "lists_at ?h (Q(l \<mapsto> xs))" by (rule zero_nodes_lists[OF pop(2) un])
  have e: "\<not> list_empty l s" using list_empty_ok[OF lists_atD(1)[OF c(7,8)]] by simp
  have "malloc_small PF base sz s =
      bnd (lock_release (pool_lock (the_pool PF (?s2\<lparr>lheap := ?h, phys := ph\<rparr>))) (?s2\<lparr>lheap := ?h, phys := ph\<rparr>)) (\<lambda>s. Inr (p, s))"
    unfolding malloc_small_def sz l_def[symmetric] Let_def
    using e p0 st b(3) ph(1) pop(1) d
    by (simp add: list_pop_eq arena_cnt_def set_arena_cnt_def kind_def p_def[symmetric] ASSERT_def)
  moreover have "?s2\<lparr>lheap := ?h, phys := ph\<rparr> = s\<lparr>lheap := ?h, phys := ph\<rparr>" by (cases s) simp
  moreover have "the_pool PF (s\<lparr>lheap := ?h, phys := ph\<rparr>) = the_pool PF s" by (simp add: the_pool_def split: pool_flags.splits)
  ultimately have m: "malloc_small PF base sz s =
      bnd (lock_release (pool_lock (the_pool PF s)) (s\<lparr>lheap := ?h, phys := ph\<rparr>)) (\<lambda>s. Inr (p, s))"
    by simp
  have "data_step s (s\<lparr>phys := ph\<rparr>)"
  proof -
    have "data_step ?s1 (?s2\<lparr>phys := ph\<rparr>)" by (rule data_step_trans[OF d2 ph(2)])
    then have "data_step ?s1 ((s\<lparr>phys := ph\<rparr>)\<lparr>lheap := ?h1\<rparr>)" by (cases s) simp
    then show ?thesis by (simp only: data_step_def same_dir_def pde_of_def lheap_memory) simp
  qed
  then show ?thesis using that[of ?h] L un ph_eq m by simp
qed

section \<open>sys_malloc and sys_free of a block\<close>

text \<open>The pool and the kinds of blocks of the running thread, as both routines choose them.\<close>

definition heap_pool :: "'a thread_state_scheme \<Rightarrow> pool_flags" where
  "heap_pool s = (if pgdir (pcbs s (running_thread s)) = 0 then PF_KERNEL else PF_USER)"

definition heap_descs :: "'a heap_state_scheme \<Rightarrow> u32" where
  "heap_descs s = (if pgdir (pcbs s (running_thread s)) = 0 then k_mem_block_descs s else u_mem_block_desc (running_thread s))"

definition heap_lock :: "'a thread_state_scheme \<Rightarrow> u32" where
  "heap_lock s = pool_lock (the_pool (heap_pool s) s)"

definition heap_ready :: "(u32 \<rightharpoonup> u32 list) \<Rightarrow> 'a thread_state_scheme \<Rightarrow> bool" where
  "heap_ready Q s \<longleftrightarrow> running_thread s \<noteq> 0 \<and> lists_at (lheap s) Q \<and> Q (sem_waiter (lock_sem (heap_lock s))) = Some [] \<and>
     locks s (heap_lock s) = \<lparr>holder = 0, holder_repeat_num = 0\<rparr> \<and> sem_value s (lock_sem (heap_lock s)) = 1"

lemma heap_ready_free: "heap_ready Q s \<Longrightarrow> lock_free (heap_lock s) s"
  using list_empty_ok[OF lists_atD(1)] by (auto simp: heap_ready_def lock_free_def)

lemma running_memory [simp]: "running_thread (s\<lparr>lheap := h, phys := ph\<rparr>) = running_thread s"
  "running_thread (s\<lparr>lheap := h\<rparr>) = running_thread s" "running_thread (s\<lparr>phys := ph\<rparr>) = running_thread s"
  by (simp_all add: running_thread_def)

lemma the_pool_memory [simp]: "the_pool PF (s\<lparr>lheap := h, phys := ph\<rparr>) = the_pool PF s" "the_pool PF (s\<lparr>lheap := h\<rparr>) = the_pool PF s"
  "the_pool PF (s\<lparr>phys := ph\<rparr>) = the_pool PF s" "the_pool PF (set_lock l c n v s) = the_pool PF s"
  by (simp_all add: the_pool_def set_lock_def split: pool_flags.splits)

lemma heap_ready_memory [simp]: "heap_lock (s\<lparr>lheap := h, phys := ph\<rparr>) = heap_lock s"
  by (simp add: heap_lock_def heap_pool_def)

lemma sys_malloc_eq: "sys_malloc sz s = bnd (lock_acquire_now (heap_lock s) s) (\<lambda>t.
    if sz \<le> 1024 then malloc_small (heap_pool s) (heap_descs s) sz t else malloc_large (heap_pool s) sz t)"
  unfolding sys_malloc_def Let_def heap_lock_def heap_pool_def[symmetric] heap_descs_def[symmetric] not_less[symmetric]
  by (cases "1024 < sz") simp_all

text \<open>Under the lock, only the nodes and the words have changed: the lock is released as it was.\<close>

lemma release_heap:
  assumes "heap_ready Q s" "lists_at h Q'" "Q' (sem_waiter (lock_sem (heap_lock s))) = Some []"
  shows "lock_release (heap_lock s) ((set_lock (heap_lock s) (running_thread s) 1 0 s)\<lparr>lheap := h, phys := ph\<rparr>)
     = Inr (s\<lparr>lheap := h, phys := ph\<rparr>)"
proof -
  let ?l = "heap_lock s"
  let ?t = "(set_lock ?l (running_thread s) 1 0 s)\<lparr>lheap := h, phys := ph\<rparr>"
  have "list_empty (sem_waiter (lock_sem ?l)) ?t"
    using list_empty_ok[of ?t] lists_atD(1)[OF assms(2,3)] by simp
  then have "lock_held ?l (running_thread ?t) ?t" by (simp add: lock_held_def set_lock_def running_thread_def)
  then have "lock_release ?l ?t = Inr (set_lock ?l 0 0 1 ?t)" by (rule lock_release_held)
  also have "set_lock ?l 0 0 1 ?t = (set_lock ?l 0 0 1 (set_lock ?l (running_thread s) 1 0 s))\<lparr>lheap := h, phys := ph\<rparr>"
    by (cases s) (simp add: set_lock_def)
  also have "\<dots> = s\<lparr>lheap := h, phys := ph\<rparr>" by (simp only: set_lock_restore[OF heap_ready_free[OF assms(1)]])
  finally show ?thesis .
qed

lemma set_lock_memory [simp]:
  "translate w (set_lock l c n v s) = translate w s" "tables_wf (set_lock l c n v s) = tables_wf s"
  "data_page p f (set_lock l c n v s) = data_page p f s" "descs_ok base (set_lock l c n v s) = descs_ok base s"
  "lheap (set_lock l c n v s) = lheap s" "phys (set_lock l c n v s) = phys s" "block_descs (set_lock l c n v s) = block_descs s"
  by (simp_all add: set_lock_def translate_def pde_of_def pte_of_def tables_wf_def self_mapped_def table_frames_def data_page_def
      maps_page_def descs_ok_def)

lemma free_block_lock: "free_block base k arena j f xs Q (set_lock l c n v s) = free_block base k arena j f xs Q s"
  by (simp add: free_block_def)

lemma sys_malloc_pops:
  assumes r: "heap_ready Q s" and fb: "free_block (heap_descs s) k arena j f xs Q s"
    and sz: "unat sz \<le> 2 ^ (4 + k)" "\<forall>i < k. 2 ^ (4 + i) < unat sz"
  defines "l \<equiv> free_list (desc_addr (heap_descs s) (of_nat k))" and "p \<equiv> block_at arena k j"
  assumes l: "l \<noteq> sem_waiter (lock_sem (heap_lock s))"
  obtains h where "sys_malloc sz s = Inr (p, s\<lparr>lheap := h, phys := taken k arena j f (phys s)\<rparr>)"
    "lists_at h (Q(l \<mapsto> xs))" "data_step s (s\<lparr>phys := taken k arena j f (phys s)\<rparr>)" "unlinked p (Q(l \<mapsto> xs))"
proof -
  let ?s1 = "set_lock (heap_lock s) (running_thread s) 1 0 s"
  have k: "k < 7" "descs_ok (heap_descs s) s" "frame_of arena = arena" using fb by (simp_all add: free_block_def)
  have "(2 :: nat) ^ (4 + k) \<le> 2 ^ 10" using k(1) by (intro power_increasing) simp_all
  then have small: "sz \<le> 1024" using sz(1) by (simp add: word_le_nat_alt)
  obtain m where m: "m < 7" "find_desc (heap_descs s) sz 0 7 ?s1 = of_nat m" "unat sz \<le> 2 ^ (4 + m)" "\<forall>i < m. 2 ^ (4 + i) < unat sz"
    using find_desc_ok[of "heap_descs s" ?s1, OF _ small] k(2) by auto
  have "m = k" using sz m(3,4) by (meson linorder_neqE_nat not_le)
  then have fd: "find_desc (heap_descs s) sz 0 7 ?s1 = of_nat k" using m(2) by simp
  have fb1: "free_block (heap_descs s) k arena j f xs Q ?s1" using fb by (simp add: free_block_lock)
  obtain h where h: "malloc_small (heap_pool s) (heap_descs s) sz ?s1 =
      bnd (lock_release (pool_lock (the_pool (heap_pool s) ?s1)) (?s1\<lparr>lheap := h, phys := taken k arena j f (phys ?s1)\<rparr>)) (\<lambda>s. Inr (p, s))"
    "lists_at h (Q(l \<mapsto> xs))" "data_step ?s1 (?s1\<lparr>phys := taken k arena j f (phys ?s1)\<rparr>)" "unlinked p (Q(l \<mapsto> xs))"
    by (rule malloc_small_pops[OF fb1 fd, where PF = "heap_pool s", folded l_def p_def])
  have w: "(Q(l \<mapsto> xs)) (sem_waiter (lock_sem (heap_lock s))) = Some []" using r l by (simp add: heap_ready_def)
  have rt: "running_thread s \<noteq> 0" using r by (simp add: heap_ready_def)
  have "sys_malloc sz s = malloc_small (heap_pool s) (heap_descs s) sz ?s1"
    using lock_acquire_free[OF heap_ready_free[OF r] rt] small unfolding sys_malloc_eq by simp
  also have "\<dots> = Inr (p, s\<lparr>lheap := h, phys := taken k arena j f (phys s)\<rparr>)"
    using h(1) release_heap[OF r h(2) w] by (simp add: heap_lock_def)
  finally have "sys_malloc sz s = Inr (p, s\<lparr>lheap := h, phys := taken k arena j f (phys s)\<rparr>)" .
  moreover have "data_step s (s\<lparr>phys := taken k arena j f (phys s)\<rparr>)"
  proof -
    have "data_step ?s1 (set_lock (heap_lock s) (running_thread s) 1 0 (s\<lparr>phys := taken k arena j f (phys s)\<rparr>))"
      using h(3) by (cases s) (simp add: set_lock_def)
    then show ?thesis by (simp only: data_step_def same_dir_def pde_of_def set_lock_memory) (simp add: set_lock_def)
  qed
  ultimately show ?thesis using that h(2,4) by blast
qed

text \<open>A block in use: its arena has its descriptor, and other blocks in use.\<close>

definition used_block :: "u32 \<Rightarrow> nat \<Rightarrow> u32 \<Rightarrow> nat \<Rightarrow> u32 \<Rightarrow> u32 list \<Rightarrow> (u32 \<rightharpoonup> u32 list) \<Rightarrow> 'a thread_state_scheme \<Rightarrow> bool" where
  "used_block base k arena j f xs Q s \<longleftrightarrow> descs_ok base s \<and> tables_wf s \<and> data_page arena f s \<and> frame_of arena = arena \<and>
     k < 7 \<and> j < 4084 div 2 ^ (4 + k) \<and> phys s (word_at f arena) = desc_addr base (of_nat k) \<and> desc_addr base (of_nat k) \<noteq> 0 \<and>
     Q (free_list (desc_addr base (of_nat k))) = Some xs \<and> unlinked (block_at arena k j) Q"

definition given_back :: "u32 \<Rightarrow> u32 \<Rightarrow> (u32 \<Rightarrow> u32) \<Rightarrow> (u32 \<Rightarrow> u32)" where
  "given_back arena f ph = ph(word_at f (arena + 4) := ph (word_at f (arena + 4)) + 1)"

lemma sys_free_appends:
  assumes r: "heap_ready Q s" and u: "used_block base k arena j f xs Q s"
    and n: "phys s (word_at f (arena + 4)) + 1 \<noteq> blocks_per_arena (kind k)"
  defines "l \<equiv> free_list (desc_addr base (of_nat k))" and "p \<equiv> block_at arena k j"
  assumes l: "l \<noteq> sem_waiter (lock_sem (heap_lock s))"
  obtains h where "sys_free p s = Inr (s\<lparr>lheap := h, phys := given_back arena f (phys s)\<rparr>)" "lists_at h (Q(l \<mapsto> xs @ [p]))"
proof -
  have c: "descs_ok base s" "tables_wf s" "data_page arena f s" "frame_of arena = arena" "k < 7" "j < 4084 div 2 ^ (4 + k)"
    "Q l = Some xs" "unlinked p Q" "phys s (word_at f arena) = desc_addr base (of_nat k)" "desc_addr base (of_nat k) \<noteq> 0"
    using u by (simp_all add: used_block_def l_def p_def)
  have rt: "running_thread s \<noteq> 0" "lists_at (lheap s) Q" using r by (simp_all add: heap_ready_def)
  have d: "block_descs s (desc_addr base (of_nat k)) = kind k" using c(1,5) by (simp add: descs_ok_def)
  let ?s1 = "set_lock (heap_lock s) (running_thread s) 1 0 s"
  let ?h = "insert_heap (tail_of l) p (lheap s)"
  let ?s2 = "?s1\<lparr>lheap := ?h\<rparr>"
  let ?ph = "given_back arena f (phys s)"
  have L: "lists_at ?h (Q(l \<mapsto> xs @ [p]))" by (rule lists_at_append[OF rt(2) c(7,8)])
  have a0: "load_word arena ?s1 = Inr (desc_addr base (of_nat k))" using data_store(2)[of ?s1 arena f arena] c by simp
  have ar: "frame_of (arena + 4) = frame_of arena" using header_word[OF c(4), of 4] c(4) by simp
  have a4: "load_word (arena + 4) ?s2 = Inr (phys s (word_at f (arena + 4)))"
    "store_word (arena + 4) (phys s (word_at f (arena + 4)) + 1) ?s2 = Inr (?s2\<lparr>phys := ?ph\<rparr>)"
    using data_store(1,2)[of ?s2 arena f "arena + 4"] c ar by (simp_all add: given_back_def)
  have w: "(Q(l \<mapsto> xs @ [p])) (sem_waiter (lock_sem (heap_lock s))) = Some []" using r l by (simp add: heap_ready_def)
  have "sys_free p s = lock_release (heap_lock s) (?s2\<lparr>phys := ?ph\<rparr>)"
    using lock_acquire_free[OF heap_ready_free[OF r] rt(1)] a0 a4 n d c(10) unat_block_at(3)[OF c(4-6)]
    unfolding sys_free_def Let_def heap_pool_def[symmetric] heap_lock_def[symmetric]
    by (simp add: p_def[symmetric] l_def[symmetric] list_append_eq arena_cnt_def set_arena_cnt_def)
       (simp add: heap_lock_def)
  also have "\<dots> = Inr (s\<lparr>lheap := ?h, phys := ?ph\<rparr>)" by (rule release_heap[OF r L w])
  finally show ?thesis using that L by blast
qed

section \<open>Properties of the heap\<close>

text \<open>
  C11: the kinds of blocks \<^verbatim>\<open>block_des_init\<close> sets up fit their arenas: a block of any kind
  lies whole in the page of its arena behind the header, \<^verbatim>\<open>block_to_arena\<close> leads from it
  back to the arena \<^verbatim>\<open>arena_to_block\<close> computed it from, and two blocks do not overlap.
\<close>

theorem arena_blocks_disjoint:
  assumes "descs_ok base s" "k < 7" "frame_of arena = arena" "load_word arena s = Inr (desc_addr base (of_nat k))"
    "i < unat (blocks_per_arena (kind k))" "j < unat (blocks_per_arena (kind k))"
  shows "\<exists>b c. arena_to_block arena (of_nat i) s = Inr b \<and> arena_to_block arena (of_nat j) s = Inr c \<and>
     block_to_arena b = arena \<and> unat arena + unat SIZEOF_ARENA \<le> unat b \<and>
     unat b + unat (block_size (kind k)) \<le> unat arena + unat PAGE_SIZE \<and>
     (i < j \<longrightarrow> unat b + unat (block_size (kind k)) \<le> unat c)"
proof -
  have "4084 div (2 :: nat) ^ (4 + k) < 2 ^ 32" by (rule le_less_trans[OF div_le_dividend]) simp
  then have n: "unat (blocks_per_arena (kind k)) = 4084 div 2 ^ (4 + k)"
    unfolding kind_def mem_block_desc.simps by (intro unat_of_nat_small) simp
  have z: "unat (block_size (kind k)) = 2 ^ (4 + k)" using kind_sizes(1)[OF assms(2)] by (simp add: kind_def)
  have b: "arena_to_block arena (of_nat m) s = Inr (block_at arena k m)" for m
    using assms(1,2,4) by (simp add: arena_to_block_def descs_ok_def block_at_def SIZEOF_ARENA_def kind_def)
  note i = unat_block_at[OF assms(3,2), of i] and j = unat_block_at(1)[OF assms(3,2), of j]
  have "i * 2 ^ (4 + k) + 2 ^ (4 + k) \<le> j * 2 ^ (4 + k)" if "i < j"
    using mult_right_mono[of "Suc i" j "2 ^ (4 + k)"] that by (simp add: add.commute)
  then show ?thesis using i j assms(5,6) unfolding b n z
    by (intro exI conjI) (auto simp: SIZEOF_ARENA_def PAGE_SIZE_def)
qed

text \<open>The words of the header of an arena and of one of its blocks, before and after the block is taken.\<close>

lemma taken_words:
  assumes "frame_of arena = arena" "k < 7" "j < 4084 div 2 ^ (4 + k)"
  shows "frame_of (arena + 4) = frame_of arena"
    "i < 2 ^ (2 + k) \<Longrightarrow> frame_of (block_at arena k j + 4 * of_nat i) = arena"
    "taken k arena j f ph (word_at f (arena + 4)) = ph (word_at f (arena + 4)) - 1"
    "taken k arena j f ph (word_at f arena) = ph (word_at f arena)"
    "i < 2 ^ (2 + k) \<Longrightarrow> taken k arena j f ph (word_at f (block_at arena k j + 4 * of_nat i)) = 0"
    "frame_of a \<noteq> frame_of f \<Longrightarrow> taken k arena j f ph a = ph a"
proof -
  let ?p = "block_at arena k j"
  show ar: "frame_of (arena + 4) = frame_of arena" using header_word[OF assms(1), of 4] assms(1) by simp
  have ne: "word_at f arena \<noteq> word_at f (arena + 4)" using word_at_inj[of arena "arena + 4" f] ar by auto
  have bw: "frame_of (?p + 4 * of_nat i) = arena" "word_at f (arena + 4) \<noteq> word_at f (?p + 4 * of_nat i)"
     "word_at f arena \<noteq> word_at f (?p + 4 * of_nat i)" if "i < 2 ^ (2 + k)" for i
    using block_words[OF assms that] word_at_inj[of "arena + 4" "?p + 4 * of_nat i" f] word_at_inj[of arena "?p + 4 * of_nat i" f] ar assms(1)
    by auto
  show "i < 2 ^ (2 + k) \<Longrightarrow> frame_of (?p + 4 * of_nat i) = arena" by (rule bw(1))
  show "taken k arena j f ph (word_at f (arena + 4)) = ph (word_at f (arena + 4)) - 1" "taken k arena j f ph (word_at f arena) = ph (word_at f arena)"
    using bw ne by (auto simp: taken_def)
  show "taken k arena j f ph (word_at f (?p + 4 * of_nat i)) = 0" if "i < 2 ^ (2 + k)"
    using that bw(2)[OF that, symmetric] by (auto simp: taken_def)
  show "frame_of a \<noteq> frame_of f \<Longrightarrow> taken k arena j f ph a = ph a" by (auto simp: taken_def)
qed

lemma given_back_cnt:
  assumes "tables_wf t" "data_page arena f t" "frame_of (arena + 4) = frame_of arena"
  shows "arena_cnt arena (t\<lparr>lheap := h, phys := given_back arena f (phys t)\<rparr>) = Inr (phys t (word_at f (arena + 4)) + 1)"
proof -
  let ?v = "t\<lparr>phys := given_back arena f (phys t)\<rparr>" and ?u = "t\<lparr>lheap := h, phys := given_back arena f (phys t)\<rparr>"
  have "data_step t ?v" using data_store(3)[OF assms] by (simp add: given_back_def)
  then have v: "tables_wf ?v" "data_page arena f ?v" using data_page_step[of t ?v] assms(2) by (simp_all add: data_step_def)
  have "?u = ?v\<lparr>lheap := h\<rparr>" by (cases t) simp
  then have "tables_wf ?u" "data_page arena f ?u" using v by (simp_all only: lheap_memory)
  then show ?thesis using data_store(2)[OF _ _ assms(3), of ?u f] by (simp add: arena_cnt_def given_back_def)
qed

text \<open>
  C10: a request of at most 1024 bytes, when the free list of the smallest kind of block that holds it
  is not empty, is given the first block of the list, which leaves the list; every word of
  the block is 0, the header counts one free block less, and no word outside of the arena has changed.
  \<^verbatim>\<open>sys_free\<close> of the block, as long as another block of the arena is in use, puts it at the
  end of the list and the count back to what it was. Both leave the lock of the pool as
  they found it, and no list but this one changes.
\<close>

theorem malloc_free_block:
  fixes Q :: "u32 \<rightharpoonup> u32 list"
  assumes "heap_ready Q s" "free_block (heap_descs s) k arena j f xs Q s"
    "unat sz \<le> 2 ^ (4 + k)" "\<forall>i < k. 2 ^ (4 + i) < unat sz"
    "load_word arena s = Inr (desc_addr (heap_descs s) (of_nat k))" "desc_addr (heap_descs s) (of_nat k) \<noteq> 0"
    "arena_cnt arena s = Inr n" "n \<noteq> blocks_per_arena (kind k)"
    "free_list (desc_addr (heap_descs s) (of_nat k)) \<noteq> sem_waiter (lock_sem (heap_lock s))"
  shows "\<exists>p t u. sys_malloc sz s = Inr (p, t) \<and> p = block_at arena k j \<and>
     lists_at (lheap t) (Q(free_list (desc_addr (heap_descs s) (of_nat k)) \<mapsto> xs)) \<and>
     (\<forall>i < 2 ^ (2 + k). load_word (p + 4 * of_nat i) t = Inr 0) \<and> arena_cnt arena t = Inr (n - 1) \<and>
     (\<forall>a. frame_of a \<noteq> frame_of f \<longrightarrow> phys t a = phys s a) \<and> locks t = locks s \<and>
     sys_free p t = Inr u \<and>
     lists_at (lheap u) (Q(free_list (desc_addr (heap_descs s) (of_nat k)) \<mapsto> xs @ [p])) \<and>
     arena_cnt arena u = Inr n \<and> u = s\<lparr>lheap := lheap u, phys := phys u\<rparr>"
proof -
  let ?d = "desc_addr (heap_descs s) (of_nat k)"
  let ?Q = "Q(free_list ?d \<mapsto> xs)" and ?ph = "taken k arena j f (phys s)"
  let ?p = "block_at arena k j"
  have c: "descs_ok (heap_descs s) s" "tables_wf s" "data_page arena f s" "frame_of arena = arena" "k < 7" "j < 4084 div 2 ^ (4 + k)"
    using assms(2) by (simp_all add: free_block_def)
  note tw = taken_words[OF c(4-6)]
  obtain h where h: "sys_malloc sz s = Inr (?p, s\<lparr>lheap := h, phys := ?ph\<rparr>)" "lists_at h ?Q"
      "data_step s (s\<lparr>phys := ?ph\<rparr>)" "unlinked ?p ?Q"
    by (rule sys_malloc_pops[OF assms(1-4,9)])
  let ?t = "s\<lparr>lheap := h, phys := ?ph\<rparr>"
  have t_eq: "?t = s\<lparr>phys := ?ph\<rparr>\<lparr>lheap := h\<rparr>" by (cases s) simp
  have t: "tables_wf ?t" "data_page arena f ?t" unfolding t_eq lheap_memory
    using h(3) data_page_step[OF h(3)] c(3) by (simp_all add: data_step_def)
  have n: "phys s (word_at f (arena + 4)) = n" "phys s (word_at f arena) = ?d"
    using data_store(2)[OF c(2,3) tw(1)] data_store(2)[OF c(2,3), of arena] assms(5,7) by (simp_all add: arena_cnt_def)
  have z: "load_word (?p + 4 * of_nat i) ?t = Inr 0" if "i < 2 ^ (2 + k)" for i
    using data_store(2)[OF t, of "?p + 4 * of_nat i"] tw(2,5)[OF that] c(4) by simp
  have cnt: "arena_cnt arena ?t = Inr (n - 1)" using data_store(2)[OF t tw(1)] tw(3) n(1) by (simp add: arena_cnt_def)
  have r: "heap_ready ?Q ?t" using assms(1,9) h(2) by (auto simp: heap_ready_def)
  have u: "used_block (heap_descs s) k arena j f xs ?Q ?t"
    using c t h(4) tw(4) n(2) assms(6) by (simp add: used_block_def descs_ok_def)
  have l: "free_list ?d \<noteq> sem_waiter (lock_sem (heap_lock ?t))" using assms(9) by simp
  have nb: "phys ?t (word_at f (arena + 4)) + 1 \<noteq> blocks_per_arena (kind k)" using tw(3) n(1) assms(8) by simp
  obtain h' where h1: "sys_free ?p ?t = Inr (?t\<lparr>lheap := h', phys := given_back arena f (phys ?t)\<rparr>)"
      "lists_at h' (?Q(free_list ?d \<mapsto> xs @ [?p]))"
    by (rule sys_free_appends[OF r u nb l])
  let ?u = "s\<lparr>lheap := h', phys := given_back arena f ?ph\<rparr>"
  have u_eq: "?t\<lparr>lheap := h', phys := given_back arena f (phys ?t)\<rparr> = ?u" by simp
  have cu: "arena_cnt arena ?u = Inr n" using given_back_cnt[OF t tw(1), of h'] tw(3) n(1) unfolding u_eq by simp
  show ?thesis using h(1,2) z cnt tw(6)[of _ f "phys s"] h1[unfolded u_eq] cu
    by (intro exI[of _ ?p] exI[of _ ?t] exI[of _ ?u]) simp
qed

section \<open>Witnesses\<close>

text \<open>
  One arena of 64-byte blocks at 0xc0100000, in the frame 0x200000: the first block is on the free
  list, some of the others are in use. The kernel's descriptors are at 0xc0006000.
\<close>

definition heap_sample_list :: u32 where "heap_sample_list = 0xc0006038"
definition heap_sample_waiters :: u32 where "heap_sample_waiters = 0xc0008108"

definition heap_sample :: "unit heap_state_scheme" where
  "heap_sample = console_state.extend (console_state.truncate console_sample) \<lparr>k_mem_block_descs = 0xc0006000\<rparr>\<lparr>
     lheap := insert_heap (tail_of heap_sample_list) 0xc010000c
        (empty_list_nodes heap_sample_list (empty_list_nodes heap_sample_waiters (\<lambda>_. \<lparr>l_prev = 0, l_next = 0\<rparr>))),
     phys := (phys (mem_sample 0x200007))(0x200000 := 0xc0006030, 0x200004 := 9),
     kernel_pool := kernel_pool (mem_sample 0),
     block_descs := (\<lambda>d. if d = 0xc0006000 then kind 0 else if d = 0xc0006018 then kind 1 else
       if d = 0xc0006030 then kind 2 else if d = 0xc0006048 then kind 3 else if d = 0xc0006060 then kind 4 else
       if d = 0xc0006078 then kind 5 else kind 6)\<rparr>"

definition heap_sample_lists :: "u32 \<rightharpoonup> u32 list" where
  "heap_sample_lists = [heap_sample_list \<mapsto> [0xc010000c], heap_sample_waiters \<mapsto> []]"

lemma heap_sample_fields:
  "running_thread heap_sample = 0xc009e000" "k_mem_block_descs heap_sample = 0xc0006000"
  "pgdir (pcbs heap_sample 0xc009e000) = 0" "pool_lock (kernel_pool heap_sample) = 0xc0008100"
  "locks heap_sample l = \<lparr>holder = 0, holder_repeat_num = 0\<rparr>" "sem_value heap_sample l = 1"
  by (simp_all add: heap_sample_def console_state.defs console_sample_def kbd_sample_def kbd_state.defs ioq_state.defs ioq_sample_defs
     running_thread_def mem_sample_def sample_pcb_def)

lemma heap_sample_at: "lists_at (lheap heap_sample) heap_sample_lists"
proof -
  let ?h = "empty_list_nodes heap_sample_list (empty_list_nodes heap_sample_waiters (\<lambda>_. \<lparr>l_prev = 0, l_next = 0\<rparr>))"
  let ?Q = "[heap_sample_list \<mapsto> [], heap_sample_waiters \<mapsto> [] :: u32 list]"
  have "lists_at ?h ?Q"
    by (auto simp: lists_at_def list_at_def nodes_def head_of_def tail_of_def empty_list_nodes_def heap_sample_list_def
       heap_sample_waiters_def split: if_splits)
  moreover have "?Q heap_sample_list = Some []" by (simp add: heap_sample_list_def heap_sample_waiters_def)
  moreover have "unlinked 0xc010000c ?Q"
    by (auto simp: unlinked_def nodes_def head_of_def tail_of_def heap_sample_list_def heap_sample_waiters_def split: if_splits)
  ultimately have "lists_at (insert_heap (tail_of heap_sample_list) 0xc010000c ?h) (?Q(heap_sample_list \<mapsto> [] @ [0xc010000c]))"
    by (rule lists_at_append)
  moreover have "?Q(heap_sample_list \<mapsto> [] @ [0xc010000c]) = heap_sample_lists"
    by (auto simp: heap_sample_lists_def heap_sample_list_def heap_sample_waiters_def fun_eq_iff)
  ultimately show ?thesis by (simp add: heap_sample_def)
qed

lemma memory_cong:
  assumes "phys t = phys s" "cr3 t = cr3 s" "kernel_pool t = kernel_pool s"
  shows "translate w t = translate w s" "tables_wf t = tables_wf s" "data_page v f t = data_page v f s"
  by (simp_all add: assms translate_def pde_of_def pte_of_def tables_wf_def self_mapped_def data_page_def maps_page_def table_frames_def)

lemma heap_sample_tables: "tables_wf heap_sample" "data_page 0xc0100000 0x200000 heap_sample"
proof -
  let ?m = "mem_sample 0x200007"
  let ?m1 = "?m\<lparr>phys := (phys ?m)(0x200000 := 0xc0006030)\<rparr>"
  let ?m2 = "?m1\<lparr>phys := (phys ?m1)(0x200004 := 9)\<rparr>"
  have fr: "frame_of 0x200000 = 0x200000" "frame_of 0x200004 = 0x200000" "frame_of 0xc0100000 = 0xc0100000" by (simp_all add: frame_of_def)
  have nt: "0x200000 \<notin> table_frames ?m" using sample_tables(2)[of "0x200007"] by auto
  have d1: "data_step ?m ?m1" using nt fr by (intro data_word sample_tables) simp
  then have "table_frames ?m1 = table_frames ?m" using table_frames_same_dir[of ?m ?m1] by (simp add: data_step_def)
  then have d2: "data_step ?m1 ?m2" using d1 nt fr by (intro data_word) (simp_all add: data_step_def)
  have st: "data_step ?m ?m2" by (rule data_step_trans[OF d1 d2])
  have "translate w ?m = Inr (frame_of 0x200000 OR w AND 0xfff)" if "frame_of w = 0xc0100000" for w
  proof -
    have ix: "pd_index w = 0x300" "pt_index w = 0x100"
    proof -
      have "pd_index w = pd_index (frame_of w)" "pt_index w = pt_index (frame_of w)"
        unfolding addr_bits by (rule bit_word_eqI; auto simp only: bit_simps bit_consts o_def; auto dest: bit_imp_le_length)+
      then show "pd_index w = 0x300" "pt_index w = 0x100" using that by (simp_all add: pd_index_def pt_index_def)
    qed
    then have "pde_of w ?m = 0x101007" "pte_of w ?m = 0x200007"
      using sample_frames by (simp_all add: pte_of_def pde_of_def mem_sample_defs entry_eq)
    moreover have "bit (0x101007 :: u32) 0" "bit (0x200007 :: u32) 0" by (simp_all add: bit_0)
    ultimately show ?thesis by (simp add: translate_def frame_of_def)
  qed
  then have "data_page 0xc0100000 0x200000 ?m" using nt fr by (simp add: data_page_def maps_page_def)
  then have m2: "tables_wf ?m2" "data_page 0xc0100000 0x200000 ?m2" using st data_page_step[OF st] by (simp_all add: data_step_def)
  have p: "phys heap_sample = phys ?m2" "cr3 heap_sample = cr3 ?m2" "kernel_pool heap_sample = kernel_pool ?m2"
    by (simp_all add: heap_sample_def mem_sample_defs console_state.defs console_sample_def kbd_sample_def kbd_state.defs
        ioq_state.defs ioq_sample_defs)
  show "tables_wf heap_sample" "data_page 0xc0100000 0x200000 heap_sample"
    using m2 memory_cong[OF p] by (simp_all only:)
qed

lemma heap_sample_heap: "heap_descs heap_sample = 0xc0006000" "heap_pool heap_sample = PF_KERNEL" "heap_lock heap_sample = 0xc0008100"
  by (simp_all add: heap_descs_def heap_pool_def heap_lock_def the_pool_def heap_sample_fields)

lemma heap_sample_ready: "heap_ready heap_sample_lists heap_sample"
  using heap_sample_at heap_sample_heap(3) heap_sample_fields
  by (simp add: heap_ready_def sem_waiter_def lock_sem_def heap_sample_lists_def heap_sample_waiters_def)

lemma heap_sample_descs: "descs_ok 0xc0006000 heap_sample"
  by (simp add: descs_ok_def less_7 desc_addr_def SIZEOF_MEM_BLOCK_DESC_def heap_sample_def)

lemma heap_sample_header: "load_word 0xc0100000 heap_sample = Inr 0xc0006030" "arena_cnt 0xc0100000 heap_sample = Inr 9"
proof -
  have f: "frame_of 0xc0100000 = frame_of 0xc0100000" "frame_of 0xc0100004 = frame_of 0xc0100000" by (simp_all add: frame_of_def)
  have "word_at 0x200000 0xc0100000 = 0x200000" "word_at 0x200000 0xc0100004 = 0x200004" by (simp_all add: word_at_def frame_of_def)
  then show "load_word 0xc0100000 heap_sample = Inr 0xc0006030" "arena_cnt 0xc0100000 heap_sample = Inr 9"
    using data_store(2)[OF heap_sample_tables] f by (simp_all add: arena_cnt_def) (simp_all add: heap_sample_def)
qed

lemma heap_sample_block: "free_block 0xc0006000 2 0xc0100000 0 0x200000 [] heap_sample_lists heap_sample"
proof -
  have b: "block_at 0xc0100000 2 0 = 0xc010000c" by (simp add: block_at_def)
  have "frame_of 0xc0100000 = 0xc0100000" by (simp add: frame_of_def)
  moreover have "apart 0xc010000c (2 ^ (4 + 2)) heap_sample_lists"
    by (auto simp: apart_def heap_sample_lists_def heap_sample_list_def heap_sample_waiters_def nodes_def head_of_def tail_of_def split: if_splits)
  ultimately show ?thesis using heap_sample_tables heap_sample_at heap_sample_descs
    by (simp add: free_block_def b free_list_def desc_addr_def SIZEOF_MEM_BLOCK_DESC_def)
      (simp add: heap_sample_lists_def heap_sample_list_def heap_sample_waiters_def)
qed

theorem arena_blocks_disjoint_witness:
  "\<exists>b c. arena_to_block 0xc0100000 (of_nat 5) heap_sample = Inr b \<and> arena_to_block 0xc0100000 (of_nat 6) heap_sample = Inr c \<and>
     block_to_arena b = 0xc0100000 \<and> unat b + 64 \<le> unat c"
  using arena_blocks_disjoint[OF heap_sample_descs, of 2 "0xc0100000" 5 6] heap_sample_header(1)
  by (simp add: desc_addr_def SIZEOF_MEM_BLOCK_DESC_def kinds frame_of_def) blast

theorem malloc_free_block_witness:
  "\<exists>t u. sys_malloc 50 heap_sample = Inr (0xc010000c, t) \<and> arena_cnt 0xc0100000 t = Inr 8 \<and>
     sys_free 0xc010000c t = Inr u \<and> arena_cnt 0xc0100000 u = Inr 9"
proof -
  have i: "(\<forall>i < 2. P i) \<longleftrightarrow> P 0 \<and> P (1 :: nat)" for P by (auto simp: less_2_cases_iff)
  have b: "block_at 0xc0100000 2 0 = 0xc010000c" by (simp add: block_at_def)
  have "n \<noteq> blocks_per_arena (kind 2)" if "n = 9" for n using that by (simp add: kinds)
  then show ?thesis
    using malloc_free_block[OF heap_sample_ready, unfolded heap_sample_heap, OF heap_sample_block, of 50 9] heap_sample_header
    unfolding i b by (simp add: desc_addr_def SIZEOF_MEM_BLOCK_DESC_def free_list_def sem_waiter_def lock_sem_def) blast
qed
end
