(* ===== verification/Process.thy ===== *)
theory Process
  imports Heap
begin

text \<open>
  New threads and user processes: the rest of \<^verbatim>\<open>thread/thread.c\<close>, and
  \<^verbatim>\<open>userprog/process.c\<close>, \<^verbatim>\<open>userprog/tss.c\<close>.

  A control block is cleared as a record, together with the nodes and descriptors that lie in it.
  The addresses of \<^verbatim>\<open>idle\<close> and \<^verbatim>\<open>start_process\<close>, which the linker chooses, are
  fields of the state that no routine changes. The descriptors of the GDT are a store by address.

  Shown: a thread that is started is ready, on both lists, with a fresh number and the stack that leads
  to its function; a new page directory gives its process the mappings of the kernel and no
  other; a segment descriptor gives back the values it was made from.
\<close>

section \<open>Data\<close>

record gdt_desc =
  limit_low_word :: u16
  base_low_word :: u16
  base_mid_byte :: u8
  attr_low_byte :: u8
  limit_high_attr_high :: u8
  base_high_byte :: u8

text \<open>The fields of \<^verbatim>\<open>struct tss\<close> but for \<^verbatim>\<open>esp0\<close>, which is \<open>tss_esp0\<close>.\<close>

record tss_struct =
  t_backlink :: u32
  t_ss0 :: u32
  t_esp1 :: u32
  t_ss1 :: u32
  t_esp2 :: u32
  t_ss2 :: u32
  t_cr3 :: u32
  t_eip :: u32
  t_eflags :: u32
  t_eax :: u32
  t_ecx :: u32
  t_edx :: u32
  t_ebx :: u32
  t_esp :: u32
  t_ebp :: u32
  t_esi :: u32
  t_edi :: u32
  t_es :: u32
  t_cs :: u32
  t_ss :: u32
  t_ds :: u32
  t_fs :: u32
  t_gs :: u32
  t_ldt :: u32
  t_trace :: u32
  t_io_base :: u32

record proc_state = heap_state +
  idle_p :: u32
  start_process_p :: u32
  tss_addr :: u32
  tss :: tss_struct
  gdt :: "u32 \<Rightarrow> gdt_desc"
  gdtr :: "64 word"
  task_register :: u16

section \<open>New threads\<close>

definition SIZEOF_PCB :: u32 where "SIZEOF_PCB = 272"
definition MAX_FILES_OPEN_PER_PROC :: nat where "MAX_FILES_OPEN_PER_PROC = 8"

definition zero_pcb :: pcb_struct where
  "zero_pcb = \<lparr>self_kernel_stack = 0, status = TASK_RUNNING, priority = 0, pid = 0, pcb_name = replicate 16 0,
     pcb_ticks = 0, elapsed_ticks = 0, fd_table = replicate MAX_FILES_OPEN_PER_PROC 0, pgdir = 0,
     userprog_vaddr = \<lparr>vaddr_bitmap = \<lparr>bitmap_len = 0, bits = []\<rparr>, vaddr_start = 0\<rparr>, stack_magic = 0\<rparr>"

text \<open>\<^verbatim>\<open>memset\<close> of a control block: the record, the nodes and the descriptors in it.\<close>

definition clear_pcb :: "u32 \<Rightarrow> 'a thread_state_scheme \<Rightarrow> error + 'a thread_state_scheme" where
  "clear_pcb pcb_ptr s =
     bnd (ASSERT (pcb_ptr \<noteq> 0) ''dst != 0'') (\<lambda>_.
     Inr (s\<lparr>pcbs := (pcbs s)(pcb_ptr := zero_pcb), lheap := zero_nodes pcb_ptr SIZEOF_PCB (lheap s),
       block_descs := (\<lambda>d. if d - pcb_ptr < SIZEOF_PCB then \<lparr>block_size = 0, blocks_per_arena = 0\<rparr> else block_descs s d)\<rparr>))"

definition allocate_next_pid :: "'a thread_state_scheme \<Rightarrow> error + (u16 \<times> 'a thread_state_scheme)" where
  "allocate_next_pid s =
     bnd (lock_acquire_now (pid_lock s) s) (\<lambda>s.
     let s = s\<lparr>next_pid := next_pid s + 1\<rparr> in
     bnd (lock_release (pid_lock s) s) (\<lambda>s. Inr (next_pid s, s)))"

definition thread_init :: "u32 \<Rightarrow> u32 \<Rightarrow> u8 list \<Rightarrow> 'a thread_state_scheme \<Rightarrow> error + 'a thread_state_scheme" where
  "thread_init pcb_ptr prio name s =
     bnd (clear_pcb pcb_ptr s) (\<lambda>s.
     bnd (strcpy (Some (pcb_name (pcbs s pcb_ptr), 0)) (Some (name, 0))) (\<lambda>nm.
     let s = upd_pcb pcb_ptr (\<lambda>p. p\<lparr>pcb_name := nm\<rparr>) s;
         s = upd_pcb pcb_ptr (\<lambda>p. p\<lparr>status := (if pcb_ptr = main_thread_pcb_ptr s then TASK_RUNNING else TASK_READY)\<rparr>) s
     in bnd (allocate_next_pid s) (\<lambda>(next, s).
        let s = upd_pcb pcb_ptr (\<lambda>p. p\<lparr>pid := next, priority := ucast prio, elapsed_ticks := 0, pcb_ticks := ucast prio, pgdir := 0\<rparr>) s;
            s = upd_pcb pcb_ptr (\<lambda>p. p\<lparr>fd_table := [0, 1, 2] @ replicate (MAX_FILES_OPEN_PER_PROC - 3) (-1)\<rparr>) s
        in Inr (upd_pcb pcb_ptr (\<lambda>p. p\<lparr>stack_magic := 0x00007c00, self_kernel_stack := pcb_ptr + 4096\<rparr>) s))))"

text \<open>The two list entries a new thread or process gets.\<close>

definition enlist :: "string \<Rightarrow> string \<Rightarrow> u32 \<Rightarrow> 'a thread_state_scheme \<Rightarrow> error + 'a thread_state_scheme" where
  "enlist m1 m2 pcb_ptr s =
     bnd (elem_find (ready_thread_list s) (general_tag pcb_ptr) s) (\<lambda>found.
     bnd (ASSERT (\<not> found) m1) (\<lambda>_.
     let s = list_append (ready_thread_list s) (general_tag pcb_ptr) s in
     bnd (elem_find (all_thread_list s) (all_list_tag pcb_ptr) s) (\<lambda>found.
     bnd (ASSERT (\<not> found) m2) (\<lambda>_.
     Inr (list_append (all_thread_list s) (all_list_tag pcb_ptr) s)))))"

definition thread_start :: "u32 \<Rightarrow> u32 \<Rightarrow> u8 list \<Rightarrow> u32 \<Rightarrow> 'a thread_state_scheme \<Rightarrow> error + (u32 \<times> 'a thread_state_scheme)" where
  "thread_start func func_args name prio s =
     bnd (malloc_kernel_pages 1 s) (\<lambda>(pcb_ptr, s).
     bnd (thread_init pcb_ptr prio name s) (\<lambda>s.
     let s = thread_create pcb_ptr func func_args s in
     bnd (enlist ''!(elem_find(&ready_thread_list, &(pcb_ptr->general_tag)))''
       ''!(elem_find(&all_thread_list, &(pcb_ptr->all_list_tag)))'' pcb_ptr s) (\<lambda>s. Inr (pcb_ptr, s))))"

definition c_string :: "string \<Rightarrow> u8 list" where
  "c_string cs = map (\<lambda>c. of_nat (of_char c)) cs @ [0]"

definition make_main_thread :: "'a thread_state_scheme \<Rightarrow> error + 'a thread_state_scheme" where
  "make_main_thread s =
     (let s = s\<lparr>main_thread_pcb_ptr := running_thread s\<rparr> in
      bnd (thread_init (main_thread_pcb_ptr s) 31 (c_string ''main'') s) (\<lambda>s.
      bnd (elem_find (all_thread_list s) (all_list_tag (main_thread_pcb_ptr s)) s) (\<lambda>found.
      bnd (ASSERT (\<not> found) ''!(elem_find(&all_thread_list, &(main_thread_pcb_ptr->all_list_tag)))'') (\<lambda>_.
      Inr (list_append (all_thread_list s) (all_list_tag (main_thread_pcb_ptr s)) s)))))"

definition system_thread_init :: "'a proc_state_scheme \<Rightarrow> error + 'a proc_state_scheme" where
  "system_thread_init s =
     (let s = putStr ''thread_init start\<newline>'' s;
          s = list_init (all_thread_list s) s;
          s = list_init (ready_thread_list s) s;
          s = lock_init (pid_lock s) s
      in bnd (make_main_thread s) (\<lambda>s.
         bnd (thread_start (idle_p s) 0 (c_string ''idle'') 10 s) (\<lambda>(t, s).
         Inr (putStr ''thread_init done\<newline>'' (s\<lparr>idle_thread := t\<rparr>)))))"

section \<open>User processes\<close>

definition USER_STACK3_VADDR :: u32 where "USER_STACK3_VADDR = 0xc0000000 - 0x1000"
definition USER_PROG_START_VADDR :: u32 where "USER_PROG_START_VADDR = 0x8048000"
definition DIV_ROUND_UP :: "u32 \<Rightarrow> u32 \<Rightarrow> u32" where "DIV_ROUND_UP X STEP = (X + STEP - 1) div STEP"

fun copy_words :: "u32 \<Rightarrow> u32 \<Rightarrow> nat \<Rightarrow> 'a mem_state_scheme \<Rightarrow> error + 'a mem_state_scheme" where
  "copy_words dst src 0 s = Inr s"
| "copy_words dst src (Suc n) s =
     bnd (load_word src s) (\<lambda>w. bnd (store_word dst w s) (\<lambda>s. copy_words (dst + 4) (src + 4) n s))"

definition create_page_dir :: "'a thread_state_scheme \<Rightarrow> error + (u32 \<times> 'a thread_state_scheme)" where
  "create_page_dir s =
     bnd (malloc_kernel_pages 1 s) (\<lambda>(page_dir_vaddr, s).
     if page_dir_vaddr = 0 then Inr (0, putStr ''create page dir error ! \<newline>'' s)
     else bnd (copy_words (page_dir_vaddr + 0x300 * 4) (0xfffff000 + 0x300 * 4) (1024 div 4) s) (\<lambda>s.
          bnd (addr_virtual_to_phy page_dir_vaddr s) (\<lambda>f.
          bnd (store_word (page_dir_vaddr + 4 * 1023) (f OR PG_US_U OR PG_RW_W OR PG_P_1) s) (\<lambda>s.
          Inr (page_dir_vaddr, s)))))"

text \<open>The pages \<^verbatim>\<open>malloc_kernel_pages\<close> gives for the bitmap are the cleared bytes of the object.\<close>

definition create_user_vaddr_bitmap :: "u32 \<Rightarrow> 'a thread_state_scheme \<Rightarrow> error + 'a thread_state_scheme" where
  "create_user_vaddr_bitmap user_prog s =
     (let s = upd_pcb user_prog (\<lambda>p. p\<lparr>userprog_vaddr := (userprog_vaddr p)\<lparr>vaddr_start := USER_PROG_START_VADDR\<rparr>\<rparr>) s;
          len = (0xc0000000 - USER_PROG_START_VADDR) div PAGE_SIZE div 8;
          bit_cnts = DIV_ROUND_UP ((0xc0000000 - USER_PROG_START_VADDR) div PAGE_SIZE div 8) PAGE_SIZE
      in bnd (malloc_kernel_pages bit_cnts s) (\<lambda>(bits_addr, s).
         bnd (ASSERT (bits_addr \<noteq> 0) ''dst != 0'') (\<lambda>_.
         bnd (bitmap_init \<lparr>bitmap_len = len, bits = replicate (unat (bit_cnts * PAGE_SIZE)) 0\<rparr>) (\<lambda>b.
         Inr (upd_pcb user_prog (\<lambda>p. p\<lparr>userprog_vaddr := (userprog_vaddr p)\<lparr>vaddr_bitmap := b\<rparr>\<rparr>) s)))))"

definition process_execute :: "u32 \<Rightarrow> u8 list \<Rightarrow> 'a proc_state_scheme \<Rightarrow> error + 'a proc_state_scheme" where
  "process_execute filename name s =
     bnd (malloc_kernel_pages 1 s) (\<lambda>(process, s).
     let s = (if process = 0 then putStr ''malloc_kernel_pages error'' s else s) in
     bnd (thread_init process 31 name s) (\<lambda>s.
     bnd (create_user_vaddr_bitmap process s) (\<lambda>s.
     let s = thread_create process (start_process_p s) filename s in
     bnd (create_page_dir s) (\<lambda>(dir, s).
     let s = upd_pcb process (\<lambda>p. p\<lparr>pgdir := dir\<rparr>) s;
         s = block_des_init (u_mem_block_desc process) s;
         (old_status, s) = intr_disable s
     in bnd (enlist ''!elem_find(&ready_thread_list, &(process->general_tag))''
          ''!elem_find(&all_thread_list, &(process->all_list_tag))'' process s) (\<lambda>s. Inr (snd (intr_set_status old_status s)))))))"

section \<open>Entering user mode\<close>

definition SELECTOR_U_CODE :: u32 where "SELECTOR_U_CODE = push_bit 3 5 + push_bit 2 0 + 3"
definition SELECTOR_U_DATA :: u32 where "SELECTOR_U_DATA = push_bit 3 6 + push_bit 2 0 + 3"
definition EFLAGS_MBS :: u32 where "EFLAGS_MBS = push_bit 1 1"
definition EFLAGS_IF_1 :: u32 where "EFLAGS_IF_1 = push_bit 9 1"
definition EFLAGS_IOPL_0 :: u32 where "EFLAGS_IOPL_0 = push_bit 12 0"

fun store_words :: "u32 \<Rightarrow> (u32 \<times> u32) list \<Rightarrow> 'a mem_state_scheme \<Rightarrow> error + 'a mem_state_scheme" where
  "store_words base [] s = Inr s"
| "store_words base ((ofs, w) # ws) s = bnd (store_word (base + ofs) w s) (\<lambda>s. store_words base ws s)"

text \<open>
  The fields of \<^verbatim>\<open>struct intr_stack\<close> are words at their offsets. The result is the stack
  pointer with which \<^verbatim>\<open>exit_intr\<close> is entered.
\<close>

definition start_process :: "u32 \<Rightarrow> 'a thread_state_scheme \<Rightarrow> error + (u32 \<times> 'a thread_state_scheme)" where
  "start_process filename s =
     (let function = filename;
          pcb = running_thread s;
          intr_stack = self_kernel_stack (pcbs s pcb) + 4 * SIZEOF_THREAD_STACK
      in bnd (store_words intr_stack
           [(28, 0), (24, 0), (20, 0), (32, 0),
            (16, 0), (8, 0), (4, 0), (12, 0),
            (60, SELECTOR_U_CODE), (40, SELECTOR_U_DATA), (48, SELECTOR_U_DATA), (36, 0), (56, function),
            (72, SELECTOR_U_DATA), (44, SELECTOR_U_DATA),
            (64, EFLAGS_IOPL_0 OR EFLAGS_MBS OR EFLAGS_IF_1)] s) (\<lambda>s.
         bnd (get_a_page PF_USER USER_STACK3_VADDR s) (\<lambda>(va, s).
         bnd (store_word (intr_stack + 68) (va + PAGE_SIZE) s) (\<lambda>s.
         Inr (intr_stack + 4, s)))))"

section \<open>Segments\<close>

definition SELECTOR_K_STACK :: u32 where "SELECTOR_K_STACK = push_bit 3 2 + push_bit 2 0 + 0"
definition SELECTOR_TSS :: u16 where "SELECTOR_TSS = push_bit 3 4 + push_bit 2 0 + 0"
definition TSS_ATTR_LOW :: u8 where "TSS_ATTR_LOW = push_bit 7 1 + push_bit 5 0 + push_bit 4 0 + 9"
definition TSS_ATTR_HIGH :: u8 where "TSS_ATTR_HIGH = push_bit 7 1 + push_bit 6 0 + push_bit 5 0 + push_bit 4 0 + 0"
definition GDT_ATTR_HIGH :: u8 where "GDT_ATTR_HIGH = push_bit 7 1 + push_bit 6 1 + push_bit 5 0 + push_bit 4 0"
definition GDT_ATTR_CODE_LOW_DPL_3 :: u8 where "GDT_ATTR_CODE_LOW_DPL_3 = push_bit 7 1 + push_bit 5 3 + push_bit 4 1 + 8"
definition GDT_ATTR_DATA_LOW_DPL_3 :: u8 where "GDT_ATTR_DATA_LOW_DPL_3 = push_bit 7 1 + push_bit 5 3 + push_bit 4 1 + 2"

definition make_gdt_desc :: "u32 \<Rightarrow> u32 \<Rightarrow> u8 \<Rightarrow> u8 \<Rightarrow> gdt_desc" where
  "make_gdt_desc addr limit attr_low attr_high =
     (let base_addr = addr in
      \<lparr>limit_low_word = ucast (limit AND 0x0000ffff),
       base_low_word = ucast (base_addr AND 0x0000ffff),
       base_mid_byte = ucast (drop_bit 16 (base_addr AND 0x00ff0000)),
       attr_low_byte = attr_low,
       limit_high_attr_high = ucast (ucast attr_high + drop_bit 16 (limit AND 0x000f0000)),
       base_high_byte = ucast (drop_bit 24 (base_addr AND 0xff000000))\<rparr>)"

definition zero_tss :: tss_struct where
  "zero_tss = \<lparr>t_backlink = 0, t_ss0 = 0, t_esp1 = 0, t_ss1 = 0, t_esp2 = 0, t_ss2 = 0, t_cr3 = 0, t_eip = 0,
     t_eflags = 0, t_eax = 0, t_ecx = 0, t_edx = 0, t_ebx = 0, t_esp = 0, t_ebp = 0, t_esi = 0, t_edi = 0, t_es = 0,
     t_cs = 0, t_ss = 0, t_ds = 0, t_fs = 0, t_gs = 0, t_ldt = 0, t_trace = 0, t_io_base = 0\<rparr>"

definition tss_init :: "'a proc_state_scheme \<Rightarrow> 'a proc_state_scheme" where
  "tss_init s =
     (let s = putStr ''tss init start \<newline>'' s;
          tss_size = 4 * 27;
          s = s\<lparr>tss := zero_tss, tss_esp0 := 0\<rparr>;
          s = s\<lparr>tss := (tss s)\<lparr>t_ss0 := SELECTOR_K_STACK, t_io_base := tss_size\<rparr>\<rparr>;
          s = s\<lparr>gdt := (gdt s)(0xc0000923 := make_gdt_desc (tss_addr s) (tss_size - 1) TSS_ATTR_LOW TSS_ATTR_HIGH)\<rparr>;
          s = s\<lparr>gdt := (gdt s)(0xc000092b := make_gdt_desc 0 0xfffff GDT_ATTR_CODE_LOW_DPL_3 GDT_ATTR_HIGH)\<rparr>;
          s = s\<lparr>gdt := (gdt s)(0xc0000933 := make_gdt_desc 0 0xfffff GDT_ATTR_DATA_LOW_DPL_3 GDT_ATTR_HIGH)\<rparr>;
          s = s\<lparr>gdtr := push_bit 16 0xc0000903 OR (8 * 7 - 1)\<rparr>;
          s = s\<lparr>task_register := SELECTOR_TSS\<rparr>
      in putStr ''tss init done \<newline>'' s)"

section \<open>What the processor reads from a descriptor\<close>

definition desc_base :: "gdt_desc \<Rightarrow> u32" where
  "desc_base d = push_bit 24 (ucast (base_high_byte d)) OR push_bit 16 (ucast (base_mid_byte d)) OR ucast (base_low_word d)"

definition desc_limit :: "gdt_desc \<Rightarrow> u32" where
  "desc_limit d = push_bit 16 (ucast (limit_high_attr_high d AND 0xf)) OR ucast (limit_low_word d)"

definition desc_flags :: "gdt_desc \<Rightarrow> u8" where
  "desc_flags d = limit_high_attr_high d AND 0xf0"

lemma bit_byte_consts:
  "bit (0xf :: u8) n \<longleftrightarrow> n < 4" "bit (0xf0 :: u8) n \<longleftrightarrow> 4 \<le> n \<and> n < 8"
  "bit (0xffff :: u32) n \<longleftrightarrow> n < 16" "bit (0xff0000 :: u32) n \<longleftrightarrow> 16 \<le> n \<and> n < 24"
  "bit (0xf0000 :: u32) n \<longleftrightarrow> 16 \<le> n \<and> n < 20" "bit (0xff000000 :: u32) n \<longleftrightarrow> 24 \<le> n \<and> n < 32"
proof -
  have "(0xf :: u8) = mask 4" "(0xf0 :: u8) = push_bit 4 (mask 4)" "(0xffff :: u32) = mask 16" "(0xff0000 :: u32) = push_bit 16 (mask 8)"
    "(0xf0000 :: u32) = push_bit 16 (mask 4)" "(0xff000000 :: u32) = push_bit 24 (mask 8)"
    by (simp_all add: mask_eq_exp_minus_1 push_bit_eq_mult)
  then show "bit (0xf :: u8) n \<longleftrightarrow> n < 4" "bit (0xf0 :: u8) n \<longleftrightarrow> 4 \<le> n \<and> n < 8"
    "bit (0xffff :: u32) n \<longleftrightarrow> n < 16" "bit (0xff0000 :: u32) n \<longleftrightarrow> 16 \<le> n \<and> n < 24"
    "bit (0xf0000 :: u32) n \<longleftrightarrow> 16 \<le> n \<and> n < 20" "bit (0xff000000 :: u32) n \<longleftrightarrow> 24 \<le> n \<and> n < 32"
    by (simp_all only: bit_simps) auto
qed

lemma make_gdt_desc_round_trip:
  assumes "attr_high AND 0xf = 0" "limit < 0x100000"
  shows "desc_base (make_gdt_desc addr limit attr_low attr_high) = addr"
    "desc_limit (make_gdt_desc addr limit attr_low attr_high) = limit"
    "desc_flags (make_gdt_desc addr limit attr_low attr_high) = attr_high"
    "attr_low_byte (make_gdt_desc addr limit attr_low attr_high) = attr_low"
proof -
  show "desc_base (make_gdt_desc addr limit attr_low attr_high) = addr"
    unfolding desc_base_def make_gdt_desc_def Let_def gdt_desc.simps
    by (rule bit_word_eqI) (auto simp only: bit_simps bit_byte_consts o_def; auto simp: not_less; metis le_add_diff_inverse not_le)
  have low: "\<not> bit attr_high n" if "n < 4" for n
    using assms(1) that by (metis bit_and_iff bit_byte_consts(1) bit_0_eq bot_apply bot_bool_def)
  have "limit = take_bit 20 limit" using assms(2) by (simp add: take_bit_eq_mod word_less_nat_alt word_unat_eq_iff unat_mod)
  then have high: "n < 20" if "bit limit n" for n using that by (metis bit_take_bit_iff)
  let ?c = "ucast attr_high + drop_bit 16 (limit AND 0xf0000) :: u32"
  have c: "?c = ucast attr_high OR drop_bit 16 (limit AND 0xf0000)"
    by (rule disjunctive_add) (simp only: bit_simps bit_byte_consts o_def; use low in fastforce)
  show "desc_limit (make_gdt_desc addr limit attr_low attr_high) = limit"
    unfolding desc_limit_def make_gdt_desc_def Let_def gdt_desc.simps c
    by (rule bit_word_eqI) (auto simp only: bit_simps bit_byte_consts o_def; (auto dest: low high)?; (frule high; auto dest: low)?)
  show "desc_flags (make_gdt_desc addr limit attr_low attr_high) = attr_high"
    unfolding desc_flags_def make_gdt_desc_def Let_def gdt_desc.simps c
    by (rule bit_word_eqI) (auto simp only: bit_simps bit_byte_consts o_def; auto dest: low; use low in \<open>force simp: not_le[symmetric]\<close>)
qed (simp add: make_gdt_desc_def Let_def)

text \<open>The descriptor a selector leads to through the register of the table.\<close>

definition segment :: "u16 \<Rightarrow> 'a proc_state_scheme \<Rightarrow> gdt_desc" where
  "segment sel s = gdt s (ucast (drop_bit 16 (gdtr s)) + ucast (sel AND 0xfff8))"

definition in_table :: "u16 \<Rightarrow> 'a proc_state_scheme \<Rightarrow> bool" where
  "in_table sel s \<longleftrightarrow> unat (sel AND 0xfff8) + 7 \<le> unat (ucast (gdtr s) :: u16)"


section \<open>A cleared page of the kernel\<close>

definition kernel_room :: "'a thread_state_scheme \<Rightarrow> bool" where
  "kernel_room s \<longleftrightarrow> tables_wf s \<and> vaddrs_ok PF_KERNEL s \<and> 1 \<le> card (free_frames (kernel_pool s)) \<and>
     (\<exists>r < nbits (vaddr_bitmap (kernel_vaddr s)). \<not> used (vaddr_bitmap (kernel_vaddr s)) r)"

definition cleared_page :: "u32 \<Rightarrow> u32 \<Rightarrow> 'a mem_state_scheme \<Rightarrow> 'a mem_state_scheme \<Rightarrow> bool" where
  "cleared_page d f s t \<longleftrightarrow> d \<noteq> 0 \<and> frame_of d = d \<and> frame_of f = f \<and> unmapped d s \<and> data_page d f t \<and> tables_wf t \<and> same_dir s t \<and>
     f \<in> free_frames (kernel_pool s) \<and> free_frames (kernel_pool t) = free_frames (kernel_pool s) - {f} \<and>
     (\<forall>w. frame_of w = d \<longrightarrow> (\<exists>i < 1024. w = d + 4 * of_nat i) \<longrightarrow> phys t (word_at f w) = 0) \<and>
     lheap t = zero_nodes d 4096 (lheap s) \<and> cr3 t = cr3 s \<and>
     t = s\<lparr>phys := phys t, kernel_pool := kernel_pool t, kernel_vaddr := kernel_vaddr t, lheap := lheap t\<rparr>"

lemma page_words: "frame_of d = d \<Longrightarrow> i < 1024 \<Longrightarrow> frame_of (d + 4 * of_nat i) = d"
  using header_word[of d "4 * i"] by simp

lemma free_not_table: "tables_wf s \<Longrightarrow> f \<in> free_frames (kernel_pool s) \<Longrightarrow> f \<notin> table_frames s"
  using tables_wfD[of s] by (auto simp: table_frames_def)

lemma kernel_page:
  fixes s :: "'a thread_state_scheme"
  assumes "kernel_room s"
  obtains d f t where "malloc_kernel_pages 1 s = Inr (d, t)" "cleared_page d f s t"
proof -
  have a: "tables_wf s" "vaddrs_ok PF_KERNEL s" "1 \<le> card (free_frames (kernel_pool s))" using assms by (simp_all add: kernel_room_def)
  obtain r where r: "r < nbits (vaddr_bitmap (kernel_vaddr s))" "\<not> used (vaddr_bitmap (kernel_vaddr s)) r"
    using assms by (auto simp: kernel_room_def)
  have P: "the_pool PF_KERNEL s = kernel_pool s" "the_vaddrs PF_KERNEL s = kernel_vaddr s" by (simp_all add: the_pool_def the_vaddrs_def)
  let ?v = "vaddr_start (kernel_vaddr s)" and ?V = "kernel_vaddr s"
  have fr: "free_run (vaddr_bitmap (the_vaddrs PF_KERNEL s)) r (unat (1 :: u32))" using r by (simp add: free_run_def P)
  obtain i fs b1 b2 s1 where m: "malloc_pages PF_KERNEL 1 s = Inr (page (vaddr_start (the_vaddrs PF_KERNEL s)) i, s1)" "length fs = unat (1 :: u32)"
    "mapped_range PF_KERNEL (page (vaddr_start (the_vaddrs PF_KERNEL s)) i) fs (set_vaddrs PF_KERNEL ((the_vaddrs PF_KERNEL s)\<lparr>vaddr_bitmap := b1\<rparr>) s) s1"
    "i + unat (1 :: u32) \<le> nbits (vaddr_bitmap (the_vaddrs PF_KERNEL s))"
    "\<forall>k < unat (1 :: u32). unmapped (page (page (vaddr_start (the_vaddrs PF_KERNEL s)) i) k) s"
    by (rule malloc_pages_ok[OF a(1) _ a(2) _ _ fr]) (use a tables_wfD(2)[OF a(1)] r in \<open>simp_all add: P\<close>)
  let ?d = "page ?v i"
  let ?s0 = "s\<lparr>kernel_vaddr := ?V\<lparr>vaddr_bitmap := b1\<rparr>\<rparr>"
  obtain f where f: "fs = [f]" using m(2) by (cases fs) auto
  have mr: "mapped_range PF_KERNEL ?d [f] ?s0 s1" using m(3) by (simp add: f P set_vaddrs_def)
  have s1: "only_pool PF_KERNEL ?s0 s1" "tables_wf s1" "same_dir ?s0 s1" "f \<in> free_frames (kernel_pool s)" "maps_page ?d f s1"
     "free_frames (kernel_pool s1) = free_frames (kernel_pool s) - {f}"
    using mr by (auto simp: mapped_range_def the_pool_def)
  have sd: "same_dir s s1" using s1(3) by (auto simp: same_dir_def pde_of_def)
  have ff: "frame_of f = f" using frame_aligned(1)[OF tables_wfD(2)[OF a(1)], of f] s1(4) by (auto simp: free_frames_def pool_frames_def)
  have dp: "data_page ?d f s1"
    using s1(5) free_not_table[OF a(1) s1(4)] table_frames_same_dir[OF sd] by (simp add: data_page_def ff)
  have vo: "?v \<noteq> 0" "frame_of ?v = ?v" "unat ?v + 4096 * nbits (vaddr_bitmap ?V) \<le> 0xffc00000"
    using a(2) by (simp_all add: vaddrs_ok_def P Let_def)
  have "unat ?v + 4096 * i < 2 ^ 32" using vo(3) m(4) by (simp add: P)
  then have u: "unat ?d = unat ?v + 4096 * i" by (rule unat_page)
  then have d0: "?d \<noteq> 0" using vo(1) by auto
  have al: "frame_of ?d = ?d" using vo(2) u by (simp add: aligned_iff)
  have fw: "\<forall>i < 1024. frame_of (?d + 4 * of_nat i) = frame_of ?d" using page_words[OF al] al by simp
  obtain t where t: "zero_words ?d 1024 s1 = Inr t" "data_step s1 t"
     "\<forall>x. phys t x = (if \<exists>i < 1024. x = word_at f (?d + 4 * of_nat i) then 0 else phys s1 x)"
    using zero_words_data[OF s1(2) dp fw] by (elim exE conjE) (rule that)
  let ?t = "t\<lparr>lheap := zero_nodes ?d 4096 (lheap t)\<rparr>"
  have run: "malloc_kernel_pages 1 s = Inr (?d, ?t)"
    using m(1) d0 t(1) by (simp add: malloc_kernel_pages_def memset_0_def ASSERT_def P PAGE_SIZE_def)
  have te: "t = s1\<lparr>phys := phys t\<rparr>" using t(2) by (simp add: data_step_def)
  obtain bm ph where e1: "s1 = ?s0\<lparr>kernel_pool := (kernel_pool s)\<lparr>pool_bitmap := bm\<rparr>\<rparr>\<lparr>phys := ph\<rparr>"
    using s1(1) by (auto simp: only_pool_def set_pool_def the_pool_def)
  have e2: "t = s\<lparr>kernel_vaddr := ?V\<lparr>vaddr_bitmap := b1\<rparr>, kernel_pool := (kernel_pool s)\<lparr>pool_bitmap := bm\<rparr>, phys := phys t\<rparr>"
    by (subst te) (simp add: e1)
  have l: "lheap t = lheap s" "cr3 t = cr3 s" "kernel_pool t = (kernel_pool s)\<lparr>pool_bitmap := bm\<rparr>" by (subst e2, simp)+
  have kp: "kernel_pool t = kernel_pool s1" by (subst te) simp
  have "?t = s\<lparr>phys := phys ?t, kernel_pool := kernel_pool ?t, kernel_vaddr := kernel_vaddr ?t, lheap := lheap ?t\<rparr>"
    by (subst (1 2 3) e2) (cases s, simp)
  moreover have "same_dir s ?t" using same_dir_trans[of s s1 t] sd t(2) by (auto simp: data_step_def same_dir_def pde_of_def)
  moreover have "data_page ?d f ?t" "tables_wf ?t" using dp data_page_step[OF t(2)] t(2) by (simp_all add: data_step_def)
  moreover have "\<forall>w. frame_of w = ?d \<longrightarrow> (\<exists>i < 1024. w = ?d + 4 * of_nat i) \<longrightarrow> phys ?t (word_at f w) = 0"
    using t(3) by auto
  moreover have "unmapped ?d s" using m(5) by (simp add: P)
  ultimately have "cleared_page ?d f s ?t"
    unfolding cleared_page_def using d0 al ff s1(4,6) l kp by simp
  with run show ?thesis by (rule that)
qed

section \<open>A new page directory\<close>

lemma index_nat: "i < 1024 \<Longrightarrow> index (of_nat i)"
proof -
  assume a: "i < 1024"
  have "(of_nat i :: u32) AND 0x3ff = take_bit 10 (of_nat i)" by (simp add: take_bit_eq_mask mask_eq_exp_minus_1)
  also have "\<dots> = of_nat (take_bit 10 i)" by (simp add: of_nat_take_bit)
  also have "take_bit 10 i = i" using a by (simp add: take_bit_eq_mod)
  finally show ?thesis by (simp add: index_def)
qed

lemma aligned_offset:
  assumes "frame_of d = d" "i < 1024"
  shows "d + 4 * of_nat i = d OR push_bit 2 (of_nat i)" "(d + 4 * of_nat i) AND 0xfff = push_bit 2 (of_nat i)"
proof -
  have d: "12 \<le> n" if "bit d n" for n
  proof -
    have "bit (d AND 0xfffff000) n" using that assms(1) by (simp add: frame_of_def)
    then show ?thesis by (simp only: bit_and_iff bit_consts)
  qed
  have i: "n < 10" if "bit (of_nat i :: u32) n" for n using index_bits[OF index_nat[OF assms(2)] that] .
  have "\<not> bit d n \<or> \<not> bit (push_bit 2 (of_nat i) :: u32) n" for n using d[of n] i[of "n - 2"] by (auto simp: bit_simps)
  then have "d + push_bit 2 (of_nat i) = d OR push_bit 2 (of_nat i)" by (rule disjunctive_add)
  moreover have "4 * of_nat i = (push_bit 2 (of_nat i) :: u32)" by (simp add: push_bit_eq_mult)
  ultimately show e: "d + 4 * of_nat i = d OR push_bit 2 (of_nat i)" by simp
  show "(d + 4 * of_nat i) AND 0xfff = push_bit 2 (of_nat i)"
  proof (rule bit_word_eqI)
    fix n assume "n < LENGTH(32)"
    show "bit ((d + 4 * of_nat i) AND 0xfff) n = bit (push_bit 2 (of_nat i) :: u32) n"
      unfolding e bit_and_iff bit_or_iff bit_consts using d[of n] i[of "n - 2"] by (auto simp: bit_simps)
  qed
qed

lemma word_at_entry: "frame_of d = d \<Longrightarrow> i < 1024 \<Longrightarrow> word_at f (d + 4 * of_nat i) = entry_at f (of_nat i)"
  by (simp only: word_at_def aligned_offset(2) entry_at_def)

lemma load_directory:
  assumes "self_mapped s" "i < 1024"
  shows "load_word (0xfffff000 + 4 * of_nat i) s = Inr (phys s (entry_at (cr3 s) (of_nat i)))"
proof -
  let ?w = "0xfffff000 + 4 * of_nat i :: u32"
  have d: "frame_of 0xfffff000 = 0xfffff000" by (simp add: frame_of_def)
  have "frame_of ?w = frame_of (pde_addr 0)" using page_words[OF d assms(2)] by (simp add: pde_addr_def frame_of_def)
  then have f: "pd_index ?w = 0x3ff" "pt_index ?w = 0x3ff"
    using same_page_fields[of ?w "pde_addr 0"] pde_addr_fields(1,2)[of 0] by simp_all
  then have "translate ?w s = Inr (entry_at (cr3 s) (of_nat i))"
    using translate_self[OF assms(1) f(1)] assms(1) aligned_offset(2)[OF d assms(2)]
    by (simp add: self_mapped_def Let_def entry_at_def)
  then show ?thesis by (simp add: load_word_def)
qed

lemma copy_directory:
  "\<lbrakk> tables_wf s; data_page d f s; frame_of d = d; j + n \<le> 1024 \<rbrakk> \<Longrightarrow>
   \<exists>u. copy_words (d + 4 * of_nat j) (0xfffff000 + 4 * of_nat j) n s = Inr u \<and> data_step s u \<and>
     (\<forall>i < 1024. phys u (entry_at f (of_nat i)) =
        (if j \<le> i \<and> i < j + n then phys s (entry_at (cr3 s) (of_nat i)) else phys s (entry_at f (of_nat i)))) \<and>
     (\<forall>a. frame_of a \<noteq> frame_of f \<longrightarrow> phys u a = phys s a)"
proof (induction n arbitrary: j s)
  case 0
  then show ?case using data_step_refl[OF 0(1)] by (intro exI[of _ s]) auto
next
  case (Suc n)
  have j: "j < 1024" using Suc.prems(4) by simp
  let ?x = "phys s (entry_at (cr3 s) (of_nat j))"
  let ?s1 = "s\<lparr>phys := (phys s)(entry_at f (of_nat j) := ?x)\<rparr>"
  have w: "frame_of (d + 4 * of_nat j) = frame_of d" using page_words[OF Suc.prems(3) j] Suc.prems(3) by simp
  have st: "store_word (d + 4 * of_nat j) ?x s = Inr ?s1" "data_step s ?s1"
    using data_store(1,3)[OF Suc.prems(1,2) w, of ?x] by (simp_all add: word_at_entry[OF Suc.prems(3) j])
  have ld: "load_word (0xfffff000 + 4 * of_nat j) s = Inr ?x" by (rule load_directory[OF tables_wfD(1)[OF Suc.prems(1)] j])
  have s1: "tables_wf ?s1" "data_page d f ?s1" using st(2) data_page_step[OF st(2)] Suc.prems(2) by (simp_all add: data_step_def)
  have fc: "frame_of f \<noteq> frame_of (cr3 s)" using Suc.prems(2) by (auto simp: data_page_def table_frames_def)
  have e: "a + 4 * of_nat j + 4 = a + 4 * of_nat (Suc j)" for a :: u32 by (simp add: algebra_simps)
  obtain u where u: "copy_words (d + 4 * of_nat (Suc j)) (0xfffff000 + 4 * of_nat (Suc j)) n ?s1 = Inr u" "data_step ?s1 u"
     "\<forall>i < 1024. phys u (entry_at f (of_nat i)) =
        (if Suc j \<le> i \<and> i < Suc j + n then phys ?s1 (entry_at (cr3 ?s1) (of_nat i)) else phys ?s1 (entry_at f (of_nat i)))"
     "\<forall>a. frame_of a \<noteq> frame_of f \<longrightarrow> phys u a = phys ?s1 a"
    using Suc.IH[OF s1 Suc.prems(3), of "Suc j"] Suc.prems(4) by auto
  have ne: "entry_at f (of_nat i) = entry_at f (of_nat k) \<longleftrightarrow> i = k" if "i < 1024" "k < 1024" for i k
  proof -
    have "(of_nat i :: u32) = of_nat k \<longleftrightarrow> i = k" using that by (subst word_unat_eq_iff) (simp add: unat_of_nat)
    then show ?thesis using that by (simp add: entry_eq index_nat)
  qed
  have "phys u (entry_at f (of_nat i)) =
        (if j \<le> i \<and> i < j + Suc n then phys s (entry_at (cr3 s) (of_nat i)) else phys s (entry_at f (of_nat i)))" if "i < 1024" for i
    using u(3) that ne[OF that j] fc j by (auto simp: entry_eq index_nat)
  moreover have "phys u a = phys s a" if "frame_of a \<noteq> frame_of f" for a using u(4) that index_nat[OF j] by auto
  moreover have "copy_words (d + 4 * of_nat j) (0xfffff000 + 4 * of_nat j) (Suc n) s = Inr u"
    using u(1) unfolding copy_words.simps ld bnd_simps st(1) e by simp
  ultimately show ?case using data_step_trans[OF st(2) u(2)] by blast
qed

lemma index_less: "index i \<Longrightarrow> unat i < 1024"
  using word_and_le1[of i "0x3ff"] by (simp add: index_def word_le_nat_alt)

text \<open>
  A directory in frame \<open>f\<close> with an entry for itself, the kernel's entries of the directory in use, and nothing below.
\<close>

lemma new_directory:
  fixes v :: "'a mem_state_scheme"
  assumes ev: "\<And>i. index i \<Longrightarrow> phys v (entry_at f i) =
      (if i < 0x300 then 0 else if i = 0x3ff then f OR PG_P_1 OR PG_RW_W OR PG_US_U else phys v (entry_at (cr3 v) i))"
    and "frame_of f = f"
  shows "self_mapped (v\<lparr>cr3 := f\<rparr>)"
    "pd_index w < 0x300 \<Longrightarrow> translate w (v\<lparr>cr3 := f\<rparr>) = Inl (Page_fault w)"
    "0x300 \<le> pd_index w \<Longrightarrow> pd_index w < 0x3ff \<Longrightarrow> translate w (v\<lparr>cr3 := f\<rparr>) = translate w v"
proof -
  let ?w = "v\<lparr>cr3 := f\<rparr>"
  show "self_mapped ?w" using ev[of "0x3ff"] frame_flags[of f] assms(2) by (simp add: self_mapped_def Let_def)
  show "translate w ?w = Inl (Page_fault w)" if "pd_index w < 0x300"
    using ev[of "pd_index w"] that by (simp add: translate_def pde_of_def)
  show "translate w ?w = translate w v" if "0x300 \<le> pd_index w" "pd_index w < 0x3ff"
  proof -
    have "pd_index w \<noteq> 0x3ff" using that(2) by auto
    then have "pde_of w ?w = pde_of w v" using ev[OF index_fields(1), of w] that by (auto simp: pde_of_def)
    then show ?thesis by (simp add: translate_def pte_of_def)
  qed
qed

lemma data_page_lookup:
  assumes "tables_wf u" "data_page d f u" "frame_of d = d" "frame_of f = f"
  shows "addr_virtual_to_phy d u = Inr f"
proof -
  have mp: "maps_page d f u" using assms(2) by (simp add: data_page_def)
  then have "\<not> unmapped d u" by (simp add: maps_page_def unmapped_def)
  then have "bit (pde_of d u) 0" by (simp add: unmapped_iff)
  then show ?thesis by (rule lookup_aligned(2)[OF tables_wfD(1)[OF assms(1)] _ assms(3) mp assms(4)])
qed

text \<open>
  C25: when the kernel has room, \<^verbatim>\<open>create_page_dir\<close> gives a directory in a frame that was free. In
  the address space of this directory the kernel is mapped as it is for the caller, the
  directory is its own last table, and no address below the kernel is mapped: the
  process has no access to the memory of another.
\<close>

theorem create_page_dir_shares_kernel:
  fixes s :: "'a thread_state_scheme"
  assumes "kernel_room s"
  shows "\<exists>d f u. create_page_dir s = Inr (d, u) \<and> d \<noteq> 0 \<and> addr_virtual_to_phy d u = Inr f \<and>
     f \<in> free_frames (kernel_pool s) \<and> f \<notin> free_frames (kernel_pool u) \<and> self_mapped (u\<lparr>cr3 := f\<rparr>) \<and>
     (\<forall>w. 0x300 \<le> pd_index w \<and> pd_index w < 0x3ff \<longrightarrow> translate w (u\<lparr>cr3 := f\<rparr>) = translate w u) \<and>
     (\<forall>w. pd_index w < 0x300 \<longrightarrow> translate w (u\<lparr>cr3 := f\<rparr>) = Inl (Page_fault w))"
proof -
  obtain d f t where m: "malloc_kernel_pages 1 s = Inr (d, t)" "cleared_page d f s t" by (rule kernel_page[OF assms])
  have c: "d \<noteq> 0" "frame_of d = d" "frame_of f = f" "data_page d f t" "tables_wf t" "f \<in> free_frames (kernel_pool s)"
    "free_frames (kernel_pool t) = free_frames (kernel_pool s) - {f}"
    using m(2) by (simp_all add: cleared_page_def)
  have z: "phys t (entry_at f (of_nat i)) = 0" if "i < 1024" for i
    using m(2) page_words[OF c(2) that] that unfolding cleared_page_def word_at_entry[OF c(2) that, symmetric] by blast
  obtain u where u: "copy_words (d + 4 * of_nat 0x300) (0xfffff000 + 4 * of_nat 0x300) 256 t = Inr u" "data_step t u"
     "\<forall>i < 1024. phys u (entry_at f (of_nat i)) =
        (if 0x300 \<le> i \<and> i < 0x300 + 256 then phys t (entry_at (cr3 t) (of_nat i)) else phys t (entry_at f (of_nat i)))"
     "\<forall>a. frame_of a \<noteq> frame_of f \<longrightarrow> phys u a = phys t a"
    using copy_directory[OF c(5,4,2), of "0x300" 256] by auto
  have du: "data_page d f u" "tables_wf u" using u(2) data_page_step[OF u(2)] c(4) by (simp_all add: data_step_def)
  note lk = data_page_lookup[OF _ _ c(2,3)]
  let ?e = "f OR PG_US_U OR PG_RW_W OR PG_P_1"
  let ?v = "u\<lparr>phys := (phys u)(entry_at f (of_nat 1023) := ?e)\<rparr>"
  have wl: "frame_of (d + 4 * of_nat 1023) = frame_of d" using page_words[OF c(2), of 1023] c(2) by simp
  have v: "store_word (d + 4 * of_nat 1023) ?e u = Inr ?v" "data_step u ?v"
    using data_store(1,3)[OF du(2,1) wl, of ?e] word_at_entry[OF c(2), of 1023 f] by (simp_all del: of_nat_numeral)
  have run: "create_page_dir s = Inr (d, ?v)" using m(1) c(1) u(1) lk[OF du(2,1)] v(1) by (simp add: create_page_dir_def)
  have dv: "data_page d f ?v" "tables_wf ?v" using v(2) data_page_step[OF v(2)] du(1) by (simp_all add: data_step_def)
  have ut: "cr3 u = cr3 t" "u = t\<lparr>phys := phys u\<rparr>" using u(2) by (simp_all add: data_step_def same_dir_def)
  have fc: "frame_of f \<noteq> frame_of (cr3 t)" using du(1) ut(1) by (auto simp: data_page_def table_frames_def)
  have dir: "phys ?v (entry_at f i) = (if i < 0x300 then 0 else if i = 0x3ff then f OR PG_P_1 OR PG_RW_W OR PG_US_U else phys ?v (entry_at (cr3 ?v) i))"
    if "index i" for i
  proof -
    have "unat i < 1024" using index_less[OF that] .
    then have ix: "index (of_nat (unat i))" "i < 0x300 \<longleftrightarrow> unat i < 0x300" "i = 0x3ff \<longleftrightarrow> unat i = 0x3ff"
      using that by (simp_all add: word_less_nat_alt word_unat_eq_iff)
    have "phys ?v (entry_at (cr3 ?v) i) = phys t (entry_at (cr3 t) i)" using u(4) fc ut(1) that by (simp add: entry_eq index_nat)
    moreover have "phys ?v (entry_at f i) = (if i = 0x3ff then ?e else phys u (entry_at f i))" using that by (simp add: entry_eq)
    moreover have "?e = f OR PG_P_1 OR PG_RW_W OR PG_US_U" by (simp add: or.commute or.left_commute)
    ultimately show ?thesis using u(3)[rule_format, of "unat i"] z[of "unat i"] \<open>unat i < 1024\<close> ix by auto
  qed
  have "kernel_pool u = kernel_pool (t\<lparr>phys := phys u\<rparr>)" using ut(2) by (rule arg_cong)
  then have "f \<notin> free_frames (kernel_pool ?v)" using c(7) by simp
  then show ?thesis using run c(1,6) lk[OF dv(2,1)] new_directory[OF dir c(3)] by blast
qed

section \<open>Starting a thread\<close>

text \<open>The control block of a new thread.\<close>

definition new_pcb :: "u32 \<Rightarrow> u32 \<Rightarrow> u8 list \<Rightarrow> task_status \<Rightarrow> u16 \<Rightarrow> pcb_struct" where
  "new_pcb p prio nm st n = zero_pcb\<lparr>self_kernel_stack := p + 4096, status := st, priority := ucast prio, pid := n,
     pcb_name := nm @ 0 # drop (length nm + 1) (replicate 16 0), pcb_ticks := ucast prio,
     fd_table := [0, 1, 2, -1, -1, -1, -1, -1], stack_magic := 0x00007c00\<rparr>"

lemma allocate_next_pid_ok:
  assumes "lock_free (pid_lock s) s" "running_thread s \<noteq> 0"
  shows "allocate_next_pid s = Inr (next_pid s + 1, s\<lparr>next_pid := next_pid s + 1\<rparr>)"
proof -
  let ?l = "pid_lock s" and ?c = "running_thread s"
  let ?t = "(set_lock ?l ?c 1 0 s)\<lparr>next_pid := next_pid s + 1\<rparr>"
  have "lock_held ?l (running_thread ?t) ?t"
    using set_lock_held[OF assms(1), of ?c] by (simp add: lock_held_def running_thread_def list_empty_def next_of_def set_lock_def)
  then have r: "lock_release ?l ?t = Inr (set_lock ?l 0 0 1 ?t)" by (rule lock_release_held)
  have "set_lock ?l 0 0 1 ?t = (set_lock ?l 0 0 1 (set_lock ?l ?c 1 0 s))\<lparr>next_pid := next_pid s + 1\<rparr>"
    by (cases s) (simp add: set_lock_def)
  also have "\<dots> = s\<lparr>next_pid := next_pid s + 1\<rparr>" by (simp only: set_lock_restore[OF assms(1)])
  finally have e: "set_lock ?l 0 0 1 ?t = s\<lparr>next_pid := next_pid s + 1\<rparr>" .
  have p: "pid_lock ?t = ?l" "next_pid (set_lock ?l ?c 1 0 s) = next_pid s" by (simp_all add: set_lock_def)
  show ?thesis using r unfolding allocate_next_pid_def lock_acquire_free[OF assms] bnd_simps Let_def p e by simp
qed

definition cleared_pcb :: "u32 \<Rightarrow> 'a thread_state_scheme \<Rightarrow> 'a thread_state_scheme" where
  "cleared_pcb p s = s\<lparr>lheap := zero_nodes p SIZEOF_PCB (lheap s),
     block_descs := (\<lambda>d. if d - p < SIZEOF_PCB then \<lparr>block_size = 0, blocks_per_arena = 0\<rparr> else block_descs s d)\<rparr>"

lemma cleared_pcb_fields [simp]:
  "running_thread (cleared_pcb p s) = running_thread s" "pid_lock (cleared_pcb p s) = pid_lock s" "locks (cleared_pcb p s) = locks s"
  "sem_value (cleared_pcb p s) = sem_value s" "next_pid (cleared_pcb p s) = next_pid s" "pcbs (cleared_pcb p s) = pcbs s"
  "lheap (cleared_pcb p s) = zero_nodes p SIZEOF_PCB (lheap s)" "main_thread_pcb_ptr (cleared_pcb p s) = main_thread_pcb_ptr s"
  "kstack (cleared_pcb p s) = kstack s" "ready_thread_list (cleared_pcb p s) = ready_thread_list s" "all_thread_list (cleared_pcb p s) = all_thread_list s"
  by (simp_all add: cleared_pcb_def running_thread_def)

lemma thread_init_ok:
  assumes "p \<noteq> 0" "cstr name 0 nm" "length nm < 16" "running_thread s \<noteq> 0" "lock_free (pid_lock s) (cleared_pcb p s)"
  shows "thread_init p prio name s = Inr ((cleared_pcb p s)\<lparr>next_pid := next_pid s + 1,
     pcbs := (pcbs s)(p := new_pcb p prio nm (if p = main_thread_pcb_ptr s then TASK_RUNNING else TASK_READY) (next_pid s + 1))\<rparr>)"
proof -
  let ?st = "if p = main_thread_pcb_ptr s then TASK_RUNNING else TASK_READY"
  let ?nm = "nm @ 0 # drop (length nm + 1) (replicate 16 0)"
  let ?s1 = "(cleared_pcb p s)\<lparr>pcbs := (pcbs s)(p := zero_pcb\<lparr>pcb_name := ?nm, status := ?st\<rparr>)\<rparr>"
  have c: "clear_pcb p s = Inr ((cleared_pcb p s)\<lparr>pcbs := (pcbs s)(p := zero_pcb)\<rparr>)"
    using assms(1) by (cases s) (simp add: clear_pcb_def cleared_pcb_def ASSERT_def)
  have n: "strcpy (Some (replicate 16 0, 0)) (Some (name, 0)) = Inr ?nm"
    using strcpy_correct(1)[OF assms(2), of 0 "replicate 16 0"] assms(3) by simp
  have "lock_free (pid_lock ?s1) ?s1" "running_thread ?s1 \<noteq> 0" "next_pid ?s1 = next_pid s"
    using assms(4,5) by (simp_all add: lock_free_def list_empty_def next_of_def running_thread_def cleared_pcb_def)
  then have a: "allocate_next_pid ?s1 = Inr (next_pid s + 1, ?s1\<lparr>next_pid := next_pid s + 1\<rparr>)"
    using allocate_next_pid_ok[of ?s1] by simp
  have f: "[0, 1, 2] @ replicate (MAX_FILES_OPEN_PER_PROC - 3) (- 1) = [0, 1, 2, -1, -1, -1, -1, -1 :: u32]"
    by (simp add: MAX_FILES_OPEN_PER_PROC_def eval_nat_numeral)
  have z: "pcb_name zero_pcb = replicate 16 0" "upd_pcb p (\<lambda>p. p\<lparr>status := ?st\<rparr>) (upd_pcb p (\<lambda>p. p\<lparr>pcb_name := ?nm\<rparr>)
     ((cleared_pcb p s)\<lparr>pcbs := (pcbs s)(p := zero_pcb)\<rparr>)) = ?s1"
    by (simp_all add: zero_pcb_def upd_pcb_def)
  have "thread_init p prio name s = bnd (allocate_next_pid ?s1) (\<lambda>(next, s).
     Inr (upd_pcb p (\<lambda>q. q\<lparr>stack_magic := 0x00007c00, self_kernel_stack := p + 4096\<rparr>)
       (upd_pcb p (\<lambda>p. p\<lparr>fd_table := [0, 1, 2, -1, -1, -1, -1, -1]\<rparr>)
       (upd_pcb p (\<lambda>p. p\<lparr>pid := next, priority := ucast prio, elapsed_ticks := 0, pcb_ticks := ucast prio, pgdir := 0\<rparr>) s))))"
    unfolding thread_init_def c bnd_simps f Let_def using n z
    by (simp add: upd_pcb_def)
  also have "\<dots> = Inr ((cleared_pcb p s)\<lparr>next_pid := next_pid s + 1, pcbs := (pcbs s)(p := new_pcb p prio nm ?st (next_pid s + 1))\<rparr>)"
    unfolding a bnd_simps prod.case by (cases s) (simp add: upd_pcb_def new_pcb_def zero_pcb_def cleared_pcb_def)
  finally show ?thesis .
qed

definition nodes_mapped :: "(u32 \<rightharpoonup> u32 list) \<Rightarrow> 'a mem_state_scheme \<Rightarrow> bool" where
  "nodes_mapped Q s \<longleftrightarrow> (\<forall>q ys x. Q q = Some ys \<and> x \<in> set (nodes q ys) \<longrightarrow> \<not> unmapped x s)"

lemma unmapped_page:
  assumes "unmapped d s" "frame_of d = d" "x - d < 4096"
  shows "unmapped x s"
proof -
  have "unat (x - d) < 4096" using assms(3) by (simp add: word_less_nat_alt)
  then have "frame_of (d + of_nat (unat (x - d))) = d" using header_word[OF assms(2), of "unat (x - d)"] by simp
  then have "frame_of x = frame_of d" using assms(2) by simp
  then show ?thesis using assms(1) same_page_fields[of x d] by (simp add: unmapped_iff pde_of_def pte_of_def)
qed

lemma new_page_lists:
  assumes "lists_at h Q" "nodes_mapped Q s" "unmapped d s" "frame_of d = d"
  shows "n \<le> 4096 \<Longrightarrow> lists_at (zero_nodes d n h) Q" "k < 4096 \<Longrightarrow> unlinked (d + k) Q"
proof -
  have out: "\<not> x - d < 4096" if "Q q = Some ys" "x \<in> set (nodes q ys)" for q ys x
    using unmapped_page[OF assms(3,4), of x] assms(2) that unfolding nodes_mapped_def by blast
  show "lists_at (zero_nodes d n h) Q" if "n \<le> 4096"
  proof -
    have "zero_nodes d n h x = h x" if "Q q = Some ys" "x \<in> set (nodes q ys)" for q ys x
      using out[OF that] \<open>n \<le> 4096\<close> by (auto simp: zero_nodes_def)
    then show ?thesis using assms(1) lists_at_cong[of Q "zero_nodes d n h" h] by blast
  qed
  show "unlinked (d + k) Q" if "k < 4096" unfolding unlinked_def using out[of _ _ "d + k"] that by auto
qed

lemma enlist_ok:
  assumes "lists_at (lheap s) Q" "Q (ready_thread_list s) = Some R" "Q (all_thread_list s) = Some A"
    "ready_thread_list s \<noteq> all_thread_list s" "unlinked (general_tag p) Q" "unlinked (all_list_tag p) Q"
  obtains h where "enlist m1 m2 p s = Inr (s\<lparr>lheap := h\<rparr>)"
    "lists_at h (Q(ready_thread_list s \<mapsto> R @ [general_tag p], all_thread_list s \<mapsto> A @ [all_list_tag p]))"
proof -
  let ?r = "ready_thread_list s" and ?a = "all_thread_list s"
  let ?Q1 = "Q(?r \<mapsto> R @ [general_tag p])"
  let ?h1 = "insert_heap (tail_of ?r) (general_tag p) (lheap s)"
  let ?s1 = "s\<lparr>lheap := ?h1\<rparr>"
  have g: "general_tag p \<notin> set R" "all_list_tag p \<notin> set A" using assms(2,3,5,6) by (auto simp: unlinked_def nodes_def)
  have l1: "lists_at (lheap ?s1) ?Q1" using lists_at_append[OF assms(1,2,5)] by simp
  have a1: "?Q1 ?a = Some A" using assms(3,4) by simp
  have "general_tag p \<noteq> all_list_tag p" by (simp add: general_tag_def all_list_tag_def)
  then have u1: "unlinked (all_list_tag p) ?Q1" using assms(2,6) by (auto simp: unlinked_def nodes_def split: if_splits)
  let ?h2 = "insert_heap (tail_of ?a) (all_list_tag p) (lheap ?s1)"
  have l2: "lists_at ?h2 (?Q1(?a \<mapsto> A @ [all_list_tag p]))" by (rule lists_at_append[OF l1 a1 u1])
  have "enlist m1 m2 p s = Inr (s\<lparr>lheap := ?h2\<rparr>)"
    using elem_find_ok[OF lists_atD(1)[OF assms(1,2)], of "general_tag p"] elem_find_ok[OF lists_atD(1)[OF l1 a1], of "all_list_tag p"] g
    by (simp add: enlist_def ASSERT_def list_append_eq Let_def)
  then show ?thesis using l2 by (rule that)
qed

text \<open>The lists and the lock of thread numbers are ready for a new thread.\<close>

definition threads_ready :: "(u32 \<rightharpoonup> u32 list) \<Rightarrow> u32 list \<Rightarrow> u32 list \<Rightarrow> 'a thread_state_scheme \<Rightarrow> bool" where
  "threads_ready Q R A s \<longleftrightarrow> lists_at (lheap s) Q \<and> nodes_mapped Q s \<and> Q (ready_thread_list s) = Some R \<and>
     Q (all_thread_list s) = Some A \<and> ready_thread_list s \<noteq> all_thread_list s \<and>
     Q (sem_waiter (lock_sem (pid_lock s))) = Some [] \<and> locks s (pid_lock s) = \<lparr>holder = 0, holder_repeat_num = 0\<rparr> \<and>
     sem_value s (lock_sem (pid_lock s)) = 1 \<and> running_thread s \<noteq> 0 \<and> \<not> unmapped (main_thread_pcb_ptr s) s"

text \<open>
  C26: with room in the kernel and a name of fewer than 16 characters, \<^verbatim>\<open>thread_start\<close> puts a control
  block on a page that was not mapped. The thread has the next number, the given priority as its
  first time slice and its standard files; it is ready, and runs the given function with its argument
  when it is first scheduled. It is the last on the list of ready threads and on the list of all
  threads; no other list, control block or lock has changed.
\<close>

theorem thread_start_ready:
  fixes s :: "'a thread_state_scheme"
  assumes "kernel_room s" "threads_ready Q R A s" "cstr name 0 nm" "length nm < 16"
  shows "\<exists>p t. thread_start func arg name prio s = Inr (p, t) \<and> unmapped p s \<and>
     lists_at (lheap t) (Q(ready_thread_list s \<mapsto> R @ [general_tag p], all_thread_list s \<mapsto> A @ [all_list_tag p])) \<and>
     status (pcbs t p) = TASK_READY \<and> pid (pcbs t p) = next_pid s + 1 \<and> next_pid t = next_pid s + 1 \<and>
     priority (pcbs t p) = ucast prio \<and> pcb_ticks (pcbs t p) = ucast prio \<and> cstr (pcb_name (pcbs t p)) 0 nm \<and>
     fd_table (pcbs t p) = [0, 1, 2, -1, -1, -1, -1, -1] \<and> pgdir (pcbs t p) = 0 \<and>
     self_kernel_stack (pcbs t p) = p + 4096 - 432 \<and> kstack t p = [Kernel_thread func arg] \<and>
     (\<forall>q. q \<noteq> p \<longrightarrow> pcbs t q = pcbs s q \<and> kstack t q = kstack s q) \<and> locks t = locks s \<and> sem_value t = sem_value s"
proof -
  note T = assms(2)[unfolded threads_ready_def]
  obtain p f s1 where m: "malloc_kernel_pages 1 s = Inr (p, s1)" "cleared_page p f s s1" by (rule kernel_page[OF assms(1)])
  have c: "p \<noteq> 0" "frame_of p = p" "unmapped p s" "lheap s1 = zero_nodes p 4096 (lheap s)"
    and s1: "s1 = s\<lparr>phys := phys s1, kernel_pool := kernel_pool s1, kernel_vaddr := kernel_vaddr s1, lheap := lheap s1\<rparr>"
    using m(2) unfolding cleared_page_def by blast+
  have e: "pcbs s1 = pcbs s" "kstack s1 = kstack s" "locks s1 = locks s" "sem_value s1 = sem_value s" "next_pid s1 = next_pid s"
    "pid_lock s1 = pid_lock s" "running_thread s1 = running_thread s" "main_thread_pcb_ptr s1 = main_thread_pcb_ptr s"
    "ready_thread_list s1 = ready_thread_list s" "all_thread_list s1 = all_thread_list s"
    by (subst s1, simp add: running_thread_def)+
  have L: "lists_at (zero_nodes p SIZEOF_PCB (lheap s1)) Q"
  proof -
    have "lists_at (lheap s1) Q" unfolding c(4) using new_page_lists(1)[of "lheap s" Q s p 4096] T c by simp
    then show ?thesis using new_page_lists(1)[of "lheap s1" Q s p SIZEOF_PCB] T c by (simp add: SIZEOF_PCB_def)
  qed
  have lf: "lock_free (pid_lock s1) (cleared_pcb p s1)"
    using T e list_empty_ok[of "cleared_pcb p s1" "sem_waiter (lock_sem (pid_lock s))" "[]"] lists_atD(1)[OF L] by (simp add: lock_free_def)
  have ne: "p \<noteq> main_thread_pcb_ptr s" using T c(3) by auto
  let ?P = "new_pcb p prio nm TASK_READY (next_pid s + 1)"
  let ?s2 = "(cleared_pcb p s1)\<lparr>next_pid := next_pid s + 1, pcbs := (pcbs s)(p := ?P)\<rparr>"
  have ti: "thread_init p prio name s1 = Inr ?s2"
    using thread_init_ok[OF c(1) assms(3,4) _ lf, of prio] T e ne by simp
  let ?s3 = "thread_create p func arg ?s2"
  have s3: "pcbs ?s3 = (pcbs s)(p := ?P\<lparr>self_kernel_stack := p + 4096 - 432\<rparr>)" "kstack ?s3 = (kstack s)(p := [Kernel_thread func arg])"
    "lheap ?s3 = zero_nodes p SIZEOF_PCB (lheap s1)" "ready_thread_list ?s3 = ready_thread_list s" "all_thread_list ?s3 = all_thread_list s"
    "locks ?s3 = locks s" "sem_value ?s3 = sem_value s" "next_pid ?s3 = next_pid s + 1"
    by (simp_all add: thread_create_def Let_def upd_pcb_def e SIZEOF_INTR_STACK_def SIZEOF_THREAD_STACK_def new_pcb_def)
  have u: "unlinked (general_tag p) Q" "unlinked (all_list_tag p) Q"
    using new_page_lists(2)[of "lheap s" Q s p] T c by (simp_all add: general_tag_def all_list_tag_def)
  obtain h where h: "enlist ''!(elem_find(&ready_thread_list, &(pcb_ptr->general_tag)))'' ''!(elem_find(&all_thread_list, &(pcb_ptr->all_list_tag)))'' p ?s3
       = Inr (?s3\<lparr>lheap := h\<rparr>)"
    "lists_at h (Q(ready_thread_list ?s3 \<mapsto> R @ [general_tag p], all_thread_list ?s3 \<mapsto> A @ [all_list_tag p]))"
    by (rule enlist_ok[of ?s3 Q R A p]) (use L T u s3 in simp_all)
  have run: "thread_start func arg name prio s = Inr (p, ?s3\<lparr>lheap := h\<rparr>)"
    unfolding thread_start_def m(1) bnd_simps prod.case ti Let_def h(1) ..
  have nm: "cstr (nm @ 0 # drop (length nm + 1) (replicate 16 0)) 0 nm"
    using strcpy_correct(2)[OF assms(3), of 0 "replicate 16 0"] assms(4) by simp
  show ?thesis
    by (rule exI[of _ p], rule exI[of _ "?s3\<lparr>lheap := h\<rparr>"]) (use run c(3) h(2) s3 nm in \<open>simp add: new_pcb_def zero_pcb_def\<close>)
qed

section \<open>Witnesses of the processes\<close>

text \<open>The memory of \<open>mem_sample\<close>, with the pages of the lists, the locks and the main thread mapped.\<close>

definition proc_sample :: "unit timer_state_scheme" where
  "proc_sample = (mem_sample 0)\<lparr>
     phys := (phys (mem_sample 0))(entry_at 0x101000 7 := 0x7007, entry_at 0x101000 8 := 0x8007, entry_at 0x101000 0x9e := 0x9e007),
     lheap := empty_list_nodes 0xc0007010 (lheap sample_state)\<rparr>"

lemma proc_sample_phys: "phys proc_sample = (phys (mem_sample 0))(entry_at 0x101000 7 := 0x7007, entry_at 0x101000 8 := 0x8007,
    entry_at 0x101000 0x9e := 0x9e007)"
  by (simp add: proc_sample_def)

lemma proc_sample_index: "index 7" "index 8" "index 0x9e"
  by (simp_all add: index_def)

lemma proc_sample_dir: "same_dir (mem_sample 0) proc_sample"
proof -
  have "cr3 (mem_sample 0) = 0x100000" by (simp add: mem_sample_defs)
  then show ?thesis using sample_frames proc_sample_index
    by (simp add: same_dir_def proc_sample_def pde_of_def entry_eq)
qed

lemma proc_sample_unmapped:
  assumes "k < 9"
  shows "unmapped (page 0xc0100000 k) proc_sample"
proof -
  have i: "unat (of_nat (0x100 + k) :: u32) = 0x100 + k" using assms by (simp add: unat_of_nat del: of_nat_add)
  then have n: "of_nat (0x100 + k) \<noteq> (7 :: u32)" "of_nat (0x100 + k) \<noteq> (8 :: u32)" "of_nat (0x100 + k) \<noteq> (0x9e :: u32)"
    using assms by (auto simp del: of_nat_add)
  have ix: "index (of_nat (0x100 + k))" using assms by (intro index_nat) simp
  have d: "pde_of (page 0xc0100000 k) proc_sample = 0x101007"
    using proc_sample_dir sample_pde[OF assms, of 0] by (simp add: same_dir_def)
  have "phys (mem_sample 0) (entry_at 0x101007 (of_nat (0x100 + k))) = 0"
    using ix sample_frames by (simp add: mem_sample_defs entry_eq del: of_nat_add)
  then have "pte_of (page 0xc0100000 k) proc_sample = 0"
    using n ix sample_page[OF assms] sample_frames proc_sample_index
    by (simp add: pte_of_def d proc_sample_phys entry_eq del: of_nat_add)
  then show ?thesis by (simp add: unmapped_iff)
qed

lemma proc_sample_room: "kernel_room proc_sample"
proof -
  have e: "kernel_pool proc_sample = kernel_pool (mem_sample 0)" "kernel_vaddr proc_sample = kernel_vaddr (mem_sample 0)"
    by (simp_all add: proc_sample_def)
  have t: "tables_wf proc_sample"
    by (rule tables_wf_transfer[OF sample_tables(1)[of 0] proc_sample_dir]) (use sample_pools(1)[of 0] in \<open>simp_all add: e\<close>)
  have v: "the_vaddrs PF_KERNEL proc_sample = \<lparr>vaddr_bitmap = \<lparr>bitmap_len = 1, bits = [0, 0]\<rparr>, vaddr_start = 0xc0100000\<rparr>"
    by (simp add: the_vaddrs_def proc_sample_def mem_sample_defs)
  have n: "nbits \<lparr>bitmap_len = 1, bits = [0, 0]\<rparr> = 8" by (simp add: nbits_def)
  have "pages_ok 0xc0100000 9 (mem_sample 0)"
    using sample_vaddrs by (simp add: vaddrs_ok_def Let_def the_vaddrs_def mem_sample_defs n)
  then have "pages_ok 0xc0100000 9 proc_sample" using pages_ok_same_dir[OF proc_sample_dir] by simp
  then have "vaddrs_ok PF_KERNEL proc_sample"
    using proc_sample_unmapped n by (simp add: vaddrs_ok_def v Let_def bitmap_wf_def frame_of_def)
  moreover have "\<not> used \<lparr>bitmap_len = 1, bits = [0, 0]\<rparr> 0" by (simp add: used_def)
  ultimately show ?thesis using t sample_pools(2,3)[of 0] n v
    by (auto simp: kernel_room_def e the_vaddrs_def intro!: exI[of _ 0])
qed

definition proc_sample_lists :: "u32 \<rightharpoonup> u32 list" where
  "proc_sample_lists = [0xc0007000 \<mapsto> [], 0xc0007010 \<mapsto> [], 0xc0008008 \<mapsto> []]"

lemma proc_sample_mapped:
  assumes "frame_of x \<in> {0xc0007000, 0xc0008000, 0xc009e000}"
  shows "\<not> unmapped x proc_sample"
proof -
  have i: "pd_index x = 0x300" "pt_index x \<in> {7, 8, 0x9e}"
    using assms same_page_fields[of x "0xc0007000"] same_page_fields[of x "0xc0008000"] same_page_fields[of x "0xc009e000"]
    by (auto simp: frame_of_def pd_index_def pt_index_def)
  have c: "cr3 (mem_sample 0) = 0x100000" by (simp add: mem_sample_defs)
  have "pde_of x (mem_sample 0) = 0x101007" using i sample_frames by (simp add: pde_of_def mem_sample_defs entry_eq)
  then have d: "pde_of x proc_sample = 0x101007" using proc_sample_dir by (simp add: same_dir_def)
  have "pte_of x proc_sample \<in> {0x7007, 0x8007, 0x9e007}"
    using i(2) sample_frames proc_sample_index by (auto simp: pte_of_def d proc_sample_phys entry_eq)
  moreover have "bit (0x101007 :: u32) 0" "bit (0x7007 :: u32) 0" "bit (0x8007 :: u32) 0" "bit (0x9e007 :: u32) 0" by (simp_all add: bit_0)
  ultimately show ?thesis using d by (auto simp: unmapped_iff)
qed

lemma proc_sample_ready: "threads_ready proc_sample_lists [] [] proc_sample"
proof -
  have f: "ready_thread_list proc_sample = 0xc0007000" "all_thread_list proc_sample = 0xc0007010" "pid_lock proc_sample = 0xc0008000"
    "main_thread_pcb_ptr proc_sample = 0xc009e000" "running_thread proc_sample = 0xc009e000"
    "locks proc_sample = (\<lambda>_. \<lparr>holder = 0, holder_repeat_num = 0\<rparr>)" "sem_value proc_sample = (\<lambda>_. 1)"
    by (simp_all add: proc_sample_def mem_sample_defs running_thread_def)
  have "lists_at (lheap proc_sample) proc_sample_lists"
    by (auto simp: lists_at_def list_at_def nodes_def head_of_def tail_of_def proc_sample_lists_def proc_sample_def
       sample_state_def empty_list_nodes_def split: if_splits)
  moreover have "nodes_mapped proc_sample_lists proc_sample"
    unfolding nodes_mapped_def proc_sample_lists_def
    by (auto simp: nodes_def head_of_def tail_of_def frame_of_def intro!: notI dest!: proc_sample_mapped[THEN notE, rotated] split: if_splits)
  moreover have "\<not> unmapped 0xc009e000 proc_sample" by (rule proc_sample_mapped) (simp add: frame_of_def)
  ultimately show ?thesis by (simp add: threads_ready_def f sem_waiter_def lock_sem_def) (simp add: proc_sample_lists_def)
qed

theorem create_page_dir_shares_kernel_witness:
  "\<exists>d f u. create_page_dir proc_sample = Inr (d, u) \<and> addr_virtual_to_phy d u = Inr f \<and>
    translate 0xc0007abc (u\<lparr>cr3 := f\<rparr>) = translate 0xc0007abc u \<and> translate 0x8048000 (u\<lparr>cr3 := f\<rparr>) = Inl (Page_fault 0x8048000)"
proof -
  have "pd_index 0xc0007abc = 0x300" "pd_index 0x8048000 = 0x20" by (simp_all add: pd_index_def)
  then have "0x300 \<le> pd_index 0xc0007abc \<and> pd_index 0xc0007abc < 0x3ff" "pd_index 0x8048000 < 0x300" by simp_all
  then show ?thesis using create_page_dir_shares_kernel[OF proc_sample_room] by blast
qed

theorem thread_start_ready_witness:
  "\<exists>p t. thread_start 0xc0001000 5 [97, 98, 0] 31 proc_sample = Inr (p, t) \<and> status (pcbs t p) = TASK_READY \<and>
    pid (pcbs t p) = 3 \<and> kstack t p = [Kernel_thread 0xc0001000 5]"
proof -
  have "cstr [97, 98, 0] 0 [97, 98]" "next_pid proc_sample + 1 = 3" by (simp_all add: cstr_def proc_sample_def mem_sample_defs)
  then show ?thesis
    using thread_start_ready[OF proc_sample_room proc_sample_ready, of "[97, 98, 0]" "[97, 98]" "0xc0001000" 5 31] by auto
qed
end
