(* ===== verification/Syscall.thy ===== *)
theory Syscall
  imports Process
begin

text \<open>
  System calls: \<^verbatim>\<open>userprog/syscall-init.c\<close>, the wrappers of \<^verbatim>\<open>lib/user/syscall.c\<close>, and
  \<^verbatim>\<open>printf\<close> of \<^verbatim>\<open>lib/stdio.c\<close>. The routine between them,
  \<^verbatim>\<open>system_call_handler\<close> of \<^verbatim>\<open>kernel/kernel.asm\<close>, calls the entry of the table with
  the number in \<^verbatim>\<open>eax\<close>. The instruction \<^verbatim>\<open>int\<close> goes through an interrupt gate: the handler runs
  with interrupts closed, and the return restores the flags.

  An argument is a word, or the bytes a pointer argument points to. An entry of the table is
  \<open>None\<close> where the table holds the null pointer.

  Shown: what each system call does when the table has been set up; what \<^verbatim>\<open>printf\<close> prints; and
  that the handler does not check the number.
\<close>

section \<open>Kernel side\<close>

datatype sys_routine = Sys_get_pid | Sys_write | Sys_malloc | Sys_free

datatype sys_arg = Value u32 | Text "u8 list"

record sys_state = proc_state +
  syscall_table :: "sys_routine option list"

definition SYSTEMCALL_NUMBER :: nat where "SYSTEMCALL_NUMBER = 32"
definition SYS_GETPID :: u32 where "SYS_GETPID = 0"
definition SYS_WRITE :: u32 where "SYS_WRITE = 1"
definition SYS_MALLOC :: u32 where "SYS_MALLOC = 2"
definition SYS_FREE :: u32 where "SYS_FREE = 3"

definition sys_get_pid :: "'a thread_state_scheme \<Rightarrow> u32" where
  "sys_get_pid s = ucast (pid (pcbs s (running_thread s)))"

definition sys_write :: "u8 list \<Rightarrow> 'a console_state_scheme \<Rightarrow> error + (u32 \<times> 'a console_state_scheme)" where
  "sys_write str s =
     bnd (console_put_str str s) (\<lambda>s.
     bnd (strlen (Some (str, 0))) (\<lambda>len. Inr (len, s)))"

definition syscall_table_init :: "'a sys_state_scheme \<Rightarrow> 'a sys_state_scheme" where
  "syscall_table_init s =
     (let s = putStr ''syscall table init start \<newline>'' s;
          s = s\<lparr>syscall_table := (syscall_table s)[unat SYS_GETPID := Some Sys_get_pid]\<rparr>;
          s = s\<lparr>syscall_table := (syscall_table s)[unat SYS_WRITE := Some Sys_write]\<rparr>;
          s = s\<lparr>syscall_table := (syscall_table s)[unat SYS_MALLOC := Some Sys_malloc]\<rparr>;
          s = s\<lparr>syscall_table := (syscall_table s)[unat SYS_FREE := Some Sys_free]\<rparr>
      in putStr ''syscall table init end \<newline>'' s)"

text \<open>A routine called with its argument; \<^verbatim>\<open>sys_free\<close> returns nothing.\<close>

definition call_routine :: "sys_routine \<Rightarrow> sys_arg \<Rightarrow> 'a sys_state_scheme \<Rightarrow> error + (u32 option \<times> 'a sys_state_scheme)" where
  "call_routine r ebx s =
     (case (r, ebx) of
        (Sys_get_pid, _) \<Rightarrow> Inr (Some (sys_get_pid s), s)
      | (Sys_write, Text str) \<Rightarrow> bnd (sys_write str s) (\<lambda>(v, s). Inr (Some v, s))
      | (Sys_malloc, Value sz) \<Rightarrow> bnd (sys_malloc sz s) (\<lambda>(v, s). Inr (Some v, s))
      | (Sys_free, Value a) \<Rightarrow> bnd (sys_free a s) (\<lambda>s. Inr (None, s))
      | _ \<Rightarrow> Inl Out_of_bounds)"

definition system_call_handler :: "u32 \<Rightarrow> sys_arg \<Rightarrow> 'a sys_state_scheme \<Rightarrow> error + (u32 option \<times> 'a sys_state_scheme)" where
  "system_call_handler eax ebx s =
     (if unat eax < length (syscall_table s)
      then (case syscall_table s ! unat eax of
              None \<Rightarrow> Inl (Page_fault 0)
            | Some r \<Rightarrow> bnd (call_routine r ebx (cli s)) (\<lambda>(v, t). Inr (v, t\<lparr>eflags := eflags s\<rparr>)))
      else Inl Out_of_bounds)"

section \<open>User side\<close>

definition syscall0 :: "u32 \<Rightarrow> 'a sys_state_scheme \<Rightarrow> error + (u32 option \<times> 'a sys_state_scheme)" where
  "syscall0 NUMBER s = system_call_handler NUMBER (Value 0) s"

definition syscall1 :: "u32 \<Rightarrow> sys_arg \<Rightarrow> 'a sys_state_scheme \<Rightarrow> error + (u32 option \<times> 'a sys_state_scheme)" where
  "syscall1 NUMBER ARGV1 s = system_call_handler NUMBER ARGV1 s"

definition returned_word :: "error + (u32 option \<times> 's) \<Rightarrow> error + (u32 \<times> 's)" where
  "returned_word r = bnd r (\<lambda>(v, s). case v of None \<Rightarrow> Inl Uninitialised | Some w \<Rightarrow> Inr (w, s))"

definition getpid :: "'a sys_state_scheme \<Rightarrow> error + (u32 \<times> 'a sys_state_scheme)" where
  "getpid s = returned_word (syscall0 SYS_GETPID s)"

definition write_call :: "u8 list \<Rightarrow> 'a sys_state_scheme \<Rightarrow> error + (u32 \<times> 'a sys_state_scheme)" where
  "write_call str s = returned_word (syscall1 SYS_WRITE (Text str) s)"

definition malloc :: "u32 \<Rightarrow> 'a sys_state_scheme \<Rightarrow> error + (u32 \<times> 'a sys_state_scheme)" where
  "malloc sz s = returned_word (syscall1 SYS_MALLOC (Value sz) s)"

definition free :: "u32 \<Rightarrow> 'a sys_state_scheme \<Rightarrow> error + 'a sys_state_scheme" where
  "free addr s = bnd (syscall1 SYS_FREE (Value addr) s) (\<lambda>(_, s). Inr s)"

definition printf :: "(u32 \<Rightarrow> u8 list) \<Rightarrow> u8 list \<Rightarrow> u32 list \<Rightarrow> 'a sys_state_scheme \<Rightarrow> error + (u32 \<times> 'a sys_state_scheme)" where
  "printf mem format args s =
     bnd (vsprintf mem (replicate 1024 0) format args) (\<lambda>(len, buf). write_call buf s)"

section \<open>Properties of system calls\<close>

definition table_ready :: "'a sys_state_scheme \<Rightarrow> bool" where
  "table_ready s \<longleftrightarrow> length (syscall_table s) = SYSTEMCALL_NUMBER \<and>
     take 4 (syscall_table s) = [Some Sys_get_pid, Some Sys_write, Some Sys_malloc, Some Sys_free]"

lemma syscall_table_init_entries: "syscall_table (syscall_table_init s) =
    (syscall_table s)[0 := Some Sys_get_pid, 1 := Some Sys_write, 2 := Some Sys_malloc, 3 := Some Sys_free]"
  by (simp add: syscall_table_init_def putStr_def SYS_GETPID_def SYS_WRITE_def SYS_MALLOC_def SYS_FREE_def Let_def)

lemma syscall_table_init_ready:
  assumes "length (syscall_table s) = SYSTEMCALL_NUMBER"
  shows "table_ready (syscall_table_init s)"
proof -
  obtain a b c d xs where "syscall_table s = a # b # c # d # xs"
    using assms by (auto simp: SYSTEMCALL_NUMBER_def eval_nat_numeral length_Suc_conv)
  then show ?thesis using assms unfolding table_ready_def syscall_table_init_entries by (simp add: numeral_2_eq_2 numeral_3_eq_3)
qed

lemma table_entries:
  assumes "table_ready s"
  shows "syscall_table s ! 0 = Some Sys_get_pid" "syscall_table s ! 1 = Some Sys_write" "syscall_table s ! 2 = Some Sys_malloc"
    "syscall_table s ! 3 = Some Sys_free" "length (syscall_table s) = 32"
proof -
  have "syscall_table s ! i = [Some Sys_get_pid, Some Sys_write, Some Sys_malloc, Some Sys_free] ! i" if "i < 4" for i
    using assms that nth_take[OF that, of "syscall_table s"] by (simp add: table_ready_def)
  from this[of 0] this[of 1] this[of 2] this[of 3] show "syscall_table s ! 0 = Some Sys_get_pid" "syscall_table s ! 1 = Some Sys_write"
    "syscall_table s ! 2 = Some Sys_malloc" "syscall_table s ! 3 = Some Sys_free" by simp_all
  show "length (syscall_table s) = 32" using assms by (simp add: table_ready_def SYSTEMCALL_NUMBER_def)
qed

lemma sys_write_prints:
  assumes "may_print s" "cstr str 0 cs"
  shows "sys_write str s = Inr (of_nat (length cs), s\<lparr>screen := screen s @ [Put_str (text_of cs)]\<rparr>)"
proof -
  have "console_put_str str s = Inr (s\<lparr>screen := screen s @ [Put_str (text_of cs)]\<rparr>)"
    using print_in_lock[OF assms(1), of "[Put_str (text_of cs)]"] by (simp add: console_put_str_def putStr_buf_cstr[OF assms(2)])
  then show ?thesis using strlen_correct[OF assms(2)] by (simp add: sys_write_def)
qed

lemma write_prints:
  assumes "table_ready s" "may_print s" "cstr str 0 cs"
  shows "write_call str s = Inr (of_nat (length cs), s\<lparr>screen := screen s @ [Put_str (text_of cs)]\<rparr>)"
proof -
  have "may_print (cli s)" using assms(2) by (simp add: may_print_def cli_def running_thread_def lock_free_def list_empty_def next_of_def)
  then show ?thesis
    using sys_write_prints[OF _ assms(3), of "cli s"] table_entries[OF assms(1)]
    by (cases s) (simp add: write_call_def syscall1_def system_call_handler_def SYS_WRITE_def call_routine_def returned_word_def cli_def)
qed

text \<open>
  C28: once the table is set up, the calls of a user program reach the routines of the kernel:
  \<^verbatim>\<open>getpid\<close> gives the number of the running thread and changes nothing; \<^verbatim>\<open>write\<close> prints
  the string, under the lock of the console, and gives its length; \<^verbatim>\<open>malloc\<close> and
  \<^verbatim>\<open>free\<close> are \<^verbatim>\<open>sys_malloc\<close> and \<^verbatim>\<open>sys_free\<close>, run with interrupts closed.
\<close>

theorem syscalls_reach_kernel:
  assumes "length (syscall_table r) = SYSTEMCALL_NUMBER" "syscall_table s = syscall_table (syscall_table_init r)"
  shows "getpid s = Inr (ucast (pid (pcbs s (running_thread s))), s) \<and>
    (may_print s \<and> cstr str 0 cs \<longrightarrow> write_call str s = Inr (of_nat (length cs), s\<lparr>screen := screen s @ [Put_str (text_of cs)]\<rparr>)) \<and>
    malloc sz s = bnd (sys_malloc sz (cli s)) (\<lambda>(a, t). Inr (a, t\<lparr>eflags := eflags s\<rparr>)) \<and>
    free a s = bnd (sys_free a (cli s)) (\<lambda>t. Inr (t\<lparr>eflags := eflags s\<rparr>))"
proof -
  have t: "table_ready s" using syscall_table_init_ready[OF assms(1)] assms(2) by (simp add: table_ready_def)
  note e = table_entries[OF t]
  have "getpid s = Inr (ucast (pid (pcbs s (running_thread s))), s)"
    by (cases s) (use e in \<open>simp add: getpid_def syscall0_def system_call_handler_def SYS_GETPID_def call_routine_def returned_word_def
       sys_get_pid_def cli_def running_thread_def\<close>)
  moreover have "malloc sz s = bnd (sys_malloc sz (cli s)) (\<lambda>(a, t). Inr (a, t\<lparr>eflags := eflags s\<rparr>))"
    using e by (simp add: malloc_def syscall1_def system_call_handler_def SYS_MALLOC_def call_routine_def returned_word_def bnd_assoc
       split_def)
  moreover have "free a s = bnd (sys_free a (cli s)) (\<lambda>t. Inr (t\<lparr>eflags := eflags s\<rparr>))"
    using e by (simp add: free_def syscall1_def system_call_handler_def SYS_FREE_def call_routine_def bnd_assoc split_def)
  ultimately show ?thesis using write_prints[OF t] by blast
qed

text \<open>
  C38: in a user program \<^verbatim>\<open>printf\<close> prints the text its format stands for and gives its
  length, for every text of fewer than 1024 characters; a longer text overruns the buffer on the
  stack.
\<close>

theorem printf_prints:
  assumes "table_ready s" "may_print s" "cstr format 0 fs" "render mem fs args = Some out" "0 \<notin> set out"
  shows "(length out < 1024 \<longrightarrow> printf mem format args s =
      Inr (of_nat (length out), s\<lparr>screen := screen s @ [Put_str (text_of out)]\<rparr>)) \<and>
    (1024 < length out \<longrightarrow> printf mem format args s = Inl Out_of_bounds)"
proof (intro conjI impI)
  assume l: "length out < 1024"
  obtain b where b: "vsprintf_loop mem format 0 (replicate 1024 0, 0) args = Inr (b, length out)"
      "written (replicate 1024 0) 0 out b"
    using vsprintf_loop_renders[OF assms(3,4), of 0 "replicate 1024 0"] l by auto
  note z = strlen_fresh[OF assms(5) l _ b(2)]
  have "write_call b s = Inr (of_nat (length out), s\<lparr>screen := screen s @ [Put_str (text_of out)]\<rparr>)"
    by (rule write_prints[OF assms(1,2) z(2)]) simp
  then show "printf mem format args s = Inr (of_nat (length out), s\<lparr>screen := screen s @ [Put_str (text_of out)]\<rparr>)"
    using b(1) z(3) by (simp add: printf_def vsprintf_def)
next
  assume "1024 < length out"
  then show "printf mem format args s = Inl Out_of_bounds"
    using vsprintf_loop_overruns[OF assms(3,4), of "replicate 1024 0" 0] by (simp add: printf_def vsprintf_def)
qed

lemma handler_does_not_check:
  assumes "length (syscall_table s) = SYSTEMCALL_NUMBER" "32 \<le> n"
  shows "system_call_handler n ebx s = Inl Out_of_bounds"
  using assms by (simp add: system_call_handler_def SYSTEMCALL_NUMBER_def word_le_nat_alt)

text \<open>The state of the witnesses: the table is set up, the console is free and the main thread runs.\<close>

definition sys_sample :: "unit sys_state_scheme" where
  "sys_sample = console_state.extend (console_state.truncate console_sample)
     \<lparr>k_mem_block_descs = 0xc0006000, idle_p = 0, start_process_p = 0, tss_addr = 0, tss = zero_tss,
      gdt = (\<lambda>_. make_gdt_desc 0 0 0 0), gdtr = 0, task_register = 0,
      syscall_table = [Some Sys_get_pid, Some Sys_write, Some Sys_malloc, Some Sys_free] @ replicate 28 None\<rparr>"

lemma sys_sample_ready: "table_ready sys_sample" "may_print sys_sample"
  by (simp_all add: table_ready_def sys_sample_def SYSTEMCALL_NUMBER_def console_state.defs)
    (use console_sample_may_print in \<open>simp add: may_print_def console_sample_def kbd_sample_def kbd_state.defs console_state.defs
       lock_free_def running_thread_def list_empty_def next_of_def\<close>)

theorem syscalls_reach_kernel_witness:
  "getpid sys_sample = Inr (1, sys_sample) \<and>
   write_call [104, 105, 0] sys_sample = Inr (2, sys_sample\<lparr>screen := screen sys_sample @ [Put_str ''hi'']\<rparr>)"
proof -
  have l: "length (syscall_table sys_sample) = SYSTEMCALL_NUMBER" using sys_sample_ready(1) by (simp add: table_ready_def)
  have t: "syscall_table sys_sample = syscall_table (syscall_table_init sys_sample)"
    unfolding syscall_table_init_entries by (simp add: sys_sample_def console_state.defs numeral_2_eq_2 numeral_3_eq_3)
  have p: "ucast (pid (pcbs sys_sample (running_thread sys_sample))) = (1 :: u32)"
    by (simp add: sys_sample_def console_state.defs console_sample_def kbd_sample_def kbd_state.defs ioq_state.defs ioq_sample_defs
       running_thread_def sample_pcb_def)
  show ?thesis using syscalls_reach_kernel[OF l t, of "[104, 105, 0]" "[104, 105]"] sys_sample_ready(2) p
    by (simp add: cstr_def text_of_def char_of_def bit_0)
qed

theorem printf_prints_witness:
  "printf (\<lambda>_. []) [37, 120, 0] [255] sys_sample = Inr (2, sys_sample\<lparr>screen := screen sys_sample @ [Put_str ''FF'']\<rparr>)"
proof -
  have "render (\<lambda>_. []) [37, 120] [255] = Some [70, 70]"
    by (simp add: show_arg_def digits.simps[of 16 255] digits.simps[of 16 15] digit_char_def)
  then show ?thesis
    using printf_prints[OF sys_sample_ready, of "[37, 120, 0]" "[37, 120]" "\<lambda>_. []" "[255]" "[70, 70]"]
    by (simp add: cstr_def text_of_def char_of_def bit_0)
qed
end
