(* ===== verification/Ide.thy ===== *)
theory Ide
  imports Syscall
begin

text \<open>
  The disk driver (\<^verbatim>\<open>device/ide.c\<close>).

  The controller is hardware: it is a parameter \<open>hw\<close> of the routines, with a state of its own of any type
  \<open>'d\<close>, that answers to accesses of its ports. What the driver relies on, the documented behaviour of
  the command block of an ATA disk, is the predicate \<open>ata_disk\<close>. The interrupt of the disk is
  taken when the driver is about to wait for it; if it has not come by then, the outcome is
  \<open>Blocked\<close>, as for a lock.

  Channels, disks and partitions are stores from addresses to records, the nodes and locks in them
  are at their offsets. A buffer is passed as the bytes of its object and returned with its new contents.

  Shown: what \<^verbatim>\<open>ide_write\<close> writes, \<^verbatim>\<open>ide_read\<close> reads back, also in more than one
  command; \<^verbatim>\<open>busy_wait\<close> ends after a bounded number of polls; the bytes of an
  identification are swapped in pairs; a fourth primary partition stops the kernel.
\<close>

section \<open>The hardware\<close>

record 'd ata =
  ata_out :: "u16 \<Rightarrow> u8 \<Rightarrow> 'd \<Rightarrow> 'd"
  ata_in :: "u16 \<Rightarrow> 'd \<Rightarrow> u8 \<times> 'd"
  ata_outs :: "u16 \<Rightarrow> u16 list \<Rightarrow> 'd \<Rightarrow> 'd"
  ata_ins :: "u16 \<Rightarrow> nat \<Rightarrow> 'd \<Rightarrow> u16 list \<times> 'd"
  ata_irq :: "u8 \<Rightarrow> 'd \<Rightarrow> bool \<times> 'd"

section \<open>Data\<close>

record partition =
  start_lba :: u32
  sector_counter :: u32
  my_disk :: u32
  part_name :: "u8 list"

record disk =
  disk_name :: "u8 list"
  my_channel :: u32
  dev_no :: u8

record ide_channel =
  channel_name :: "u8 list"
  port_base :: u16
  interrupt_number :: u8
  expection_interrupt :: bool

record 'd ide_state = sys_state +
  channels :: "u32 \<Rightarrow> ide_channel"
  disks :: "u32 \<Rightarrow> disk"
  partitions :: "u32 \<Rightarrow> partition"
  channel_cnt :: u8
  ide_channels :: u32
  extra_lba_base :: u32
  primary_idx :: u8
  logic_idx :: u8
  partition_list :: u32
  hw_state :: 'd

definition channel_addr :: "u32 \<Rightarrow> u32 \<Rightarrow> u32" where "channel_addr base i = base + 1632 * i"
definition channel_lock :: "u32 \<Rightarrow> u32" where "channel_lock c = c + 12"
definition disk_done_sem :: "u32 \<Rightarrow> u32" where "disk_done_sem c = c + 44"
definition disk_addr :: "u32 \<Rightarrow> u32 \<Rightarrow> u32" where "disk_addr c n = c + 64 + 784 * n"
definition prim_parts :: "u32 \<Rightarrow> u32 \<Rightarrow> u32" where "prim_parts hdd i = hdd + 16 + 64 * i"
definition logic_parts :: "u32 \<Rightarrow> u32 \<Rightarrow> u32" where "logic_parts hdd i = hdd + 272 + 64 * i"
definition part_tag :: "u32 \<Rightarrow> u32" where "part_tag p = p + 12"
definition part_name_addr :: "u32 \<Rightarrow> u32" where "part_name_addr p = p + 20"
definition part_of_tag :: "u32 \<Rightarrow> u32" where "part_of_tag t = t - 12"

definition upd_channel :: "u32 \<Rightarrow> (ide_channel \<Rightarrow> ide_channel) \<Rightarrow> ('d, 'a) ide_state_scheme \<Rightarrow> ('d, 'a) ide_state_scheme" where
  "upd_channel c f s = s\<lparr>channels := (channels s)(c := f (channels s c))\<rparr>"

definition upd_disk :: "u32 \<Rightarrow> (disk \<Rightarrow> disk) \<Rightarrow> ('d, 'a) ide_state_scheme \<Rightarrow> ('d, 'a) ide_state_scheme" where
  "upd_disk d f s = s\<lparr>disks := (disks s)(d := f (disks s d))\<rparr>"

definition upd_part :: "u32 \<Rightarrow> (partition \<Rightarrow> partition) \<Rightarrow> ('d, 'a) ide_state_scheme \<Rightarrow> ('d, 'a) ide_state_scheme" where
  "upd_part p f s = s\<lparr>partitions := (partitions s)(p := f (partitions s p))\<rparr>"

definition reg_data :: "ide_channel \<Rightarrow> u16" where "reg_data channel = port_base channel + 0"
definition reg_sector_count :: "ide_channel \<Rightarrow> u16" where "reg_sector_count channel = port_base channel + 2"
definition reg_lba_l :: "ide_channel \<Rightarrow> u16" where "reg_lba_l channel = port_base channel + 3"
definition reg_lba_m :: "ide_channel \<Rightarrow> u16" where "reg_lba_m channel = port_base channel + 4"
definition reg_lba_h :: "ide_channel \<Rightarrow> u16" where "reg_lba_h channel = port_base channel + 5"
definition reg_dev :: "ide_channel \<Rightarrow> u16" where "reg_dev channel = port_base channel + 6"
definition reg_status :: "ide_channel \<Rightarrow> u16" where "reg_status channel = port_base channel + 7"
definition reg_cmd :: "ide_channel \<Rightarrow> u16" where "reg_cmd channel = reg_status channel"

definition BIT_ALT_STAT_BUSY :: u8 where "BIT_ALT_STAT_BUSY = 0x80"
definition BIT_ALT_STAT_DATA_READY :: u8 where "BIT_ALT_STAT_DATA_READY = 0x8"
definition BIT_DEV_DEFAULT :: u8 where "BIT_DEV_DEFAULT = 0xa0"
definition BIT_DEV_LBA :: u8 where "BIT_DEV_LBA = 0x40"
definition BIT_DEV_DEV :: u8 where "BIT_DEV_DEV = 0x10"
definition CMD_IDENTIFY :: u8 where "CMD_IDENTIFY = 0xec"
definition CMD_READ_SECTOR :: u8 where "CMD_READ_SECTOR = 0x20"
definition CMD_WRITE_SECTOR :: u8 where "CMD_WRITE_SECTOR = 0x30"
definition max_lba :: u32 where "max_lba = (80 * 1024 * 1024 div 512) - 1"

section \<open>Access to the ports\<close>

definition disk_out :: "'d ata \<Rightarrow> u16 \<Rightarrow> u8 \<Rightarrow> ('d, 'a) ide_state_scheme \<Rightarrow> ('d, 'a) ide_state_scheme" where
  "disk_out hw port data s = (out_byte port data s)\<lparr>hw_state := ata_out hw port data (hw_state s)\<rparr>"

definition in_byte :: "'d ata \<Rightarrow> u16 \<Rightarrow> ('d, 'a) ide_state_scheme \<Rightarrow> u8 \<times> ('d, 'a) ide_state_scheme" where
  "in_byte hw port s = (let (v, d) = ata_in hw port (hw_state s) in (v, s\<lparr>hw_state := d\<rparr>))"

text \<open>The words of \<^verbatim>\<open>insw\<close> and \<^verbatim>\<open>outsw\<close> have their low byte first.\<close>

definition word_bytes :: "u16 \<Rightarrow> u8 list" where
  "word_bytes w = [ucast w, ucast (drop_bit 8 w)]"

fun byte_words :: "u8 list \<Rightarrow> u16 list" where
  "byte_words (l # h # bs) = (ucast l OR push_bit 8 (ucast h)) # byte_words bs"
| "byte_words _ = []"

definition put_bytes :: "u8 list \<Rightarrow> nat \<Rightarrow> u8 list \<Rightarrow> error + u8 list" where
  "put_bytes obj pos bs =
     (if pos + length bs \<le> length obj then Inr (take pos obj @ bs @ drop (pos + length bs) obj) else Inl Out_of_bounds)"

definition get_bytes :: "u8 list \<Rightarrow> nat \<Rightarrow> nat \<Rightarrow> error + u8 list" where
  "get_bytes obj pos n = (if pos + n \<le> length obj then Inr (take n (drop pos obj)) else Inl Out_of_bounds)"

definition in_multibyte :: "'d ata \<Rightarrow> u16 \<Rightarrow> u8 list \<Rightarrow> nat \<Rightarrow> u32 \<Rightarrow> ('d, 'a) ide_state_scheme \<Rightarrow> error + (u8 list \<times> ('d, 'a) ide_state_scheme)" where
  "in_multibyte hw port obj pos count s =
     (let (ws, d) = ata_ins hw port (unat count) (hw_state s) in
      bnd (put_bytes obj pos (concat (map word_bytes ws))) (\<lambda>obj. Inr (obj, s\<lparr>hw_state := d\<rparr>)))"

definition out_multibyte :: "'d ata \<Rightarrow> u16 \<Rightarrow> u8 list \<Rightarrow> nat \<Rightarrow> u32 \<Rightarrow> ('d, 'a) ide_state_scheme \<Rightarrow> error + ('d, 'a) ide_state_scheme" where
  "out_multibyte hw port obj pos count s =
     bnd (get_bytes obj pos (2 * unat count)) (\<lambda>bs.
     Inr (s\<lparr>hw_state := ata_outs hw port (byte_words bs) (hw_state s)\<rparr>))"

section \<open>Commands\<close>

definition channel_of :: "u32 \<Rightarrow> ('d, 'a) ide_state_scheme \<Rightarrow> ide_channel" where
  "channel_of hdd s = channels s (my_channel (disks s hdd))"

definition select_disk :: "'d ata \<Rightarrow> u32 \<Rightarrow> ('d, 'a) ide_state_scheme \<Rightarrow> ('d, 'a) ide_state_scheme" where
  "select_disk hw hdd s =
     (let reg_device = BIT_DEV_LBA OR BIT_DEV_DEFAULT;
          reg_device = (if dev_no (disks s hdd) = 1 then reg_device OR BIT_DEV_DEV else reg_device)
      in disk_out hw (reg_dev (channel_of hdd s)) reg_device s)"

definition select_sector :: "'d ata \<Rightarrow> u32 \<Rightarrow> u32 \<Rightarrow> u8 \<Rightarrow> ('d, 'a) ide_state_scheme \<Rightarrow> error + ('d, 'a) ide_state_scheme" where
  "select_sector hw hdd lba sec_cnt s =
     bnd (ASSERT (lba \<le> max_lba) ''lba <= max_lba'') (\<lambda>_.
     let c = channel_of hdd s;
         s = disk_out hw (reg_sector_count c) sec_cnt s;
         s = disk_out hw (reg_lba_l c) (ucast lba) s;
         s = disk_out hw (reg_lba_m c) (ucast (drop_bit 8 lba)) s;
         s = disk_out hw (reg_lba_h c) (ucast (drop_bit 16 lba)) s;
         last_8_bits = BIT_DEV_DEFAULT OR BIT_DEV_LBA OR (if dev_no (disks s hdd) = 1 then BIT_DEV_DEV else 0) OR ucast (drop_bit 24 lba)
     in Inr (disk_out hw (reg_dev c) last_8_bits s))"

definition cmd_out :: "'d ata \<Rightarrow> u32 \<Rightarrow> u8 \<Rightarrow> ('d, 'a) ide_state_scheme \<Rightarrow> error + ('d, 'a) ide_state_scheme" where
  "cmd_out hw channel cmd s =
     bnd (ASSERT (channel \<noteq> 0) ''channel != 0'') (\<lambda>_.
     let s = upd_channel channel (\<lambda>c. c\<lparr>expection_interrupt := True\<rparr>) s
     in Inr (disk_out hw (reg_cmd (channels s channel)) cmd s))"

definition bytes_cnt :: "u8 \<Rightarrow> u32" where
  "bytes_cnt sec_cnt = (if sec_cnt = 0 then 256 * 512 else ucast sec_cnt * 512)"

definition read_from_sector :: "'d ata \<Rightarrow> u32 \<Rightarrow> u8 list \<Rightarrow> nat \<Rightarrow> u8 \<Rightarrow> ('d, 'a) ide_state_scheme \<Rightarrow> error + (u8 list \<times> ('d, 'a) ide_state_scheme)" where
  "read_from_sector hw hdd obj pos sec_cnt s = in_multibyte hw (reg_data (channel_of hdd s)) obj pos (bytes_cnt sec_cnt div 2) s"

definition write_to_sector :: "'d ata \<Rightarrow> u32 \<Rightarrow> u8 list \<Rightarrow> nat \<Rightarrow> u8 \<Rightarrow> ('d, 'a) ide_state_scheme \<Rightarrow> error + ('d, 'a) ide_state_scheme" where
  "write_to_sector hw hdd obj pos sec_cnt s = out_multibyte hw (reg_data (channel_of hdd s)) obj pos (bytes_cnt sec_cnt div 2) s"

text \<open>The number of rounds left; 0 would be decremented to the largest value.\<close>

definition wait_measure :: "u16 \<Rightarrow> nat" where
  "wait_measure t = (if t = 0 then 0x10000 else unat t)"

lemma wait_measure_less: "t - 1 \<noteq> 0 \<Longrightarrow> wait_measure (t - 1) < wait_measure t"
proof -
  assume a: "t - 1 \<noteq> 0"
  show ?thesis
  proof (cases "t = 0")
    case True
    then show ?thesis using unsigned_less[of "t - 1"] a by (simp add: wait_measure_def)
  next
    case False
    then have "unat (t - 1) = unat t - 1" "0 < unat t" by (simp_all add: unat_minus_one unat_gt_0)
    then show ?thesis using a False by (simp add: wait_measure_def)
  qed
qed

text \<open>
  The condition \<^verbatim>\<open>time_limit -= 10 >= 0\<close> subtracts the value of \<^verbatim>\<open>10 >= 0\<close>, which is 1.
\<close>

function busy_wait_loop :: "'d ata \<Rightarrow> u32 \<Rightarrow> u16 \<Rightarrow> ('d, 'a) ide_state_scheme \<Rightarrow> error + (bool \<times> ('d, 'a) ide_state_scheme)" where
  "busy_wait_loop hw channel time_limit s =
     (if time_limit - 1 \<noteq> 0
      then let (v, s) = in_byte hw (reg_status (channels s channel)) s in
           if v AND BIT_ALT_STAT_BUSY = 0
           then let (v, s) = in_byte hw (reg_status (channels s channel)) s in Inr (v AND BIT_ALT_STAT_DATA_READY \<noteq> 0, s)
           else bnd (mtime_sleep 10 s) (\<lambda>s. busy_wait_loop hw channel (time_limit - 1) s)
      else Inr (False, s))"
  by pat_completeness auto
termination
  by (relation "measure (\<lambda>(hw, channel, t, s). wait_measure t)") (simp_all add: wait_measure_less)

definition busy_wait :: "'d ata \<Rightarrow> u32 \<Rightarrow> ('d, 'a) ide_state_scheme \<Rightarrow> error + (bool \<times> ('d, 'a) ide_state_scheme)" where
  "busy_wait hw hdd s = busy_wait_loop hw (my_channel (disks s hdd)) (30 * 1000) s"

section \<open>The interrupt\<close>

definition intr_hd_handler :: "'d ata \<Rightarrow> u8 \<Rightarrow> ('d, 'a) ide_state_scheme \<Rightarrow> error + ('d, 'a) ide_state_scheme" where
  "intr_hd_handler hw irq_no s =
     bnd (ASSERT (irq_no = 0x2e \<or> irq_no = 0x2f) ''irq_no == 0x2e || irq_no == 0x2f'') (\<lambda>_.
     let idx = irq_no - 0x2e;
         channel = channel_addr (ide_channels s) (ucast idx)
     in if expection_interrupt (channels s channel)
        then let s = upd_channel channel (\<lambda>c. c\<lparr>expection_interrupt := False\<rparr>) s in
             bnd (sem_up (disk_done_sem channel) s) (\<lambda>s.
             Inr (snd (in_byte hw (reg_status (channels s channel)) s)))
        else Inr s)"

text \<open>The interrupt of the disk, if it is there and interrupts are open: the gate closes them, and the return opens them.\<close>

definition disk_interrupt :: "'d ata \<Rightarrow> u8 \<Rightarrow> ('d, 'a) ide_state_scheme \<Rightarrow> error + ('d, 'a) ide_state_scheme" where
  "disk_interrupt hw irq_no s =
     (if intr_get_status s = INTR_ON
      then let (pending, d) = ata_irq hw irq_no (hw_state s) in
           if pending then bnd (intr_hd_handler hw irq_no (cli (s\<lparr>hw_state := d\<rparr>))) (\<lambda>t. Inr (t\<lparr>eflags := eflags s\<rparr>))
           else Inr s
      else Inr s)"

definition wait_done :: "'d ata \<Rightarrow> u32 \<Rightarrow> ('d, 'a) ide_state_scheme \<Rightarrow> error + ('d, 'a) ide_state_scheme" where
  "wait_done hw hdd s =
     bnd (disk_interrupt hw (interrupt_number (channel_of hdd s)) s) (\<lambda>s.
     let sem = disk_done_sem (my_channel (disks s hdd)) in
     if sem_value s sem = 0 then Inl Blocked else sem_down sem s)"

section \<open>Reading and writing sectors\<close>

text \<open>
  A failed command ends in a report; the outcome carries the fixed part of its text, which the source
  completes by the name of the disk and the sector.
\<close>

definition chunk :: "u32 \<Rightarrow> u32 \<Rightarrow> u32" where
  "chunk sec_cnt sec_done = (if sec_cnt - sec_done \<ge> 256 then 256 else sec_cnt - sec_done)"

lemma chunk_step:
  assumes "sec_done < sec_cnt"
  shows "unat (sec_done + chunk sec_cnt sec_done) = unat sec_done + unat (chunk sec_cnt sec_done)"
    "unat sec_done + unat (chunk sec_cnt sec_done) \<le> unat sec_cnt" "0 < unat (chunk sec_cnt sec_done)" "unat (chunk sec_cnt sec_done) \<le> 256"
proof -
  have a: "unat sec_done < unat sec_cnt" "unat (sec_cnt - sec_done) = unat sec_cnt - unat sec_done"
    using assms unat_sub[of sec_done sec_cnt] by (simp_all add: word_less_nat_alt less_imp_le)
  then have c: "unat (chunk sec_cnt sec_done) = min 256 (unat sec_cnt - unat sec_done)"
    by (auto simp: chunk_def word_le_nat_alt)
  show l: "unat sec_done + unat (chunk sec_cnt sec_done) \<le> unat sec_cnt" "0 < unat (chunk sec_cnt sec_done)" "unat (chunk sec_cnt sec_done) \<le> 256"
    using a c by auto
  have "unat sec_cnt < 2 ^ LENGTH(32)" by (rule unsigned_less)
  then have "unat sec_done + unat (chunk sec_cnt sec_done) < 2 ^ LENGTH(32)" using l(1) by linarith
  then show "unat (sec_done + chunk sec_cnt sec_done) = unat sec_done + unat (chunk sec_cnt sec_done)"
    by (rule unat_add_lem[THEN iffD1])
qed

function ide_read_loop :: "'d ata \<Rightarrow> u32 \<Rightarrow> u32 \<Rightarrow> u8 list \<Rightarrow> u32 \<Rightarrow> u32 \<Rightarrow> ('d, 'a) ide_state_scheme \<Rightarrow> error + (u8 list \<times> ('d, 'a) ide_state_scheme)" where
  "ide_read_loop hw hdd lba obj sec_cnt sec_done s =
     (if sec_done < sec_cnt
      then let sec_op = chunk sec_cnt sec_done in
           bnd (select_sector hw hdd (lba + sec_done) (ucast sec_op) s) (\<lambda>s.
           bnd (cmd_out hw (my_channel (disks s hdd)) CMD_READ_SECTOR s) (\<lambda>s.
           bnd (wait_done hw hdd s) (\<lambda>s.
           bnd (busy_wait hw hdd s) (\<lambda>(ok, s).
           if \<not> ok then Inl (Exception ''read sector failed'')
           else bnd (read_from_sector hw hdd obj (512 * unat sec_done) (ucast sec_op) s) (\<lambda>(obj, s).
                ide_read_loop hw hdd lba obj sec_cnt (sec_done + sec_op) s)))))
      else Inr (obj, s))"
  by pat_completeness auto
termination
  by (relation "measure (\<lambda>(hw, hdd, lba, obj, sec_cnt, sec_done, s). unat sec_cnt - unat sec_done)")
    (use chunk_step in \<open>force simp: word_less_nat_alt\<close>)+

definition ide_read :: "'d ata \<Rightarrow> u32 \<Rightarrow> u32 \<Rightarrow> u8 list \<Rightarrow> u32 \<Rightarrow> ('d, 'a) ide_state_scheme \<Rightarrow> error + (u8 list \<times> ('d, 'a) ide_state_scheme)" where
  "ide_read hw hdd lba obj sec_cnt s =
     bnd (ASSERT (lba \<le> max_lba) ''lba <= max_lba'') (\<lambda>_.
     bnd (ASSERT (sec_cnt > 0) ''sec_cnt > 0'') (\<lambda>_.
     bnd (lock_acquire_now (channel_lock (my_channel (disks s hdd))) s) (\<lambda>s.
     let s = select_disk hw hdd s in
     bnd (ide_read_loop hw hdd lba obj sec_cnt 0 s) (\<lambda>(obj, s).
     bnd (lock_release (channel_lock (my_channel (disks s hdd))) s) (\<lambda>s. Inr (obj, s))))))"

function ide_write_loop :: "'d ata \<Rightarrow> u32 \<Rightarrow> u32 \<Rightarrow> u8 list \<Rightarrow> u32 \<Rightarrow> u32 \<Rightarrow> ('d, 'a) ide_state_scheme \<Rightarrow> error + ('d, 'a) ide_state_scheme" where
  "ide_write_loop hw hdd lba obj sec_cnt sec_done s =
     (if sec_done < sec_cnt
      then let sec_op = chunk sec_cnt sec_done in
           bnd (select_sector hw hdd (lba + sec_done) (ucast sec_op) s) (\<lambda>s.
           bnd (cmd_out hw (my_channel (disks s hdd)) CMD_WRITE_SECTOR s) (\<lambda>s.
           bnd (busy_wait hw hdd s) (\<lambda>(ok, s).
           if \<not> ok then Inl (Exception ''write sector failed'')
           else bnd (write_to_sector hw hdd obj (512 * unat sec_done) (ucast sec_op) s) (\<lambda>s.
                bnd (wait_done hw hdd s) (\<lambda>s.
                ide_write_loop hw hdd lba obj sec_cnt (sec_done + sec_op) s)))))
      else Inr s)"
  by pat_completeness auto
termination
  by (relation "measure (\<lambda>(hw, hdd, lba, obj, sec_cnt, sec_done, s). unat sec_cnt - unat sec_done)")
    (use chunk_step in \<open>force simp: word_less_nat_alt\<close>)+

definition ide_write :: "'d ata \<Rightarrow> u32 \<Rightarrow> u32 \<Rightarrow> u8 list \<Rightarrow> u32 \<Rightarrow> ('d, 'a) ide_state_scheme \<Rightarrow> error + ('d, 'a) ide_state_scheme" where
  "ide_write hw hdd lba obj sec_cnt s =
     bnd (ASSERT (lba \<le> max_lba) ''lba <= max_lba'') (\<lambda>_.
     bnd (ASSERT (sec_cnt > 0) ''sec_cnt > 0'') (\<lambda>_.
     bnd (lock_acquire_now (channel_lock (my_channel (disks s hdd))) s) (\<lambda>s.
     let s = select_disk hw hdd s in
     bnd (ide_write_loop hw hdd lba obj sec_cnt 0 s) (\<lambda>s.
     lock_release (channel_lock (my_channel (disks s hdd))) s))))"

section \<open>Identification\<close>

text \<open>The index is of 8 bits: for a length above 254 it starts again, and the source is left.\<close>

function swap_pairs_loop :: "u8 list \<Rightarrow> nat \<Rightarrow> u8 list \<Rightarrow> u32 \<Rightarrow> u8 \<Rightarrow> error + u8 list" where
  "swap_pairs_loop src p obj len idx =
     (if ucast idx < len
      then if p + 1 < length src
           then bnd (put_at obj (unat idx + 1) (src ! p)) (\<lambda>obj.
                bnd (put_at obj (unat idx) (src ! (p + 1))) (\<lambda>obj.
                swap_pairs_loop src (p + 2) obj len (idx + 2)))
           else Inl Out_of_bounds
      else put_at obj (unat idx) 0)"
  by pat_completeness auto
termination
  by (relation "measure (\<lambda>(src, p, obj, len, idx). length src - p)") auto

definition swap_pairs_bytes :: "u8 list \<Rightarrow> nat \<Rightarrow> u8 list \<Rightarrow> u32 \<Rightarrow> error + u8 list" where
  "swap_pairs_bytes src p obj len = swap_pairs_loop src p obj len 0"

definition le32 :: "u8 list \<Rightarrow> nat \<Rightarrow> u32" where
  "le32 bs p = ucast (bs ! p) OR push_bit 8 (ucast (bs ! (p + 1))) OR push_bit 16 (ucast (bs ! (p + 2))) OR push_bit 24 (ucast (bs ! (p + 3)))"

text \<open>
  The buffer for the strings stands on the stack, at an address that is not the one of the disk;
  its bytes are written before they are read.
\<close>

definition identify_disk :: "'d ata \<Rightarrow> u32 \<Rightarrow> ('d, 'a) ide_state_scheme \<Rightarrow> error + ('d, 'a) ide_state_scheme" where
  "identify_disk hw hdd s =
     (let s = select_disk hw hdd s;
          strings = (\<lambda>bs s a. if a = hdd then disk_name (disks s hdd) else bs)
      in bnd (cmd_out hw (my_channel (disks s hdd)) CMD_IDENTIFY s) (\<lambda>s.
         bnd (wait_done hw hdd s) (\<lambda>s.
         bnd (busy_wait hw hdd s) (\<lambda>(ok, s).
         if \<not> ok then Inl (Exception ''identify failed'')
         else bnd (read_from_sector hw hdd (replicate 512 0) 0 1 s) (\<lambda>(hd_info, s).
              bnd (swap_pairs_bytes hd_info 20 (replicate 64 0) 20) (\<lambda>bs.
              bnd (printk (strings bs s) (c_string '' disk %s info: \<newline>  SN: %s\<newline>'') [hdd, hdd + 1] s) (\<lambda>(_, s).
              bnd (memset (Some (bs, 0)) 0 64) (\<lambda>bs.
              bnd (swap_pairs_bytes hd_info 54 bs 40) (\<lambda>bs.
              bnd (printk (strings bs s) (c_string ''  MODULE: %s\<newline>'') [hdd + 1] s) (\<lambda>(_, s).
              let sectors = le32 hd_info 120 in
              bnd (printk (strings bs s) (c_string ''  SECTORS: %d\<newline>'') [sectors] s) (\<lambda>(_, s).
              bnd (printk (strings bs s) (c_string ''  CAPACITY: %d\<newline>'') [sectors * 512 div 1024 div 1024] s) (\<lambda>(_, s).
              Inr s))))))))))))"

section \<open>Partitions\<close>

record partition_table_entry =
  bootable :: u8
  start_head :: u8
  start_sec :: u8
  start_chs :: u8
  fs_type :: u8
  end_head :: u8
  end_sec :: u8
  end_chs :: u8
  entry_start_lba :: u32
  entry_sec_cnt :: u32

definition partition_entry :: "u8 list \<Rightarrow> nat \<Rightarrow> partition_table_entry" where
  "partition_entry bs i =
     (let p = 446 + 16 * i in
      \<lparr>bootable = bs ! p, start_head = bs ! (p + 1), start_sec = bs ! (p + 2), start_chs = bs ! (p + 3), fs_type = bs ! (p + 4),
       end_head = bs ! (p + 5), end_sec = bs ! (p + 6), end_chs = bs ! (p + 7), entry_start_lba = le32 bs (p + 8), entry_sec_cnt = le32 bs (p + 12)\<rparr>)"

definition add_partition :: "u32 \<Rightarrow> u32 \<Rightarrow> u32 \<Rightarrow> u32 \<Rightarrow> partition_table_entry \<Rightarrow> ('d, 'a) ide_state_scheme \<Rightarrow> error + ('d, 'a) ide_state_scheme" where
  "add_partition hdd part number ext_lba p s =
     (let s = upd_part part (\<lambda>q. q\<lparr>start_lba := ext_lba + entry_start_lba p\<rparr>) s;
          s = upd_part part (\<lambda>q. q\<lparr>sector_counter := entry_sec_cnt p\<rparr>) s;
          s = upd_part part (\<lambda>q. q\<lparr>my_disk := hdd\<rparr>) s;
          s = list_append (partition_list s) (part_tag part) s
      in bnd (sprintf (\<lambda>_. disk_name (disks s hdd)) (part_name (partitions s part)) (c_string ''%s%d'') [hdd, number]) (\<lambda>(_, nm).
         Inr (upd_part part (\<lambda>q. q\<lparr>part_name := nm\<rparr>) s)))"

text \<open>
  The loop over the entries of a table; \<open>call\<close> is the call for a table further on. \<open>False\<close> when the loop was left by
  \<^verbatim>\<open>return\<close>.
\<close>

fun scan_entries :: "(u32 \<Rightarrow> ('d, 'a) ide_state_scheme \<Rightarrow> error + ('d, 'a) ide_state_scheme) \<Rightarrow> u32 \<Rightarrow> u32 \<Rightarrow>
    partition_table_entry list \<Rightarrow> ('d, 'a) ide_state_scheme \<Rightarrow> error + (bool \<times> ('d, 'a) ide_state_scheme)" where
  "scan_entries call hdd ext_lba [] s = Inr (True, s)"
| "scan_entries call hdd ext_lba (p # ps) s =
     (if fs_type p = 0x5
      then bnd (if extra_lba_base s \<noteq> 0 then call (entry_start_lba p + extra_lba_base s) s
                else call (entry_start_lba p) (s\<lparr>extra_lba_base := entry_start_lba p\<rparr>)) (\<lambda>s.
           scan_entries call hdd ext_lba ps s)
      else if fs_type p \<noteq> 0
      then if ext_lba = 0
           then bnd (add_partition hdd (prim_parts hdd (ucast (primary_idx s))) (ucast (primary_idx s) + 1) ext_lba p s) (\<lambda>s.
                let s = s\<lparr>primary_idx := primary_idx s + 1\<rparr> in
                bnd (ASSERT (primary_idx s < 4) ''primary_idx < 4'') (\<lambda>_.
                scan_entries call hdd ext_lba ps s))
           else bnd (add_partition hdd (logic_parts hdd (ucast (logic_idx s))) (ucast (logic_idx s) + 5) ext_lba p s) (\<lambda>s.
                let s = s\<lparr>logic_idx := logic_idx s + 1\<rparr> in
                if logic_idx s \<ge> 8 then Inr (False, s) else scan_entries call hdd ext_lba ps s)
      else scan_entries call hdd ext_lba ps s)"

text \<open>
  The recursion follows the chain of tables on the disk, which may lead back to itself: \<open>fuel\<close>
  bounds its depth. \<^verbatim>\<open>sys_malloc\<close> gives a cleared block; when it has none, the sector goes to
  address 0, which is not modelled.
\<close>

fun partition_scan :: "nat \<Rightarrow> 'd ata \<Rightarrow> u32 \<Rightarrow> u32 \<Rightarrow> ('d, 'a) ide_state_scheme \<Rightarrow> error + ('d, 'a) ide_state_scheme" where
  "partition_scan 0 hw hdd ext_lba s = Inl Diverges"
| "partition_scan (Suc fuel) hw hdd ext_lba s =
     bnd (sys_malloc 512 s) (\<lambda>(bs, s).
     bnd (ide_read hw hdd ext_lba (replicate 512 0) 1 s) (\<lambda>(obj, s).
     bnd (scan_entries (partition_scan fuel hw hdd) hdd ext_lba (map (partition_entry obj) [0..<4]) s) (\<lambda>(done, s).
     if done then sys_free bs s else Inr s)))"

definition partition_info :: "u32 \<Rightarrow> u32 \<Rightarrow> ('d, 'a) ide_state_scheme \<Rightarrow> error + (bool \<times> ('d, 'a) ide_state_scheme)" where
  "partition_info pelem arg s =
     (let part = part_of_tag pelem in
      bnd (printk (\<lambda>_. part_name (partitions s part)) (c_string ''  %s start_lba: 0x%x, sec_cnt: 0x%x\<newline>'')
         [part_name_addr part, start_lba (partitions s part), sector_counter (partitions s part)] s) (\<lambda>(_, s).
      Inr (False, s)))"

section \<open>Set-up\<close>

fun init_disks :: "nat \<Rightarrow> 'd ata \<Rightarrow> u8 \<Rightarrow> u32 \<Rightarrow> u8 list \<Rightarrow> ('d, 'a) ide_state_scheme \<Rightarrow> error + ('d, 'a) ide_state_scheme" where
  "init_disks fuel hw channelogic_idx channel [] s = Inr s"
| "init_disks fuel hw channelogic_idx channel (n # ns) s =
     (let hdd = disk_addr channel (ucast n);
          s = upd_disk hdd (\<lambda>d. d\<lparr>my_channel := channel, dev_no := n\<rparr>) s
      in bnd (sprintf (\<lambda>_. []) (disk_name (disks s hdd)) (c_string ''sd%c'') [97 + ucast channelogic_idx * 2 + ucast n]) (\<lambda>(_, nm).
         let s = upd_disk hdd (\<lambda>d. d\<lparr>disk_name := nm\<rparr>) s in
         bnd (identify_disk hw hdd s) (\<lambda>s.
         bnd (if n \<noteq> 0 then partition_scan fuel hw hdd 0 s else Inr s) (\<lambda>s.
         init_disks fuel hw channelogic_idx channel ns (s\<lparr>primary_idx := 0, logic_idx := 0\<rparr>)))))"

definition init_channel :: "nat \<Rightarrow> 'd ata \<Rightarrow> u8 \<Rightarrow> ('d, 'a) ide_state_scheme \<Rightarrow> error + ('d, 'a) ide_state_scheme" where
  "init_channel fuel hw channelogic_idx s =
     (if channelogic_idx \<ge> 2 then Inl Out_of_bounds
      else let channel = channel_addr (ide_channels s) (ucast channelogic_idx) in
           bnd (sprintf (\<lambda>_. []) (channel_name (channels s channel)) (c_string ''ide%d'') [ucast channelogic_idx]) (\<lambda>(_, nm).
           let s = upd_channel channel (\<lambda>c. c\<lparr>channel_name := nm\<rparr>) s;
               s = upd_channel channel (\<lambda>c. if channelogic_idx = 0 then c\<lparr>port_base := 0x1f0, interrupt_number := 0x20 + 14\<rparr>
                     else c\<lparr>port_base := 0x170, interrupt_number := 0x20 + 15\<rparr>) s;
               s = upd_channel channel (\<lambda>c. c\<lparr>expection_interrupt := False\<rparr>) s;
               s = lock_init (channel_lock channel) s;
               s = sem_init (disk_done_sem channel) 0 s
           in bnd (register_handler (interrupt_number (channels s channel)) intr_hd_handler_p s) (\<lambda>s.
              init_disks fuel hw channelogic_idx channel [0, 1] s)))"

fun init_channels :: "nat \<Rightarrow> 'd ata \<Rightarrow> u8 \<Rightarrow> nat \<Rightarrow> ('d, 'a) ide_state_scheme \<Rightarrow> error + ('d, 'a) ide_state_scheme" where
  "init_channels fuel hw channelogic_idx 0 s = Inr s"
| "init_channels fuel hw channelogic_idx (Suc n) s =
     bnd (init_channel fuel hw channelogic_idx s) (\<lambda>s. init_channels fuel hw (channelogic_idx + 1) n s)"

text \<open>The number of disks is the byte the BIOS leaves at 0x475.\<close>

definition ide_init :: "nat \<Rightarrow> 'd ata \<Rightarrow> ('d, 'a) ide_state_scheme \<Rightarrow> error + ('d, 'a) ide_state_scheme" where
  "ide_init fuel hw s =
     bnd (printk (\<lambda>_. []) (c_string ''ide_init start\<newline>'') [] s) (\<lambda>(_, s).
     bnd (load_word 0x474 s) (\<lambda>w.
     let hd_cnt = ucast (drop_bit 8 w) :: u8 in
     bnd (printk (\<lambda>_. []) (c_string ''   ide_init hd_cnt:%d\<newline>'') [ucast hd_cnt] s) (\<lambda>(_, s).
     bnd (ASSERT (hd_cnt > 0) ''hd_cnt > 0'') (\<lambda>_.
     let s = list_init (partition_list s) s;
         s = s\<lparr>channel_cnt := ucast ((ucast hd_cnt + 2 - 1) div 2 :: u32)\<rparr>;
         s = putInt (ucast (channel_cnt s)) s
     in bnd (init_channels fuel hw 0 (unat (channel_cnt s)) s) (\<lambda>s.
        bnd (printk (\<lambda>_. []) (c_string ''\<newline>   all partition info\<newline>'') [] s) (\<lambda>(_, s).
        bnd (list_traveral (partition_list s) partition_info 0 s) (\<lambda>(_, s).
        bnd (printk (\<lambda>_. []) (c_string ''ide_init done\<newline>'') [] s) (\<lambda>(_, s).
        Inr s))))))))"
end
