(* ===== verification/Disk.thy ===== *)
theory Disk
  imports Ide
begin

text \<open>
  The disk driver (theory Ide) on a disk that behaves as the ATA documents say, the predicate
  \<open>ata_disk\<close>: what \<^verbatim>\<open>ide_write\<close> writes, \<^verbatim>\<open>ide_read\<close> reads back.
\<close>

declare busy_wait_loop.simps [simp del] ide_read_loop.simps [simp del] ide_write_loop.simps [simp del]

section \<open>The documented behaviour of the disk\<close>

text \<open>
  What the driver relies on. The registers of the command block keep what is written to them. A
  command takes its drive, sector and count from them (a count of 0 stands for 256); the disk may then be busy for a number of
  polls of its status, and afterwards asks for the transfer of the data. It raises an interrupt when the
  data of a read are there, and when the data of a write have been taken. Reading the status takes the
  interrupt back.
\<close>

datatype ata_mode = Idle | Reading bool nat nat | Writing bool nat nat

record 'd ata_view =
  regs :: "'d \<Rightarrow> nat \<Rightarrow> u8"
  mode :: "'d \<Rightarrow> ata_mode"
  media :: "'d \<Rightarrow> bool \<Rightarrow> nat \<Rightarrow> u8 list"
  pending :: "'d \<Rightarrow> bool"
  polls :: "'d \<Rightarrow> nat"

definition reg_drive :: "(nat \<Rightarrow> u8) \<Rightarrow> bool" where "reg_drive r = bit (r 6) 4"
definition reg_count :: "(nat \<Rightarrow> u8) \<Rightarrow> nat" where "reg_count r = (if r 2 = 0 then 256 else unat (r 2))"
definition reg_lba :: "(nat \<Rightarrow> u8) \<Rightarrow> nat" where
  "reg_lba r = unat (r 3) + 0x100 * unat (r 4) + 0x10000 * unat (r 5) + 0x1000000 * unat (r 6 AND 0xf)"

definition stored :: "bool \<Rightarrow> nat \<Rightarrow> nat \<Rightarrow> u8 list \<Rightarrow> (bool \<Rightarrow> nat \<Rightarrow> u8 list) \<Rightarrow> (bool \<Rightarrow> nat \<Rightarrow> u8 list)" where
  "stored dr l n bs m = (\<lambda>dr' k. if dr' = dr \<and> l \<le> k \<and> k < l + n then take 512 (drop (512 * (k - l)) bs) else m dr' k)"

definition sectors :: "(bool \<Rightarrow> nat \<Rightarrow> u8 list) \<Rightarrow> bool \<Rightarrow> nat \<Rightarrow> nat \<Rightarrow> u8 list" where
  "sectors m dr l n = concat (map (m dr) [l..<l + n])"

definition ata_registers :: "'d ata \<Rightarrow> u16 \<Rightarrow> 'd ata_view \<Rightarrow> bool" where
  "ata_registers hw base V \<longleftrightarrow> (\<forall>i v d. 2 \<le> i \<and> i \<le> 6 \<longrightarrow> (let d' = ata_out hw (base + of_nat i) v d in
     regs V d' = (regs V d)(i := v) \<and> mode V d' = mode V d \<and> media V d' = media V d \<and> pending V d' = pending V d))"

definition ata_commands :: "'d ata \<Rightarrow> u16 \<Rightarrow> 'd ata_view \<Rightarrow> bool" where
  "ata_commands hw base V \<longleftrightarrow> (\<forall>d. mode V d = Idle \<longrightarrow>
     (let r = ata_out hw (base + 7) CMD_READ_SECTOR d; w = ata_out hw (base + 7) CMD_WRITE_SECTOR d in
      mode V r = Reading (reg_drive (regs V d)) (reg_lba (regs V d)) (reg_count (regs V d)) \<and> media V r = media V d \<and> pending V r \<and> polls V r < 29998 \<and>
      mode V w = Writing (reg_drive (regs V d)) (reg_lba (regs V d)) (reg_count (regs V d)) \<and> media V w = media V d \<and> \<not> pending V w \<and> polls V w < 29998))"

definition ata_status :: "'d ata \<Rightarrow> u16 \<Rightarrow> 'd ata_view \<Rightarrow> bool" where
  "ata_status hw base V \<longleftrightarrow> (\<forall>d. let (v, d') = ata_in hw (base + 7) d in
     mode V d' = mode V d \<and> media V d' = media V d \<and> \<not> pending V d' \<and> polls V d' = polls V d - 1 \<and>
     (bit v 7 \<longleftrightarrow> 0 < polls V d) \<and> (polls V d = 0 \<and> mode V d \<noteq> Idle \<longrightarrow> bit v 3))"

definition ata_transfers :: "'d ata \<Rightarrow> u16 \<Rightarrow> u8 \<Rightarrow> 'd ata_view \<Rightarrow> bool" where
  "ata_transfers hw base vec V \<longleftrightarrow>
     (\<forall>d dr l n. mode V d = Reading dr l n \<longrightarrow> (let (ws, d') = ata_ins hw base (256 * n) d in
        ws = byte_words (sectors (media V d) dr l n) \<and> mode V d' = Idle \<and> media V d' = media V d)) \<and>
     (\<forall>d dr l n ws. mode V d = Writing dr l n \<and> length ws = 256 * n \<longrightarrow> (let d' = ata_outs hw base ws d in
        mode V d' = Idle \<and> media V d' = stored dr l n (concat (map word_bytes ws)) (media V d) \<and> pending V d')) \<and>
     (\<forall>d. let (p, d') = ata_irq hw vec d in p = pending V d \<and> mode V d' = mode V d \<and> media V d' = media V d \<and> polls V d' = polls V d)"

definition ata_disk :: "'d ata \<Rightarrow> u16 \<Rightarrow> u8 \<Rightarrow> 'd ata_view \<Rightarrow> bool" where
  "ata_disk hw base vec V \<longleftrightarrow> ata_registers hw base V \<and> ata_commands hw base V \<and> ata_status hw base V \<and> ata_transfers hw base vec V \<and>
     (\<forall>d dr k. length (media V d dr k) = 512)"

section \<open>Steps of the driver\<close>

text \<open>What the commands of a channel change: the log of the ports, the hardware, and the flag of the channel.\<close>

definition driven :: "u32 \<Rightarrow> (u16 \<times> u8) list \<Rightarrow> 'd \<Rightarrow> bool \<Rightarrow> ('d, 'a) ide_state_scheme \<Rightarrow> ('d, 'a) ide_state_scheme" where
  "driven c x d e s = s\<lparr>ports := x, channels := (channels s)(c := (channels s c)\<lparr>expection_interrupt := e\<rparr>), hw_state := d\<rparr>"

lemma driven_driven [simp]: "driven c x' d' e' (driven c x d e s) = driven c x' d' e' s"
  by (simp add: driven_def)

lemma driven_fields [simp]:
  "hw_state (driven c x d e s) = d" "ports (driven c x d e s) = x" "disks (driven c x d e s) = disks s"
  "sem_value (driven c x d e s) = sem_value s" "locks (driven c x d e s) = locks s" "lheap (driven c x d e s) = lheap s"
  "eflags (driven c x d e s) = eflags s" "ide_channels (driven c x d e s) = ide_channels s"
  "running_thread (driven c x d e s) = running_thread s"
  "port_base (channels (driven c x d e s) c') = port_base (channels s c')"
  "interrupt_number (channels (driven c x d e s) c') = interrupt_number (channels s c')"
  "expection_interrupt (channels (driven c x d e s) c) = e"
  by (simp_all add: driven_def running_thread_def)

lemma disk_out_driven [simp]:
  "disk_out hw port v (driven c x d e s) = driven c (x @ [(port, v)]) (ata_out hw port v d) e s"
  by (simp add: disk_out_def driven_def out_byte_def)

lemma in_byte_driven [simp]:
  "in_byte hw port (driven c x d e s) = (fst (ata_in hw port d), driven c x (snd (ata_in hw port d)) e s)"
  by (simp add: in_byte_def driven_def split_def Let_def)

lemma driven_self: "s = driven c (ports s) (hw_state s) (expection_interrupt (channels s c)) s"
  by (cases s) (simp add: driven_def)

lemma lba_bytes:
  assumes "lba \<le> max_lba"
  shows "reg_lba (r(2 := n, 3 := ucast lba, 4 := ucast (drop_bit 8 lba), 5 := ucast (drop_bit 16 lba), 6 := b OR ucast (drop_bit 24 lba))) =
     unat lba + 0x1000000 * unat (b AND 0xf)"
    "ucast (drop_bit 24 lba) = (0 :: u8)"
proof -
  have m: "unat lba < 0x40000" using assms by (simp add: max_lba_def word_le_nat_alt)
  have u: "unat (ucast w :: u8) = unat w mod 256" for w :: u32 by (simp add: unsigned_ucast_eq take_bit_eq_mod)
  have t: "take_bit LENGTH(32) (unat lba) = unat lba" using m by (simp add: take_bit_nat_eq_self)
  have d: "unat (drop_bit k lba) = unat lba div 2 ^ k" for k unfolding unsigned_drop_bit_eq t by (rule drop_bit_eq_div)
  have "unat (drop_bit 24 lba) = 0" using m d[of 24] by simp
  then show z: "ucast (drop_bit 24 lba) = (0 :: u8)" by (simp add: unat_eq_zero)
  have hi: "unat lba div 65536 mod 256 = unat lba div 65536" using m by simp
  have "unat lba mod 256 + 256 * (unat lba div 256 mod 256) + 65536 * (unat lba div 65536 mod 256) = unat lba"
  proof -
    have "unat lba div 256 div 256 = unat lba div 65536" by (simp add: div_mult2_eq[symmetric])
    then have "unat lba div 256 = 256 * (unat lba div 65536) + unat lba div 256 mod 256"
      using mult_div_mod_eq[of 256 "unat lba div 256"] by simp
    then show ?thesis using mult_div_mod_eq[of 256 "unat lba"] hi by linarith
  qed
  then show "reg_lba (r(2 := n, 3 := ucast lba, 4 := ucast (drop_bit 8 lba), 5 := ucast (drop_bit 16 lba), 6 := b OR ucast (drop_bit 24 lba))) =
     unat lba + 0x1000000 * unat (b AND 0xf)"
    unfolding z using hi by (simp add: reg_lba_def u d)
qed

lemma ata_register:
  assumes "ata_disk hw base vec V" "2 \<le> i" "i \<le> 6"
  shows "regs V (ata_out hw (base + of_nat i) v d) = (regs V d)(i := v)" "mode V (ata_out hw (base + of_nat i) v d) = mode V d"
    "media V (ata_out hw (base + of_nat i) v d) = media V d"
  using assms by (simp_all add: ata_disk_def ata_registers_def Let_def)

lemmas ata_regs = ata_register[where i = 2, simplified] ata_register[where i = 3, simplified] ata_register[where i = 4, simplified]
  ata_register[where i = 5, simplified] ata_register[where i = 6, simplified]

lemma ata_command:
  assumes "ata_disk hw base vec V" "mode V d = Idle"
  defines "r \<equiv> ata_out hw (base + 7) CMD_READ_SECTOR d" and "w \<equiv> ata_out hw (base + 7) CMD_WRITE_SECTOR d"
  shows "mode V r = Reading (reg_drive (regs V d)) (reg_lba (regs V d)) (reg_count (regs V d))" "media V r = media V d" "pending V r" "polls V r < 29998"
    "mode V w = Writing (reg_drive (regs V d)) (reg_lba (regs V d)) (reg_count (regs V d))" "media V w = media V d" "polls V w < 29998"
  using assms by (simp_all add: ata_disk_def ata_commands_def Let_def)

lemma ata_poll:
  assumes "ata_disk hw base vec V"
  shows "mode V (snd (ata_in hw (base + 7) d)) = mode V d" "media V (snd (ata_in hw (base + 7) d)) = media V d"
    "polls V (snd (ata_in hw (base + 7) d)) = polls V d - 1" "bit (fst (ata_in hw (base + 7) d)) 7 \<longleftrightarrow> 0 < polls V d"
    "polls V d = 0 \<Longrightarrow> mode V d \<noteq> Idle \<Longrightarrow> bit (fst (ata_in hw (base + 7) d)) 3"
  using assms by (simp_all add: ata_disk_def ata_status_def split_def Let_def)

lemma status_bits: "v AND BIT_ALT_STAT_BUSY = 0 \<longleftrightarrow> \<not> bit v 7" "v AND BIT_ALT_STAT_DATA_READY \<noteq> 0 \<longleftrightarrow> bit v 3"
  using and_exp_eq_0_iff_not_bit[of v 7] and_exp_eq_0_iff_not_bit[of v 3] by (simp_all add: BIT_ALT_STAT_BUSY_def BIT_ALT_STAT_DATA_READY_def)

lemma mtime_sleep_skip: "mtime_sleep m s = Inr s"
  by (simp add: mtime_sleep_def ticks_to_sleep_def Let_def)

lemma busy_wait_ready:
  assumes A: "ata_disk hw base vec V"
  shows "\<lbrakk> mode V d \<noteq> Idle; polls V d + 1 < unat t; port_base (channels s c) = base \<rbrakk> \<Longrightarrow>
     \<exists>d'. busy_wait_loop hw c t (driven c x d e s) = Inr (True, driven c x d' e s) \<and> mode V d' = mode V d \<and> media V d' = media V d"
proof (induction "polls V d" arbitrary: d t)
  case 0
  have "t \<noteq> 1" using 0(3) by auto
  then have nz: "t - 1 \<noteq> 0" by (metis eq_iff_diff_eq_0)
  let ?d1 = "snd (ata_in hw (base + 7) d)"
  let ?d2 = "snd (ata_in hw (base + 7) ?d1)"
  have "bit (fst (ata_in hw (base + 7) ?d1)) 3" "\<not> bit (fst (ata_in hw (base + 7) d)) 7" "mode V ?d2 = mode V d" "media V ?d2 = media V d"
    using ata_poll[OF A] 0 by simp_all
  then show ?case using 0(4) nz
    by (subst busy_wait_loop.simps) (simp add: reg_status_def status_bits Let_def, blast)
next
  case (Suc n)
  let ?d1 = "snd (ata_in hw (base + 7) d)"
  have t: "unat (t - 1) = unat t - 1" using Suc.prems(2) by (intro unat_minus_one) auto
  then have nz: "t - 1 \<noteq> 0" using Suc.prems(2) by auto
  have d1: "n = polls V ?d1" "mode V ?d1 = mode V d" "media V ?d1 = media V d" "bit (fst (ata_in hw (base + 7) d)) 7"
    using ata_poll[OF A, of d] Suc.hyps(2) by simp_all
  have "polls V ?d1 + 1 < unat (t - 1)" using Suc.prems(2) Suc.hyps(2) d1(1) t by simp
  then obtain d' where "busy_wait_loop hw c (t - 1) (driven c x ?d1 e s) = Inr (True, driven c x d' e s)" "mode V d' = mode V d" "media V d' = media V d"
    using Suc.hyps(1)[OF d1(1), of "t - 1"] Suc.prems(1,3) d1(2,3) by auto
  then show ?case using nz d1(4) Suc.prems(3)
    by (subst busy_wait_loop.simps) (simp add: reg_status_def status_bits Let_def mtime_sleep_skip, blast)
qed

text \<open>The channel of a disk between two commands, with the lock of the channel taken or free.\<close>

definition channel_ready :: "u16 \<Rightarrow> u8 \<Rightarrow> u32 \<Rightarrow> ('d, 'a) ide_state_scheme \<Rightarrow> bool" where
  "channel_ready base vec hdd s \<longleftrightarrow> (let c = my_channel (disks s hdd) in
     c \<noteq> 0 \<and> vec \<in> {0x2e, 0x2f} \<and> c = channel_addr (ide_channels s) (ucast (vec - 0x2e)) \<and> port_base (channels s c) = base \<and>
     interrupt_number (channels s c) = vec \<and> intr_get_status s = INTR_ON \<and> sem_value s (disk_done_sem c) = 0 \<and>
     list_empty (sem_waiter (disk_done_sem c)) s)"

lemma channel_readyD:
  assumes "channel_ready base vec hdd s" "c = my_channel (disks s hdd)"
  shows "c \<noteq> 0" "vec = 0x2e \<or> vec = 0x2f" "channel_addr (ide_channels s) (ucast (vec - 0x2e)) = c" "port_base (channels s c) = base"
    "interrupt_number (channels s c) = vec" "intr_get_status s = INTR_ON" "sem_value s (disk_done_sem c) = 0"
    "list_empty (sem_waiter (disk_done_sem c)) s"
  using assms by (auto simp: channel_ready_def Let_def)

lemma select_sector_ok:
  assumes A: "ata_disk hw base vec V" and r: "channel_ready base vec hdd s" and c: "c = my_channel (disks s hdd)"
    and l: "lba \<le> max_lba"
  obtains x' d' where "select_sector hw hdd lba n (driven c x d e s) = Inr (driven c x' d' e s)" "mode V d' = mode V d" "media V d' = media V d"
    "reg_lba (regs V d') = unat lba" "reg_drive (regs V d') = (dev_no (disks s hdd) = 1)" "reg_count (regs V d') = (if n = 0 then 256 else unat n)"
proof -
  let ?b = "BIT_DEV_DEFAULT OR BIT_DEV_LBA OR (if dev_no (disks s hdd) = 1 then BIT_DEV_DEV else 0)"
  let ?d1 = "ata_out hw (base + 2) n d"
  let ?d2 = "ata_out hw (base + 3) (ucast lba) ?d1"
  let ?d3 = "ata_out hw (base + 4) (ucast (drop_bit 8 lba)) ?d2"
  let ?d4 = "ata_out hw (base + 5) (ucast (drop_bit 16 lba)) ?d3"
  let ?d5 = "ata_out hw (base + 6) (?b OR ucast (drop_bit 24 lba)) ?d4"
  have rg: "regs V ?d5 = (regs V d)(2 := n, 3 := ucast lba, 4 := ucast (drop_bit 8 lba), 5 := ucast (drop_bit 16 lba), 6 := ?b OR ucast (drop_bit 24 lba))"
    using ata_regs[OF A] by simp
  have m: "mode V ?d5 = mode V d" "media V ?d5 = media V d" using ata_regs[OF A] by simp_all
  have b: "?b AND 0xf = 0" "bit ?b 4 \<longleftrightarrow> dev_no (disks s hdd) = 1"
    by (simp_all add: BIT_DEV_DEFAULT_def BIT_DEV_LBA_def BIT_DEV_DEV_def bit_iff_odd drop_bit_eq_div[symmetric])
  have "reg_lba (regs V ?d5) = unat lba" "reg_drive (regs V ?d5) = (dev_no (disks s hdd) = 1)" "reg_count (regs V ?d5) = (if n = 0 then 256 else unat n)"
    unfolding rg using lba_bytes[OF l] b by (simp_all add: reg_drive_def reg_count_def)
  moreover have "\<exists>x'. select_sector hw hdd lba n (driven c x d e s) = Inr (driven c x' ?d5 e s)"
    using l channel_readyD(4)[OF r c] c
    by (simp add: select_sector_def ASSERT_def channel_of_def Let_def reg_sector_count_def reg_lba_l_def reg_lba_m_def reg_lba_h_def reg_dev_def or.assoc) blast
  ultimately show ?thesis using m that by blast
qed

lemma sem_up_free:
  assumes "sem_value s sem = 0" "list_empty (sem_waiter sem) s"
  shows "sem_up sem s = Inr (s\<lparr>sem_value := (sem_value s)(sem := 1)\<rparr>)"
proof -
  obtain old x where d: "intr_disable s = (old, s\<lparr>eflags := x\<rparr>)" by (rule intr_disabled)
  let ?s1 = "s\<lparr>eflags := x, sem_value := (sem_value s)(sem := 1)\<rparr>"
  have "list_empty (sem_waiter sem) (s\<lparr>eflags := x\<rparr>)" using assms by (simp add: list_empty_def next_of_def)
  then have "sem_up sem s = Inr (snd (intr_set_status old ?s1))" using assms d by (simp add: sem_up_def)
  also have "snd (intr_set_status old ?s1) = ?s1\<lparr>eflags := eflags s\<rparr>" by (rule intr_restore[OF d]) simp
  also have "\<dots> = s\<lparr>sem_value := (sem_value s)(sem := 1)\<rparr>" by (cases s) simp
  finally show ?thesis .
qed

lemma sem_down_one:
  assumes "sem_value s sem = 1"
  shows "sem_down sem s = Inr (s\<lparr>sem_value := (sem_value s)(sem := 0)\<rparr>)"
proof -
  obtain old x where d: "intr_disable s = (old, s\<lparr>eflags := x\<rparr>)" by (rule intr_disabled)
  let ?s1 = "s\<lparr>eflags := x, sem_value := (sem_value s)(sem := 0)\<rparr>"
  have "sem_down sem s = Inr (snd (intr_set_status old ?s1))" using assms d by (simp add: sem_down_def sem_down_loop_def)
  also have "snd (intr_set_status old ?s1) = ?s1\<lparr>eflags := eflags s\<rparr>" by (rule intr_restore[OF d]) simp
  also have "\<dots> = s\<lparr>sem_value := (sem_value s)(sem := 0)\<rparr>" by (cases s) simp
  finally show ?thesis .
qed

lemma handler_ok:
  assumes "vec = 0x2e \<or> vec = 0x2f" "channel_addr (ide_channels s) (ucast (vec - 0x2e)) = c" "expection_interrupt (channels s c)"
    "sem_value s (disk_done_sem c) = 0" "list_empty (sem_waiter (disk_done_sem c)) s"
  shows "intr_hd_handler hw vec s = Inr (s\<lparr>channels := (channels s)(c := (channels s c)\<lparr>expection_interrupt := False\<rparr>),
     sem_value := (sem_value s)(disk_done_sem c := 1), hw_state := snd (ata_in hw (port_base (channels s c) + 7) (hw_state s))\<rparr>)"
proof -
  let ?t = "s\<lparr>channels := (channels s)(c := (channels s c)\<lparr>expection_interrupt := False\<rparr>)\<rparr>"
  have "list_empty (sem_waiter (disk_done_sem c)) ?t" using assms(5) by (simp add: list_empty_def next_of_def)
  then have "sem_up (disk_done_sem c) ?t = Inr (?t\<lparr>sem_value := (sem_value s)(disk_done_sem c := 1)\<rparr>)"
    using sem_up_free[of ?t "disk_done_sem c"] assms(4) by simp
  moreover have "ASSERT (vec = 0x2e \<or> vec = 0x2f) m = Inr ()" for m using assms(1) by (simp add: ASSERT_def)
  ultimately show ?thesis
    by (cases s) (use assms(2,3) in \<open>simp add: intr_hd_handler_def Let_def upd_channel_def in_byte_def split_def reg_status_def\<close>)
qed

lemma wait_done_ok:
  assumes A: "ata_disk hw base vec V" and r: "channel_ready base vec hdd s" and c: "c = my_channel (disks s hdd)" and p: "pending V d"
  obtains d' where "wait_done hw hdd (driven c x d True s) = Inr (driven c x d' False s)" "mode V d' = mode V d" "media V d' = media V d"
    "polls V d' \<le> polls V d"
proof -
  note R = channel_readyD[OF r c]
  let ?s = "driven c x d True s"
  obtain q d1 where i: "ata_irq hw vec d = (q, d1)" by fastforce
  have d1: "q" "mode V d1 = mode V d" "media V d1 = media V d" "polls V d1 = polls V d"
    using A p i by (auto simp: ata_disk_def ata_transfers_def Let_def split_def dest!: spec[of _ d])
  let ?d2 = "snd (ata_in hw (base + 7) d1)"
  have on: "intr_get_status ?s = INTR_ON" using R(6) by (simp add: intr_get_status_def)
  let ?s1 = "cli (?s\<lparr>hw_state := d1\<rparr>)"
  let ?sem = "disk_done_sem c"
  have f: "ide_channels ?s1 = ide_channels s" "channels ?s1 = (channels s)(c := (channels s c)\<lparr>expection_interrupt := True\<rparr>)"
     "sem_value ?s1 = sem_value s" "hw_state ?s1 = d1" by (simp_all add: cli_def driven_def)
  have le: "list_empty (sem_waiter ?sem) ?s1" using R(8) by (simp add: list_empty_def next_of_def cli_def driven_def)
  have "intr_hd_handler hw vec ?s1 = Inr (?s1\<lparr>channels := (channels ?s1)(c := (channels ?s1 c)\<lparr>expection_interrupt := False\<rparr>),
     sem_value := (sem_value ?s1)(?sem := 1), hw_state := snd (ata_in hw (port_base (channels ?s1 c) + 7) (hw_state ?s1))\<rparr>)"
    by (rule handler_ok[OF R(2) _ _ _ le]) (use R in \<open>simp_all add: f\<close>)
  then have h: "intr_hd_handler hw vec ?s1 = Inr (?s1\<lparr>channels := (channels s)(c := (channels s c)\<lparr>expection_interrupt := False\<rparr>),
     sem_value := (sem_value s)(?sem := 1), hw_state := ?d2\<rparr>)" using R(4) by (simp add: f)
  let ?t = "(driven c x ?d2 False s)\<lparr>sem_value := (sem_value s)(?sem := 1)\<rparr>"
  have "disk_interrupt hw vec ?s = bnd (intr_hd_handler hw vec ?s1) (\<lambda>t. Inr (t\<lparr>eflags := eflags ?s\<rparr>))"
    using on i d1(1) by (simp add: disk_interrupt_def)
  also have "\<dots> = Inr ?t" unfolding h bnd_simps by (cases s) (simp add: cli_def driven_def)
  finally have "disk_interrupt hw vec ?s = Inr ?t" .
  moreover have "sem_down ?sem ?t = Inr (driven c x ?d2 False s)"
  proof -
    have "sem_down ?sem ?t = Inr (?t\<lparr>sem_value := (sem_value ?t)(?sem := 0)\<rparr>)" by (rule sem_down_one) simp
    also have "?t\<lparr>sem_value := (sem_value ?t)(?sem := 0)\<rparr> = driven c x ?d2 False s"
      using R(7) by (cases s) (auto simp: driven_def fun_upd_idem)
    finally show ?thesis .
  qed
  ultimately have "wait_done hw hdd ?s = Inr (driven c x ?d2 False s)"
    using R(5) c by (simp add: wait_done_def channel_of_def Let_def)
  then show ?thesis by (rule that) (use ata_poll[OF A, of d1] d1 in simp_all)
qed

section \<open>Sectors and bytes\<close>

lemma bytes_words: "even (length bs) \<Longrightarrow> concat (map word_bytes (byte_words bs)) = bs"
proof (induction bs rule: byte_words.induct)
  case (1 l h bs)
  have "ucast (ucast l OR push_bit 8 (ucast h) :: u16) = l" "ucast (drop_bit 8 (ucast l OR push_bit 8 (ucast h) :: u16)) = h"
    by (rule bit_word_eqI; auto simp: bit_simps o_def dest: bit_imp_le_length)+
  then show ?case using 1 by (simp add: word_bytes_def)
qed simp_all

lemma byte_words_length: "length (byte_words bs) = length bs div 2"
  by (induction bs rule: byte_words.induct) simp_all

lemma sectors_length: "\<forall>k. length (m dr k) = 512 \<Longrightarrow> length (sectors m dr l n) = 512 * n"
  by (simp add: sectors_def length_concat o_def sum_list_triv)

lemma sectors_append: "sectors m dr l (a + b) = sectors m dr l a @ sectors m dr (l + a) b"
  unfolding sectors_def add.assoc[symmetric] upt_add_eq_append[OF le_add1] by simp

lemma stored_append:
  assumes "length bs = 512 * a"
  shows "stored dr (l + a) b cs (stored dr l a bs m) = stored dr l (a + b) (bs @ cs) m"
proof (intro ext)
  fix dr' k
  have "512 * (k - l) < length bs \<and> 512 * (k - l) + 512 \<le> length bs" if "l \<le> k" "k < l + a"
    using assms that by auto
  moreover have "512 * (k - l) - length bs = 512 * (k - (l + a))" "length bs \<le> 512 * (k - l)" if "l + a \<le> k"
    using assms that by (simp_all add: algebra_simps diff_mult_distrib2[symmetric])
  ultimately show "stored dr (l + a) b cs (stored dr l a bs m) dr' k = stored dr l (a + b) (bs @ cs) m dr' k"
    by (auto simp: stored_def)
qed

lemma stored_read:
  "length bs = 512 * n \<Longrightarrow> sectors (stored dr l n bs m) dr l n = bs"
proof (induction n arbitrary: l bs m)
  case 0
  then show ?case by (simp add: sectors_def)
next
  case (Suc n)
  let ?a = "take 512 bs" and ?b = "drop 512 bs"
  have e: "stored dr (l + 1) n ?b (stored dr l 1 ?a m) = stored dr l (Suc n) bs m"
    using stored_append[of ?a 1 dr l n ?b m] Suc.prems by simp
  have "sectors (stored dr l (Suc n) bs m) dr l 1 = ?a" by (simp add: sectors_def stored_def)
  moreover have "sectors (stored dr l (Suc n) bs m) dr (l + 1) n = ?b"
    unfolding e[symmetric] using Suc.IH[of ?b "l + 1" "stored dr l 1 ?a m"] Suc.prems by simp
  ultimately have "sectors (stored dr l (Suc n) bs m) dr l (1 + n) = ?a @ ?b" unfolding sectors_append by simp
  then show ?case by simp
qed

lemma chunk_count:
  assumes "0 < unat (k :: u32)" "unat k \<le> 256"
  shows "(if (ucast k :: u8) = 0 then 256 else unat (ucast k :: u8)) = unat k" "unat (bytes_cnt (ucast k) div 2) = 256 * unat k"
proof -
  have u: "unat (ucast k :: u8) = unat k mod 256" by (simp add: unsigned_ucast_eq take_bit_eq_mod)
  have z: "(ucast k :: u8) = 0 \<longleftrightarrow> unat k = 256"
    using assms u by (cases "unat k = 256") (auto simp: unat_eq_zero[symmetric] simp del: unat_eq_zero)
  show c: "(if (ucast k :: u8) = 0 then 256 else unat (ucast k :: u8)) = unat k"
    using z u assms(2) by (cases "unat k = 256") auto
  show "unat (bytes_cnt (ucast k) div 2) = 256 * unat k"
  proof (cases "unat k = 256")
    case True
    then show ?thesis using z by (simp add: bytes_cnt_def)
  next
    case False
    then have n: "unat (ucast k :: u8) = unat k" "unat k < 256" using u assms(2) by auto
    have "unat (ucast (ucast k :: u8) :: u32) = unat k" using n by (simp add: unsigned_ucast_eq unsigned_take_bit_eq take_bit_nat_eq_self)
    then have "unat (ucast (ucast k :: u8) * 512 :: u32) = unat k * 512" using n by (simp add: unat_word_ariths)
    then show ?thesis using z False by (simp add: bytes_cnt_def unat_div)
  qed
qed

section \<open>The loops\<close>

lemma cmd_out_ok:
  assumes "channel_ready base vec hdd s" "c = my_channel (disks s hdd)"
  shows "cmd_out hw c cmd (driven c x d e s) = Inr (driven c (x @ [(base + 7, cmd)]) (ata_out hw (base + 7) cmd d) True s)"
proof -
  note R = channel_readyD[OF assms]
  have "upd_channel c (\<lambda>c. c\<lparr>expection_interrupt := True\<rparr>) (driven c x d e s) = driven c x d True s"
    by (simp add: upd_channel_def driven_def)
  then show ?thesis using R(1,4) by (simp add: cmd_out_def ASSERT_def reg_cmd_def reg_status_def Let_def)
qed

lemma busy_wait_ok:
  assumes A: "ata_disk hw base vec V" and r: "channel_ready base vec hdd s" and c: "c = my_channel (disks s hdd)"
    and m: "mode V d \<noteq> Idle" "polls V d < 29998"
  obtains d' where "busy_wait hw hdd (driven c x d e s) = Inr (True, driven c x d' e s)" "mode V d' = mode V d" "media V d' = media V d"
  using busy_wait_ready[OF A m(1), of "30000" s c x e] m(2) channel_readyD(4)[OF r c] c that by (auto simp: busy_wait_def)

lemma read_sector_ok:
  fixes n :: u32
  assumes A: "ata_disk hw base vec V" and r: "channel_ready base vec hdd s" and c: "c = my_channel (disks s hdd)"
    and m: "mode V d = Reading dr l (unat n)" and n: "0 < unat n" "unat n \<le> 256" and p: "pos + 512 * unat n \<le> length obj"
  obtains d' where "read_from_sector hw hdd obj pos (ucast n) (driven c x d e s) =
     Inr (take pos obj @ sectors (media V d) dr l (unat n) @ drop (pos + 512 * unat n) obj, driven c x d' e s)" "mode V d' = Idle" "media V d' = media V d"
proof -
  obtain ws d' where i: "ata_ins hw base (256 * unat n) d = (ws, d')" by fastforce
  have d': "ws = byte_words (sectors (media V d) dr l (unat n))" "mode V d' = Idle" "media V d' = media V d"
    using A m i by (auto simp: ata_disk_def ata_transfers_def Let_def split_def dest!: spec[of _ d])
  have len: "length (sectors (media V d) dr l (unat n)) = 512 * unat n" using A by (intro sectors_length) (simp add: ata_disk_def)
  have "concat (map word_bytes ws) = sectors (media V d) dr l (unat n)" unfolding d'(1) by (rule bytes_words) (simp add: len)
  then have "read_from_sector hw hdd obj pos (ucast n) (driven c x d e s) =
     Inr (take pos obj @ sectors (media V d) dr l (unat n) @ drop (pos + 512 * unat n) obj, driven c x d' e s)"
    using p i len chunk_count(2)[OF n] channel_readyD(4)[OF r c] c
    by (simp add: read_from_sector_def in_multibyte_def channel_of_def reg_data_def put_bytes_def) (simp add: driven_def)
  then show ?thesis using d'(2,3) by (rule that)
qed

lemma write_sector_ok:
  fixes n :: u32
  assumes A: "ata_disk hw base vec V" and r: "channel_ready base vec hdd s" and c: "c = my_channel (disks s hdd)"
    and m: "mode V d = Writing dr l (unat n)" and n: "0 < unat n" "unat n \<le> 256" and p: "pos + 512 * unat n \<le> length obj"
  obtains d' where "write_to_sector hw hdd obj pos (ucast n) (driven c x d e s) = Inr (driven c x d' e s)" "mode V d' = Idle"
     "media V d' = stored dr l (unat n) (take (512 * unat n) (drop pos obj)) (media V d)" "pending V d'"
proof -
  let ?bs = "take (512 * unat n) (drop pos obj)"
  let ?d' = "ata_outs hw base (byte_words ?bs) d"
  have l: "length ?bs = 512 * unat n" using p by simp
  have b: "concat (map word_bytes (byte_words ?bs)) = ?bs" by (rule bytes_words) (simp only: l, simp)
  have "length (byte_words ?bs) = 256 * unat n" unfolding byte_words_length l by simp
  then have d': "mode V ?d' = Idle" "media V ?d' = stored dr l (unat n) ?bs (media V d)" "pending V ?d'"
    using A m b by (simp_all add: ata_disk_def ata_transfers_def Let_def)
  have "write_to_sector hw hdd obj pos (ucast n) (driven c x d e s) = Inr (driven c x ?d' e s)"
    using p chunk_count(2)[OF n] channel_readyD(4)[OF r c] c
    by (simp add: write_to_sector_def out_multibyte_def channel_of_def reg_data_def get_bytes_def) (simp add: driven_def)
  then show ?thesis using d' by (rule that)
qed

lemma next_sector:
  assumes "unat lba + unat sec_cnt \<le> 0x28000" "sec_done < sec_cnt"
  shows "unat (lba + sec_done) = unat lba + unat sec_done" "lba + sec_done \<le> max_lba"
proof -
  have b: "unat lba + unat sec_done < 0x28000" using assms by (simp add: word_less_nat_alt)
  then show u: "unat (lba + sec_done) = unat lba + unat sec_done" by (simp add: unat_word_ariths)
  show "lba + sec_done \<le> max_lba" using u b by (simp add: max_lba_def word_le_nat_alt)
qed

text \<open>One command of a read, and one of a write, with what follows it as \<open>k\<close>.\<close>

lemma read_round:
  fixes n :: u32
  assumes A: "ata_disk hw base vec V" and r: "channel_ready base vec hdd s" and c: "c = my_channel (disks s hdd)"
    and m: "mode V d = Idle" and l: "lba \<le> max_lba" and n: "0 < unat n" "unat n \<le> 256" and p: "pos + 512 * unat n \<le> length obj"
  obtains x' d' where "\<And>k. bnd (select_sector hw hdd lba (ucast n) (driven c x d e s)) (\<lambda>s.
      bnd (cmd_out hw (my_channel (disks s hdd)) CMD_READ_SECTOR s) (\<lambda>s. bnd (wait_done hw hdd s) (\<lambda>s. bnd (busy_wait hw hdd s) (\<lambda>(ok, s).
      if \<not> ok then Inl (Exception ''read sector failed'') else bnd (read_from_sector hw hdd obj pos (ucast n) s) k)))) =
    k (take pos obj @ sectors (media V d) (dev_no (disks s hdd) = 1) (unat lba) (unat n) @ drop (pos + 512 * unat n) obj, driven c x' d' False s)"
    "mode V d' = Idle" "media V d' = media V d"
proof -
  let ?dr = "dev_no (disks s hdd) = 1"
  obtain x1 d1 where s1: "select_sector hw hdd lba (ucast n) (driven c x d e s) = Inr (driven c x1 d1 e s)"
    "mode V d1 = mode V d" "media V d1 = media V d" "reg_lba (regs V d1) = unat lba" "reg_drive (regs V d1) = ?dr"
    "reg_count (regs V d1) = (if (ucast n :: u8) = 0 then 256 else unat (ucast n :: u8))"
    by (rule select_sector_ok[OF A r c l])
  let ?d2 = "ata_out hw (base + 7) CMD_READ_SECTOR d1" and ?x2 = "x1 @ [(base + 7, CMD_READ_SECTOR)]"
  have d2: "mode V ?d2 = Reading ?dr (unat lba) (unat n)" "media V ?d2 = media V d" "pending V ?d2" "polls V ?d2 < 29998"
    using ata_command(1-4)[OF A, of d1] s1 m chunk_count(1)[OF n] by simp_all
  obtain d3 where s3: "wait_done hw hdd (driven c ?x2 ?d2 True s) = Inr (driven c ?x2 d3 False s)" "mode V d3 = mode V ?d2"
    "media V d3 = media V ?d2" "polls V d3 \<le> polls V ?d2" by (rule wait_done_ok[OF A r c d2(3)])
  have "mode V d3 \<noteq> Idle" "polls V d3 < 29998" using s3 d2 by simp_all
  then obtain d4 where s4: "busy_wait hw hdd (driven c ?x2 d3 False s) = Inr (True, driven c ?x2 d4 False s)" "mode V d4 = mode V d3"
    "media V d4 = media V d3" by (rule busy_wait_ok[OF A r c])
  have m4: "mode V d4 = Reading ?dr (unat lba) (unat n)" "media V d4 = media V d" using s4 s3 d2 by simp_all
  obtain d5 where s5: "read_from_sector hw hdd obj pos (ucast n) (driven c ?x2 d4 False s) =
      Inr (take pos obj @ sectors (media V d4) ?dr (unat lba) (unat n) @ drop (pos + 512 * unat n) obj, driven c ?x2 d5 False s)"
      "mode V d5 = Idle" "media V d5 = media V d4"
    by (rule read_sector_ok[OF A r c m4(1) n p])
  show ?thesis
    by (rule that[of ?x2 d5]) (use s1(1) cmd_out_ok[OF r c] s3(1) s4(1) s5 m4(2) c in simp_all)
qed

lemma write_round:
  fixes n :: u32
  assumes A: "ata_disk hw base vec V" and r: "channel_ready base vec hdd s" and c: "c = my_channel (disks s hdd)"
    and m: "mode V d = Idle" and l: "lba \<le> max_lba" and n: "0 < unat n" "unat n \<le> 256" and p: "pos + 512 * unat n \<le> length obj"
  obtains x' d' where "\<And>k. bnd (select_sector hw hdd lba (ucast n) (driven c x d e s)) (\<lambda>s.
      bnd (cmd_out hw (my_channel (disks s hdd)) CMD_WRITE_SECTOR s) (\<lambda>s. bnd (busy_wait hw hdd s) (\<lambda>(ok, s).
      if \<not> ok then Inl (Exception ''write sector failed'')
      else bnd (write_to_sector hw hdd obj pos (ucast n) s) (\<lambda>s. bnd (wait_done hw hdd s) k)))) = k (driven c x' d' False s)"
    "mode V d' = Idle" "media V d' = stored (dev_no (disks s hdd) = 1) (unat lba) (unat n) (take (512 * unat n) (drop pos obj)) (media V d)"
proof -
  let ?dr = "dev_no (disks s hdd) = 1"
  obtain x1 d1 where s1: "select_sector hw hdd lba (ucast n) (driven c x d e s) = Inr (driven c x1 d1 e s)"
    "mode V d1 = mode V d" "media V d1 = media V d" "reg_lba (regs V d1) = unat lba" "reg_drive (regs V d1) = ?dr"
    "reg_count (regs V d1) = (if (ucast n :: u8) = 0 then 256 else unat (ucast n :: u8))"
    by (rule select_sector_ok[OF A r c l])
  let ?d2 = "ata_out hw (base + 7) CMD_WRITE_SECTOR d1" and ?x2 = "x1 @ [(base + 7, CMD_WRITE_SECTOR)]"
  have d2: "mode V ?d2 = Writing ?dr (unat lba) (unat n)" "media V ?d2 = media V d" "polls V ?d2 < 29998"
    using ata_command(5-7)[OF A, of d1] s1 m chunk_count(1)[OF n] by simp_all
  have "mode V ?d2 \<noteq> Idle" using d2(1) by simp
  then obtain d3 where s3: "busy_wait hw hdd (driven c ?x2 ?d2 True s) = Inr (True, driven c ?x2 d3 True s)" "mode V d3 = mode V ?d2"
    "media V d3 = media V ?d2" by (rule busy_wait_ok[OF A r c _ d2(3)])
  have m3: "mode V d3 = Writing ?dr (unat lba) (unat n)" "media V d3 = media V d" using s3 d2 by simp_all
  obtain d4 where s4: "write_to_sector hw hdd obj pos (ucast n) (driven c ?x2 d3 True s) = Inr (driven c ?x2 d4 True s)" "mode V d4 = Idle"
     "media V d4 = stored ?dr (unat lba) (unat n) (take (512 * unat n) (drop pos obj)) (media V d3)" "pending V d4"
    by (rule write_sector_ok[OF A r c m3(1) n p])
  obtain d5 where s5: "wait_done hw hdd (driven c ?x2 d4 True s) = Inr (driven c ?x2 d5 False s)" "mode V d5 = mode V d4" "media V d5 = media V d4"
    by (rule wait_done_ok[OF A r c s4(4)])
  show ?thesis
    by (rule that[of ?x2 d5]) (use s1(1) cmd_out_ok[OF r c] s3(1) s4 s5 m3(2) c in simp_all)
qed

lemma read_loop_ok:
  fixes s :: "('d, 'a) ide_state_scheme"
  assumes A: "ata_disk hw base vec V" and r: "channel_ready base vec hdd s" and c: "c = my_channel (disks s hdd)"
    and l: "unat lba + unat sec_cnt \<le> 0x28000"
  shows "\<lbrakk> mode V d = Idle; 512 * unat sec_cnt \<le> length obj; sec_done \<le> sec_cnt \<rbrakk> \<Longrightarrow>
     \<exists>x' d' e'. ide_read_loop hw hdd lba obj sec_cnt sec_done (driven c x d e s) =
       Inr (take (512 * unat sec_done) obj @
            sectors (media V d) (dev_no (disks s hdd) = 1) (unat lba + unat sec_done) (unat sec_cnt - unat sec_done) @ drop (512 * unat sec_cnt) obj,
            driven c x' d' e' s) \<and>
       mode V d' = Idle \<and> media V d' = media V d"
proof (induction "unat sec_cnt - unat sec_done" arbitrary: sec_done obj d x e rule: less_induct)
  case less
  let ?S = "sectors (media V d) (dev_no (disks s hdd) = 1)"
  show ?case
  proof (cases "sec_done < sec_cnt")
    case False
    then have "sec_done = sec_cnt" using less.prems(3) by simp
    then show ?thesis using less.prems by (subst ide_read_loop.simps) (auto simp: sectors_def)
  next
    case True
    let ?n = "chunk sec_cnt sec_done" and ?p = "512 * unat sec_done"
    note n = chunk_step[OF True] and b = next_sector[OF l True]
    have room: "?p + 512 * unat ?n \<le> length obj" using n(2) less.prems(2) by simp
    let ?obj = "take ?p obj @ ?S (unat (lba + sec_done)) (unat ?n) @ drop (?p + 512 * unat ?n) obj"
    obtain x1 d1 where rd: "\<And>k :: u8 list \<times> ('d, 'a) ide_state_scheme \<Rightarrow> error + (u8 list \<times> ('d, 'a) ide_state_scheme).
        bnd (select_sector hw hdd (lba + sec_done) (ucast ?n) (driven c x d e s)) (\<lambda>s.
        bnd (cmd_out hw (my_channel (disks s hdd)) CMD_READ_SECTOR s) (\<lambda>s. bnd (wait_done hw hdd s) (\<lambda>s. bnd (busy_wait hw hdd s) (\<lambda>(ok, s).
        if \<not> ok then Inl (Exception ''read sector failed'') else bnd (read_from_sector hw hdd obj ?p (ucast ?n) s) k)))) =
        k (?obj, driven c x1 d1 False s)" "mode V d1 = Idle" "media V d1 = media V d"
      by (rule read_round[OF A r c less.prems(1) b(2) n(3,4) room]) blast
    have ls: "length (?S j (unat ?n)) = 512 * unat ?n" for j using A by (intro sectors_length) (simp add: ata_disk_def)
    have lo: "512 * unat sec_cnt \<le> length ?obj" using room less.prems(2) ls by simp
    have "?p + 512 * unat ?n \<le> 512 * unat sec_cnt" using n(2) by simp
    then have dr: "drop (512 * unat sec_cnt) ?obj = drop (512 * unat sec_cnt) obj" using room ls by simp
    have dn: "sec_done + ?n \<le> sec_cnt" "unat sec_cnt - unat (sec_done + ?n) < unat sec_cnt - unat sec_done"
      using n by (simp_all add: word_le_nat_alt)
    obtain x' d' e' where ih: "ide_read_loop hw hdd lba ?obj sec_cnt (sec_done + ?n) (driven c x1 d1 False s) =
         Inr (take (512 * unat (sec_done + ?n)) ?obj @ ?S (unat lba + unat (sec_done + ?n)) (unat sec_cnt - unat (sec_done + ?n)) @ drop (512 * unat sec_cnt) obj, driven c x' d' e' s)"
       "mode V d' = Idle" "media V d' = media V d"
      using less.hyps[OF dn(2) rd(2) lo dn(1), of x1 False] rd(3) unfolding dr by auto
    have "take (512 * unat (sec_done + ?n)) ?obj = take ?p obj @ ?S (unat lba + unat sec_done) (unat ?n)"
      using room ls by (simp add: n(1) b(1) min_def)
    moreover have "unat sec_cnt - unat sec_done = unat ?n + (unat sec_cnt - unat (sec_done + ?n))" using n by simp
    ultimately have "take (512 * unat (sec_done + ?n)) ?obj @ ?S (unat lba + unat (sec_done + ?n)) (unat sec_cnt - unat (sec_done + ?n))
       = take ?p obj @ ?S (unat lba + unat sec_done) (unat sec_cnt - unat sec_done)"
      by (simp add: sectors_append n(1) add.assoc)
    moreover have "ide_read_loop hw hdd lba obj sec_cnt sec_done (driven c x d e s) = ide_read_loop hw hdd lba ?obj sec_cnt (sec_done + ?n) (driven c x1 d1 False s)"
      using rd(1)[of "\<lambda>(obj, s). ide_read_loop hw hdd lba obj sec_cnt (sec_done + ?n) s"]
      by (subst ide_read_loop.simps) (simp only: Let_def True if_True prod.case)
    ultimately show ?thesis using ih by auto
  qed
qed

lemma write_loop_ok:
  fixes s :: "('d, 'a) ide_state_scheme"
  assumes A: "ata_disk hw base vec V" and r: "channel_ready base vec hdd s" and c: "c = my_channel (disks s hdd)"
    and l: "unat lba + unat sec_cnt \<le> 0x28000" and obj: "512 * unat sec_cnt \<le> length obj"
  shows "\<lbrakk> mode V d = Idle; sec_done \<le> sec_cnt \<rbrakk> \<Longrightarrow>
     \<exists>x' d' e'. ide_write_loop hw hdd lba obj sec_cnt sec_done (driven c x d e s) = Inr (driven c x' d' e' s) \<and> mode V d' = Idle \<and>
       media V d' = stored (dev_no (disks s hdd) = 1) (unat lba + unat sec_done) (unat sec_cnt - unat sec_done) (drop (512 * unat sec_done) obj) (media V d)"
proof (induction "unat sec_cnt - unat sec_done" arbitrary: sec_done d x e rule: less_induct)
  case less
  let ?S = "stored (dev_no (disks s hdd) = 1)"
  show ?case
  proof (cases "sec_done < sec_cnt")
    case False
    then have "sec_done = sec_cnt" using less.prems(2) by simp
    moreover have "?S j 0 bs (media V d) = media V d" for j bs by (auto simp: stored_def fun_eq_iff)
    ultimately show ?thesis using less.prems by (subst ide_write_loop.simps) auto
  next
    case True
    let ?n = "chunk sec_cnt sec_done" and ?p = "512 * unat sec_done"
    note n = chunk_step[OF True] and b = next_sector[OF l True]
    have room: "?p + 512 * unat ?n \<le> length obj" using n(2) obj by simp
    obtain x1 d1 where wr: "\<And>k :: ('d, 'a) ide_state_scheme \<Rightarrow> error + ('d, 'a) ide_state_scheme.
        bnd (select_sector hw hdd (lba + sec_done) (ucast ?n) (driven c x d e s)) (\<lambda>s.
        bnd (cmd_out hw (my_channel (disks s hdd)) CMD_WRITE_SECTOR s) (\<lambda>s. bnd (busy_wait hw hdd s) (\<lambda>(ok, s).
        if \<not> ok then Inl (Exception ''write sector failed'')
        else bnd (write_to_sector hw hdd obj ?p (ucast ?n) s) (\<lambda>s. bnd (wait_done hw hdd s) k)))) = k (driven c x1 d1 False s)"
      "mode V d1 = Idle" "media V d1 = ?S (unat (lba + sec_done)) (unat ?n) (take (512 * unat ?n) (drop ?p obj)) (media V d)"
      by (rule write_round[OF A r c less.prems(1) b(2) n(3,4) room]) blast
    have dn: "sec_done + ?n \<le> sec_cnt" "unat sec_cnt - unat (sec_done + ?n) < unat sec_cnt - unat sec_done"
      using n by (simp_all add: word_le_nat_alt)
    obtain x' d' e' where ih: "ide_write_loop hw hdd lba obj sec_cnt (sec_done + ?n) (driven c x1 d1 False s) = Inr (driven c x' d' e' s)" "mode V d' = Idle"
       "media V d' = ?S (unat lba + unat (sec_done + ?n)) (unat sec_cnt - unat (sec_done + ?n)) (drop (512 * unat (sec_done + ?n)) obj) (media V d1)"
      using less.hyps[OF dn(2) wr(2) dn(1), of x1 False] by auto
    have "drop (512 * unat (sec_done + ?n)) obj = drop (512 * unat ?n) (drop ?p obj)" by (simp add: n(1) algebra_simps)
    moreover have "unat sec_cnt - unat sec_done = unat ?n + (unat sec_cnt - unat (sec_done + ?n))" using n by simp
    moreover have "length (take (512 * unat ?n) (drop ?p obj)) = 512 * unat ?n" using room by simp
    ultimately have "media V d' = ?S (unat lba + unat sec_done) (unat sec_cnt - unat sec_done) (drop ?p obj) (media V d)"
      using stored_append[of "take (512 * unat ?n) (drop ?p obj)" "unat ?n" "dev_no (disks s hdd) = 1" "unat lba + unat sec_done"
        "unat sec_cnt - unat (sec_done + ?n)" "drop (512 * unat ?n) (drop ?p obj)" "media V d"] ih(3) wr(3)
      by (simp only: b(1) n(1) append_take_drop_id add.assoc)
    moreover have "ide_write_loop hw hdd lba obj sec_cnt sec_done (driven c x d e s) = ide_write_loop hw hdd lba obj sec_cnt (sec_done + ?n) (driven c x1 d1 False s)"
      using wr(1)[of "ide_write_loop hw hdd lba obj sec_cnt (sec_done + ?n)"]
      by (subst ide_write_loop.simps) (simp only: Let_def True if_True)
    ultimately show ?thesis using ih(1,2) by auto
  qed
qed

section \<open>Round trip\<close>

text \<open>The lock of the channel is free.\<close>

definition disk_free :: "u16 \<Rightarrow> u8 \<Rightarrow> u32 \<Rightarrow> ('d, 'a) ide_state_scheme \<Rightarrow> bool" where
  "disk_free base vec hdd s \<longleftrightarrow> channel_ready base vec hdd s \<and> running_thread s \<noteq> 0 \<and>
     lock_free (channel_lock (my_channel (disks s hdd))) s"

lemma set_lock_ide [simp]:
  "disks (set_lock l c n v s) = disks s" "channels (set_lock l c n v s) = channels s" "ide_channels (set_lock l c n v s) = ide_channels s"
  "hw_state (set_lock l c n v s) = hw_state s" "ports (set_lock l c n v s) = ports s" "eflags (set_lock l c n v s) = eflags s"
  by (simp_all add: set_lock_def)

lemma channel_ready_locked:
  assumes "disk_free base vec hdd s"
  shows "channel_ready base vec hdd (set_lock (channel_lock (my_channel (disks s hdd))) h 1 0 s)"
  using assms
  by (auto simp: disk_free_def channel_ready_def Let_def intr_get_status_def list_empty_def next_of_def)
    (simp_all add: set_lock_def lock_sem_def channel_lock_def disk_done_sem_def)

lemma driven_locked:
  assumes "disk_free base vec hdd s" "c = my_channel (disks s hdd)"
  shows "lock_release (channel_lock c) (driven c x d e (set_lock (channel_lock c) (running_thread s) 1 0 s)) = Inr (driven c x d e s)"
proof -
  let ?l = "channel_lock c"
  let ?t = "driven c x d e (set_lock ?l (running_thread s) 1 0 s)"
  have f: "lock_free ?l s" using assms by (simp add: disk_free_def)
  have "lock_held ?l (running_thread ?t) ?t"
    using set_lock_held[OF f, of "running_thread s"] by (simp add: lock_held_def list_empty_def next_of_def)
  then have "lock_release ?l ?t = Inr (set_lock ?l 0 0 1 ?t)" by (rule lock_release_held)
  also have "set_lock ?l 0 0 1 ?t = driven c x d e (set_lock ?l 0 0 1 (set_lock ?l (running_thread s) 1 0 s))"
    by (cases s) (simp add: set_lock_def driven_def)
  also have "\<dots> = driven c x d e s" by (simp only: set_lock_restore[OF f])
  finally show ?thesis .
qed

lemma select_disk_ok:
  assumes A: "ata_disk hw base vec V" and r: "channel_ready base vec hdd s" and c: "c = my_channel (disks s hdd)"
  obtains x d where "select_disk hw hdd s = driven c x d (expection_interrupt (channels s c)) s" "mode V d = mode V (hw_state s)" "media V d = media V (hw_state s)"
proof -
  let ?e = "expection_interrupt (channels s c)"
  define b where "b = (if dev_no (disks s hdd) = 1 then BIT_DEV_LBA OR BIT_DEV_DEFAULT OR BIT_DEV_DEV else BIT_DEV_LBA OR BIT_DEV_DEFAULT)"
  have "select_disk hw hdd s = disk_out hw (base + 6) b s"
    using channel_readyD(4)[OF r c] c by (simp add: select_disk_def channel_of_def reg_dev_def b_def Let_def or.assoc)
  also have "\<dots> = driven c (ports s @ [(base + 6, b)]) (ata_out hw (base + 6) b (hw_state s)) ?e s"
    by (subst driven_self[of s c]) simp
  finally show ?thesis by (rule that) (use ata_regs[OF A] in simp_all)
qed

lemma ide_read_ok:
  assumes A: "ata_disk hw base vec V" and r: "disk_free base vec hdd s" and c: "c = my_channel (disks s hdd)" and m: "mode V (hw_state s) = Idle"
    and l: "unat lba + unat n \<le> 0x28000" "0 < n" "512 * unat n \<le> length obj"
  obtains x d e where "ide_read hw hdd lba obj n s = Inr (sectors (media V (hw_state s)) (dev_no (disks s hdd) = 1) (unat lba) (unat n) @ drop (512 * unat n) obj, driven c x d e s)"
    "mode V d = Idle" "media V d = media V (hw_state s)"
proof -
  let ?l = "channel_lock c" let ?s1 = "set_lock ?l (running_thread s) 1 0 s"
  have f: "lock_free ?l s" "running_thread s \<noteq> 0" using r c by (simp_all add: disk_free_def)
  have r1: "channel_ready base vec hdd ?s1" using channel_ready_locked[OF r] c by simp
  have c1: "c = my_channel (disks ?s1 hdd)" using c by simp
  obtain x1 d1 where s1: "select_disk hw hdd ?s1 = driven c x1 d1 (expection_interrupt (channels ?s1 c)) ?s1"
    "mode V d1 = mode V (hw_state ?s1)" "media V d1 = media V (hw_state ?s1)" by (rule select_disk_ok[OF A r1 c1])
  have m1: "mode V d1 = Idle" using s1(2) m by simp
  obtain x d e where lp: "ide_read_loop hw hdd lba obj n 0 (driven c x1 d1 (expection_interrupt (channels ?s1 c)) ?s1) =
      Inr (sectors (media V d1) (dev_no (disks ?s1 hdd) = 1) (unat lba) (unat n) @ drop (512 * unat n) obj, driven c x d e ?s1)" "mode V d = Idle" "media V d = media V d1"
    using read_loop_ok[OF A r1 c1 l(1) m1 l(3), of 0 x1 "expection_interrupt (channels ?s1 c)"] by auto
  have "lba \<le> max_lba" using l(1,2) by (simp add: max_lba_def word_le_nat_alt word_less_nat_alt)
  then have "ide_read hw hdd lba obj n s = Inr (sectors (media V (hw_state s)) (dev_no (disks s hdd) = 1) (unat lba) (unat n) @ drop (512 * unat n) obj, driven c x d e s)"
    using l(2) lock_acquire_free[OF f] s1 lp driven_locked[OF r c] c by (simp add: ide_read_def ASSERT_def Let_def)
  then show ?thesis by (rule that) (use lp s1 in simp_all)
qed

lemma ide_write_ok:
  assumes A: "ata_disk hw base vec V" and r: "disk_free base vec hdd s" and c: "c = my_channel (disks s hdd)" and m: "mode V (hw_state s) = Idle"
    and l: "unat lba + unat n \<le> 0x28000" "0 < n" "512 * unat n \<le> length obj"
  obtains x d e where "ide_write hw hdd lba obj n s = Inr (driven c x d e s)" "mode V d = Idle"
    "media V d = stored (dev_no (disks s hdd) = 1) (unat lba) (unat n) obj (media V (hw_state s))"
proof -
  let ?l = "channel_lock c" let ?s1 = "set_lock ?l (running_thread s) 1 0 s"
  have f: "lock_free ?l s" "running_thread s \<noteq> 0" using r c by (simp_all add: disk_free_def)
  have r1: "channel_ready base vec hdd ?s1" using channel_ready_locked[OF r] c by simp
  have c1: "c = my_channel (disks ?s1 hdd)" using c by simp
  obtain x1 d1 where s1: "select_disk hw hdd ?s1 = driven c x1 d1 (expection_interrupt (channels ?s1 c)) ?s1"
    "mode V d1 = mode V (hw_state ?s1)" "media V d1 = media V (hw_state ?s1)" by (rule select_disk_ok[OF A r1 c1])
  have m1: "mode V d1 = Idle" using s1(2) m by simp
  obtain x d e where lp: "ide_write_loop hw hdd lba obj n 0 (driven c x1 d1 (expection_interrupt (channels ?s1 c)) ?s1) = Inr (driven c x d e ?s1)"
      "mode V d = Idle" "media V d = stored (dev_no (disks ?s1 hdd) = 1) (unat lba) (unat n) obj (media V d1)"
    using write_loop_ok[OF A r1 c1 l(1,3) m1, of 0 x1 "expection_interrupt (channels ?s1 c)"] by auto
  have "lba \<le> max_lba" using l(1,2) by (simp add: max_lba_def word_le_nat_alt word_less_nat_alt)
  then have "ide_write hw hdd lba obj n s = Inr (driven c x d e s)"
    using l(2) lock_acquire_free[OF f] s1 lp driven_locked[OF r c] c by (simp add: ide_write_def ASSERT_def Let_def)
  then show ?thesis by (rule that) (use lp s1 in simp_all)
qed

lemma disk_free_driven:
  "disk_free base vec hdd (driven (my_channel (disks s hdd)) x d e s) = disk_free base vec hdd s"
  by (simp add: disk_free_def channel_ready_def Let_def intr_get_status_def list_empty_def next_of_def lock_free_def)


section \<open>Further properties of the driver\<close>

lemma busy_wait_loop_returns:
  fixes s :: "('d, 'a) ide_state_scheme" and hw :: "'d ata"
  assumes p: "p = reg_status (channels s c)" and "0 < unat t"
  defines "f \<equiv> \<lambda>d. snd (ata_in hw p d)"
  shows "\<exists>ok k. k \<le> unat t \<and> busy_wait_loop hw c t (s\<lparr>hw_state := d\<rparr>) = Inr (ok, s\<lparr>hw_state := (f ^^ k) d\<rparr>)"
  using assms(2)
proof (induction "unat t" arbitrary: t d rule: less_induct)
  case less
  have rd: "in_byte hw p (s\<lparr>hw_state := d\<rparr>) = (fst (ata_in hw p d), s\<lparr>hw_state := f d\<rparr>)" for d
    by (simp add: in_byte_def f_def split_def Let_def)
  consider "t - 1 = 0" | "t - 1 \<noteq> 0" "fst (ata_in hw p d) AND BIT_ALT_STAT_BUSY = 0" | "t - 1 \<noteq> 0" "fst (ata_in hw p d) AND BIT_ALT_STAT_BUSY \<noteq> 0"
    by blast
  then show ?case
  proof cases
    case 1
    then show ?thesis by (subst busy_wait_loop.simps) (auto intro!: exI[of _ 0])
  next
    case 2
    have "t \<noteq> 1" using 2(1) by auto
    then have "unat t \<noteq> 1" by (metis unsigned_1 word_unat_eq_iff)
    then have "2 \<le> unat t" using less.prems by simp
    then show ?thesis using 2 rd[of d] rd[of "f d"] p
      by (subst busy_wait_loop.simps) (auto intro!: exI[of _ 2] simp: numeral_2_eq_2)
  next
    case 3
    have "t \<noteq> 0" using less.prems by auto
    then have t: "unat (t - 1) = unat t - 1" by (rule unat_minus_one)
    have nz: "unat (t - 1) \<noteq> 0" using 3 by (simp add: unat_eq_zero)
    obtain ok k where k: "k \<le> unat (t - 1)" "busy_wait_loop hw c (t - 1) (s\<lparr>hw_state := f d\<rparr>) = Inr (ok, s\<lparr>hw_state := (f ^^ k) (f d)\<rparr>)"
      using less.hyps[of "t - 1" "f d"] t nz less.prems by auto
    have "busy_wait_loop hw c t (s\<lparr>hw_state := d\<rparr>) = Inr (ok, s\<lparr>hw_state := (f ^^ Suc k) d\<rparr>)"
      unfolding funpow_Suc_right comp_def
      using 3 k(2) rd[of d] p by (subst busy_wait_loop.simps) (simp add: mtime_sleep_skip)
    moreover have "Suc k \<le> unat t" using k(1) t nz by simp
    ultimately show ?thesis by blast
  qed
qed

text \<open>
  C39: whatever the hardware answers, \<^verbatim>\<open>busy_wait\<close> returns, after at most 30000 reads of the status
  register, and has done nothing else.
\<close>

theorem busy_wait_returns:
  "\<exists>ok k. k \<le> 30000 \<and> busy_wait hw hdd s =
     Inr (ok, s\<lparr>hw_state := ((\<lambda>d. snd (ata_in hw (reg_status (channel_of hdd s)) d)) ^^ k) (hw_state s)\<rparr>)"
  using busy_wait_loop_returns[OF refl, where t = 30000 and hw = hw and s = s and c = "my_channel (disks s hdd)" and d = "hw_state s"] by (auto simp: busy_wait_def channel_of_def)

fun swap_pairs :: "u8 list \<Rightarrow> u8 list" where
  "swap_pairs (a # b # bs) = b # a # swap_pairs bs"
| "swap_pairs bs = bs"

lemma swap_pairs_length [simp]: "length (swap_pairs bs) = length bs"
  by (induction bs rule: swap_pairs.induct) simp_all

lemma swap_pairs_twice: "swap_pairs (swap_pairs bs) = bs"
  by (induction bs rule: swap_pairs.induct) simp_all

lemma swap_pairs_append: "even (length xs) \<Longrightarrow> swap_pairs (xs @ ys) = swap_pairs xs @ swap_pairs ys"
  by (induction xs rule: swap_pairs.induct) simp_all

lemma swap_loop_ok:
  assumes "even n" "n \<le> 254" "p + n \<le> length src" "n < length obj"
  shows "\<lbrakk> i \<le> n; even i; length obj' = length obj; take i obj' = swap_pairs (take i (drop p src)); drop n obj' = drop n obj \<rbrakk> \<Longrightarrow>
     swap_pairs_loop src (p + i) obj' (of_nat n) (of_nat i) = Inr (swap_pairs (take n (drop p src)) @ 0 # drop (n + 1) obj)"
proof (induction "n - i" arbitrary: i obj' rule: less_induct)
  case less
  have iu: "unat (of_nat i :: u8) = i" "unat (of_nat n :: u32) = n" using less.prems(1) assms(2) by (simp_all add: unat_of_nat_small)
  have lt: "(ucast (of_nat i :: u8) :: u32) < of_nat n \<longleftrightarrow> i < n"
  proof -
    have "unat (ucast (of_nat i :: u8) :: u32) = i" using iu(1) less.prems(1) assms(2) by (simp add: unsigned_ucast_eq take_bit_nat_eq_self)
    then show ?thesis using iu(2) by (simp add: word_less_nat_alt)
  qed
  show ?case
  proof (cases "i < n")
    case False
    then have "i = n" using less.prems(1) by simp
    then have "obj'[i := 0] = take n obj' @ 0 # drop (n + 1) obj'" using assms(4) less.prems(3) by (simp add: upd_conv_take_nth_drop)
    moreover have "drop (n + 1) obj' = drop (n + 1) obj" using less.prems(5) by (metis drop_drop add.commute)
    ultimately show ?thesis using lt iu assms(4) less.prems(3,4) \<open>i = n\<close> by (subst swap_pairs_loop.simps) (simp add: put_at_def)
  next
    case True
    then have n2: "i + 2 \<le> n" using assms(1) less.prems(2) by presburger
    let ?o = "obj'[i + 1 := src ! (p + i), i := src ! (p + i + 1)]"
    have st: "swap_pairs_loop src (p + i) obj' (of_nat n) (of_nat i) = swap_pairs_loop src (p + (i + 2)) ?o (of_nat n) (of_nat (i + 2))"
      using True n2 lt iu assms(3,4) less.prems(3) by (subst swap_pairs_loop.simps) (simp add: put_at_def add.commute add.left_commute)
    have d: "take (i + 2) (drop p src) = take i (drop p src) @ [src ! (p + i), src ! (p + i + 1)]"
      using n2 assms(3) by (simp add: take_Suc_conv_app_nth numeral_2_eq_2)
    have "take (i + 2) ?o = take i obj' @ [src ! (p + i + 1), src ! (p + i)]"
      using n2 assms(4) less.prems(3) by (simp add: take_Suc_conv_app_nth numeral_2_eq_2 take_update_cancel)
    also have "\<dots> = swap_pairs (take (i + 2) (drop p src))"
      unfolding d using less.prems(2,4) n2 assms(3) by (simp add: swap_pairs_append)
    finally have t: "take (i + 2) ?o = swap_pairs (take (i + 2) (drop p src))" .
    have "drop n ?o = drop n obj" using less.prems(5) n2 by (simp add: drop_update_cancel)
    then show ?thesis unfolding st using less.hyps[of "i + 2" ?o] True n2 less.prems(2,3) t by simp
  qed
qed

text \<open>
  C40: for an even length up to 254 \<^verbatim>\<open>swap_pairs_bytes\<close> computes the string with the two bytes of every
  word exchanged, ends it with 0 and leaves the rest of the buffer; exchanging twice gives the
  original.
\<close>

theorem swap_pairs_bytes_swaps:
  assumes "even n" "n \<le> 254" "p + n \<le> length src" "n < length obj"
  shows "swap_pairs_bytes src p obj (of_nat n) = Inr (swap_pairs (take n (drop p src)) @ 0 # drop (n + 1) obj) \<and>
    swap_pairs (swap_pairs (take n (drop p src))) = take n (drop p src)"
  using swap_loop_ok[OF assms, of 0 obj] by (simp add: swap_pairs_bytes_def swap_pairs_twice)

theorem swap_pairs_bytes_swaps_witness:
  "swap_pairs_bytes [66, 65, 68, 67] 0 [1, 1, 1, 1, 1, 9] 4 = Inr [65, 66, 67, 68, 0, 9]"
  using swap_pairs_bytes_swaps[of 4 0 "[66, 65, 68, 67]" "[1, 1, 1, 1, 1, 9]"] by simp

section \<open>A simulated disk\<close>

text \<open>A disk that behaves as documented: it is never busy, and its sectors are cut or filled up to 512 bytes.\<close>

record sim =
  sim_regs :: "nat \<Rightarrow> u8"
  sim_mode :: ata_mode
  sim_media :: "bool \<Rightarrow> nat \<Rightarrow> u8 list"
  sim_pending :: bool

definition sim_view :: "sim ata_view" where
  "sim_view = \<lparr>regs = sim_regs, mode = sim_mode, media = (\<lambda>d dr k. take 512 (sim_media d dr k @ replicate 512 0)),
     pending = sim_pending, polls = (\<lambda>_. 0)\<rparr>"

definition sim_out :: "u16 \<Rightarrow> u8 \<Rightarrow> sim \<Rightarrow> sim" where
  "sim_out port v d =
     (if port = 0x1f7 then
        let r = sim_regs d; dr = reg_drive r; l = reg_lba r; n = reg_count r in
        if v = CMD_READ_SECTOR then d\<lparr>sim_mode := Reading dr l n, sim_pending := True\<rparr>
        else if v = CMD_WRITE_SECTOR then d\<lparr>sim_mode := Writing dr l n, sim_pending := False\<rparr>
        else d
      else d\<lparr>sim_regs := (sim_regs d)(unat (port - 0x1f0) := v)\<rparr>)"

definition sim_ins :: "u16 \<Rightarrow> nat \<Rightarrow> sim \<Rightarrow> u16 list \<times> sim" where
  "sim_ins port k d = (case sim_mode d of
     Reading dr l n \<Rightarrow> (byte_words (sectors (media sim_view d) dr l n), d\<lparr>sim_mode := Idle\<rparr>)
   | _ \<Rightarrow> (replicate k 0, d))"

definition sim_outs :: "u16 \<Rightarrow> u16 list \<Rightarrow> sim \<Rightarrow> sim" where
  "sim_outs port ws d = (case sim_mode d of
     Writing dr l n \<Rightarrow> d\<lparr>sim_mode := Idle, sim_media := stored dr l n (concat (map word_bytes ws)) (sim_media d), sim_pending := True\<rparr>
   | _ \<Rightarrow> d)"

definition sim_disk :: "sim ata" where
  "sim_disk = \<lparr>ata_out = sim_out, ata_in = (\<lambda>port d. (8, d\<lparr>sim_pending := False\<rparr>)), ata_outs = sim_outs, ata_ins = sim_ins,
     ata_irq = (\<lambda>vec d. (sim_pending d, d))\<rparr>"

lemma sim_stored:
  assumes "length ws = 256 * n"
  shows "(\<lambda>dr' k. take 512 (stored dr l n (concat (map word_bytes ws)) m dr' k @ replicate 512 0)) =
    stored dr l n (concat (map word_bytes ws)) (\<lambda>dr' k. take 512 (m dr' k @ replicate 512 0))"
proof -
  let ?bs = "concat (map word_bytes ws)"
  have len: "length ?bs = 512 * n" using assms by (simp add: length_concat o_def word_bytes_def sum_list_triv)
  have "512 \<le> length (drop (512 * (k - l)) ?bs)" if "l \<le> k" "k < l + n" for k
    unfolding length_drop len using that by (simp add: diff_mult_distrib2[symmetric])
  then show ?thesis by (auto simp: stored_def fun_eq_iff)
qed

lemma sim_ata: "ata_disk sim_disk 0x1f0 0x2e sim_view"
proof -
  have "ata_registers sim_disk 0x1f0 sim_view"
  proof -
    have "sim_out (0x1f0 + of_nat i) v d = d\<lparr>sim_regs := (sim_regs d)(i := v)\<rparr>" if "2 \<le> i" "i \<le> 6" for i v d
    proof -
      have "i = 2 \<or> i = 3 \<or> i = 4 \<or> i = 5 \<or> i = 6" using that by auto
      then show ?thesis by (elim disjE) (simp_all add: sim_out_def)
    qed
    then show ?thesis by (simp add: ata_registers_def Let_def sim_view_def sim_disk_def)
  qed
  moreover have "ata_commands sim_disk 0x1f0 sim_view"
    by (simp add: ata_commands_def sim_view_def sim_disk_def sim_out_def CMD_READ_SECTOR_def CMD_WRITE_SECTOR_def Let_def)
  moreover have "ata_status sim_disk 0x1f0 sim_view"
    by (simp add: ata_status_def sim_view_def sim_disk_def bit_numeral_simps)
  moreover have "ata_transfers sim_disk 0x1f0 0x2e sim_view"
    by (simp add: ata_transfers_def sim_view_def sim_disk_def sim_ins_def sim_outs_def sim_stored del: take_append)
  moreover have "length (media sim_view d dr k) = 512" for d dr k by (simp add: sim_view_def)
  ultimately show ?thesis by (simp add: ata_disk_def)
qed

text \<open>The first disk of the first channel, as \<^verbatim>\<open>ide_init\<close> sets them up, with open interrupts.\<close>

definition disk_sample :: "(sim, unit) ide_state_scheme" where
  "disk_sample = lock_init (channel_lock 0xc0007000) (sem_init (disk_done_sem 0xc0007000) 0
     (sys_state.extend (sys_state.truncate (sys_sample\<lparr>eflags := 0x202\<rparr>))
      \<lparr>channels = (\<lambda>_. \<lparr>channel_name = [], port_base = 0x1f0, interrupt_number = 0x2e, expection_interrupt = False\<rparr>),
       disks = (\<lambda>_. \<lparr>disk_name = [], my_channel = 0xc0007000, dev_no = 0\<rparr>),
       partitions = (\<lambda>_. \<lparr>start_lba = 0, sector_counter = 0, my_disk = 0, part_name = []\<rparr>),
       channel_cnt = 1, ide_channels = 0xc0007000, extra_lba_base = 0, primary_idx = 0, logic_idx = 0, partition_list = 0xc0005000,
       hw_state = \<lparr>sim_regs = (\<lambda>_. 0), sim_mode = Idle, sim_media = (\<lambda>_ _. []), sim_pending = False\<rparr>\<rparr>))"

lemma disk_sample_free: "disk_free 0x1f0 0x2e 0xc0007040 disk_sample"
proof -
  have "channel_ready 0x1f0 0x2e 0xc0007040 disk_sample"
    by (simp add: channel_ready_def disk_sample_def Let_def sys_state.defs lock_init_def sem_init_def list_init_def set_next_def set_prev_def
      channel_addr_def intr_get_status_def EFLAG_IF_ON_def list_empty_def next_of_def head_of_def tail_of_def sem_waiter_def lock_sem_def
      disk_done_sem_def channel_lock_def)
  moreover have "running_thread disk_sample = running_thread sys_sample"
    by (simp add: disk_sample_def Let_def sys_state.defs lock_init_def sem_init_def list_init_def set_next_def set_prev_def running_thread_def)
  moreover have "running_thread sys_sample \<noteq> 0" using sys_sample_ready(2) by (simp add: may_print_def)
  moreover have "lock_free (channel_lock (my_channel (disks disk_sample 0xc0007040))) disk_sample"
    by (simp add: lock_free_def disk_sample_def Let_def sys_state.defs lock_init_def sem_init_def list_init_def set_next_def set_prev_def
      list_empty_def next_of_def head_of_def tail_of_def sem_waiter_def lock_sem_def disk_done_sem_def channel_lock_def)
  ultimately show ?thesis by (simp add: disk_free_def)
qed


text \<open>
  A fourth primary partition: the index is advanced before it is compared with 4, so the assertion stops the
  kernel although the table of the disk has room for four.
\<close>

lemma fourth_primary_stops:
  assumes "fs_type p \<noteq> 0x5" "fs_type p \<noteq> 0" "primary_idx s = 3"
  shows "scan_entries call hdd 0 (p # ps) s =
    bnd (add_partition hdd (prim_parts hdd 3) 4 0 p s) (\<lambda>_. Inl (Assert_failed ''primary_idx < 4''))"
proof -
  have k: "primary_idx t = primary_idx s" if "add_partition hdd part i l p s = Inr t" for part i l t
    using that by (auto simp: add_partition_def Let_def upd_part_def list_append_eq bnd_def split: sum.splits prod.splits)
  show ?thesis
  proof (cases "add_partition hdd (prim_parts hdd 3) 4 0 p s")
    case (Inr t)
    then show ?thesis using k[OF Inr] assms by (simp add: ASSERT_def)
  qed (use assms in simp)
qed
end
