(* ===== verification/Fs.thy ===== *)
theory Fs
  imports Disk
begin

text \<open>
  The data of the file system and its bitmaps, open files and inodes: \<^verbatim>\<open>fs/super_block.h\<close>,
  \<^verbatim>\<open>fs/inode.c\<close> and \<^verbatim>\<open>fs/file.c\<close>.

  Inodes, directories and super blocks in memory are stores from addresses to records; on the disk they are
  their bytes, a word with its low byte first. The type \<^verbatim>\<open>bool\<close> of the source is
  \<^verbatim>\<open>int\<close>, so no structure here has padding. The node \<^verbatim>\<open>inode_tag\<close> of an inode is a node
  of the list store. A block from \<^verbatim>\<open>sys_malloc\<close> is cleared; what is written to the address 0 when there is none
  is not modelled.
\<close>

section \<open>Data\<close>

definition MAX_FILES_PER_PART :: u32 where "MAX_FILES_PER_PART = 4096"
definition BITS_PER_SECTOR :: u32 where "BITS_PER_SECTOR = 4096"
definition SECTOR_SIZE :: u32 where "SECTOR_SIZE = 512"
definition BLOCK_SIZE :: u32 where "BLOCK_SIZE = SECTOR_SIZE"
definition MAX_FILE_NAME_LEN :: u32 where "MAX_FILE_NAME_LEN = 16"
definition MAX_PATH_LEN :: u32 where "MAX_PATH_LEN = 512"

record super_block =
  magic :: u32
  sb_sec_cnt :: u32
  inode_cnt :: u32
  part_lba_base :: u32
  block_bitmap_lba :: u32
  block_bitmap_sects :: u32
  inode_bitmap_lba :: u32
  inode_bitmap_sects :: u32
  inode_table_lba :: u32
  inode_table_sects :: u32
  data_start_lba :: u32
  root_inode_no :: u32
  sb_dir_entry_size :: u32
  pad :: "u8 list"

record inode =
  i_no :: u32
  i_size :: u32
  i_open_cnts :: u32
  write_deny :: u32
  i_sectors :: "u32 list"

record inode_position =
  two_sec :: bool
  sec_lba :: u32
  off_size :: u32

record dir =
  dir_inode :: u32
  dir_pos :: u32
  dir_buf :: "u8 list"

record dir_entry =
  filename :: "u8 list"
  entry_no :: u32
  f_type :: u32

record file_struct =
  fd_pos :: u32
  fd_flag :: u32
  fd_inode :: u32

text \<open>The fields of \<^verbatim>\<open>struct partition\<close> that the file system uses.\<close>

record mounted =
  sb :: u32
  block_bitmap :: bitmap
  inode_bitmap :: bitmap

record 'd fs_state = "'d ide_state" +
  mounts :: "u32 \<Rightarrow> mounted"
  super_blocks :: "u32 \<Rightarrow> super_block"
  inodes :: "u32 \<Rightarrow> inode"
  dirs :: "u32 \<Rightarrow> dir"
  root_dir :: u32
  curr_part :: u32
  file_table :: "file_struct list"

definition SIZEOF_INODE :: u32 where "SIZEOF_INODE = 76"
definition SIZEOF_DIR :: u32 where "SIZEOF_DIR = 520"
definition SIZEOF_DIR_ENTRY :: u32 where "SIZEOF_DIR_ENTRY = 24"
definition open_inodes :: "u32 \<Rightarrow> u32" where "open_inodes part = part + 48"
definition inode_tag :: "u32 \<Rightarrow> u32" where "inode_tag node = node + 68"
definition inode_of_tag :: "u32 \<Rightarrow> u32" where "inode_of_tag t = t - 68"

definition upd_mount :: "u32 \<Rightarrow> (mounted \<Rightarrow> mounted) \<Rightarrow> ('d, 'a) fs_state_scheme \<Rightarrow> ('d, 'a) fs_state_scheme" where
  "upd_mount part f s = s\<lparr>mounts := (mounts s)(part := f (mounts s part))\<rparr>"

definition upd_inode :: "u32 \<Rightarrow> (inode \<Rightarrow> inode) \<Rightarrow> ('d, 'a) fs_state_scheme \<Rightarrow> ('d, 'a) fs_state_scheme" where
  "upd_inode a f s = s\<lparr>inodes := (inodes s)(a := f (inodes s a))\<rparr>"

definition sb_of :: "u32 \<Rightarrow> ('d, 'a) fs_state_scheme \<Rightarrow> super_block" where
  "sb_of part s = super_blocks s (sb (mounts s part))"

section \<open>Bytes\<close>

definition word32_bytes :: "u32 \<Rightarrow> u8 list" where
  "word32_bytes w = [ucast w, ucast (drop_bit 8 w), ucast (drop_bit 16 w), ucast (drop_bit 24 w)]"

definition words_bytes :: "u32 list \<Rightarrow> u8 list" where
  "words_bytes ws = concat (map word32_bytes ws)"

definition words_of :: "u8 list \<Rightarrow> nat \<Rightarrow> u32 list" where
  "words_of bs n = map (\<lambda>i. le32 bs (4 * i)) [0..<n]"

definition super_block_bytes :: "super_block \<Rightarrow> u8 list" where
  "super_block_bytes b = words_bytes [magic b, sb_sec_cnt b, inode_cnt b, part_lba_base b, block_bitmap_lba b, block_bitmap_sects b,
     inode_bitmap_lba b, inode_bitmap_sects b, inode_table_lba b, inode_table_sects b, data_start_lba b, root_inode_no b, sb_dir_entry_size b] @ pad b"

definition super_block_of :: "u8 list \<Rightarrow> super_block" where
  "super_block_of bs =
     (let w = (\<lambda>i. le32 bs (4 * i)) in
      \<lparr>magic = w 0, sb_sec_cnt = w 1, inode_cnt = w 2, part_lba_base = w 3, block_bitmap_lba = w 4, block_bitmap_sects = w 5,
       inode_bitmap_lba = w 6, inode_bitmap_sects = w 7, inode_table_lba = w 8, inode_table_sects = w 9, data_start_lba = w 10,
       root_inode_no = w 11, sb_dir_entry_size = w 12, pad = drop 52 bs\<rparr>)"

definition inode_bytes :: "inode \<Rightarrow> list_elem \<Rightarrow> u8 list" where
  "inode_bytes i tag = words_bytes ([i_no i, i_size i, i_open_cnts i, write_deny i] @ i_sectors i @ [l_prev tag, l_next tag])"

definition inode_of :: "u8 list \<Rightarrow> inode" where
  "inode_of bs = (let w = (\<lambda>i. le32 bs (4 * i)) in
     \<lparr>i_no = w 0, i_size = w 1, i_open_cnts = w 2, write_deny = w 3, i_sectors = map (\<lambda>i. w (4 + i)) [0..<13]\<rparr>)"

definition dir_entry_bytes :: "dir_entry \<Rightarrow> u8 list" where
  "dir_entry_bytes e = filename e @ words_bytes [entry_no e, f_type e]"

definition dir_entry_of :: "u8 list \<Rightarrow> dir_entry" where
  "dir_entry_of bs = \<lparr>filename = take 16 bs, entry_no = le32 bs 16, f_type = le32 bs 20\<rparr>"

section \<open>Inodes\<close>

definition inode_locate :: "u32 \<Rightarrow> u32 \<Rightarrow> ('d, 'a) fs_state_scheme \<Rightarrow> error + inode_position" where
  "inode_locate part inode_no s =
     bnd (ASSERT (inode_no < 4096) ''inode_no < 4096'') (\<lambda>_.
     let inode_size = SIZEOF_INODE;
         table_lba = inode_table_lba (sb_of part s);
         inode_sum_size = inode_no * inode_size;
         the_inode_start_lba = table_lba + (inode_sum_size div 512);
         left_inode_size = inode_sum_size mod 512
     in Inr \<lparr>two_sec = (if 512 - left_inode_size > inode_size then False else True), sec_lba = the_inode_start_lba, off_size = left_inode_size\<rparr>)"

text \<open>\<^verbatim>\<open>inode_sync\<close> returns the buffer of the caller with its new contents.\<close>

definition inode_sync :: "'d ata \<Rightarrow> u32 \<Rightarrow> u32 \<Rightarrow> u8 list \<Rightarrow> ('d, 'a) fs_state_scheme \<Rightarrow> error + (u8 list \<times> ('d, 'a) fs_state_scheme)" where
  "inode_sync hw part node io_buff s =
     bnd (inode_locate part (i_no (inodes s node)) s) (\<lambda>pos.
     bnd (ASSERT (sec_lba pos \<le> start_lba (partitions s part) + sector_counter (partitions s part))
       ''inode_pos.sec_lba <= (part->start_lba + part->sector_counter)'') (\<lambda>_.
     let pure_inode = (inodes s node)\<lparr>i_open_cnts := 0, write_deny := 0\<rparr>;
         bs = inode_bytes pure_inode \<lparr>l_prev = 0, l_next = 0\<rparr>;
         n = (if two_sec pos then 2 else 1)
     in bnd (ide_read hw (my_disk (partitions s part)) (sec_lba pos) io_buff n s) (\<lambda>(inode_buf, s).
        bnd (put_bytes inode_buf (unat (off_size pos)) bs) (\<lambda>inode_buf.
        bnd (ide_write hw (my_disk (partitions s part)) (sec_lba pos) inode_buf n s) (\<lambda>s.
        Inr (inode_buf, s))))))"

text \<open>The search in the list of open inodes; 0 when the inode is not open.\<close>

partial_function (option) find_open :: "(u32 \<Rightarrow> list_elem) \<Rightarrow> (u32 \<Rightarrow> inode) \<Rightarrow> u32 \<Rightarrow> u32 \<Rightarrow> u32 \<Rightarrow> u32 option" where
  "find_open h tbl stop inode_no tmp_elem =
     (if tmp_elem \<noteq> stop
      then (if i_no (tbl (inode_of_tag tmp_elem)) = inode_no then Some (inode_of_tag tmp_elem)
            else find_open h tbl stop inode_no (l_next (h tmp_elem)))
      else Some 0)"

text \<open>The part of \<^verbatim>\<open>inode_open\<close> that fetches the inode from the table on the disk.\<close>

definition inode_fetch :: "'d ata \<Rightarrow> u32 \<Rightarrow> inode_position \<Rightarrow> ('d, 'a) fs_state_scheme \<Rightarrow> error + (inode \<times> ('d, 'a) fs_state_scheme)" where
  "inode_fetch hw part pos s =
     (let n = (if two_sec pos then 2 else 1) in
      bnd (ide_read hw (my_disk (partitions s part)) (sec_lba pos) (replicate (512 * unat n) 0) n s) (\<lambda>(io_buf, s).
      bnd (get_bytes io_buf (unat (off_size pos)) (unat SIZEOF_INODE)) (\<lambda>bs. Inr (inode_of bs, s))))"

definition set_pgdir :: "u32 \<Rightarrow> ('d, 'a) fs_state_scheme \<Rightarrow> ('d, 'a) fs_state_scheme" where
  "set_pgdir d s = upd_pcb (running_thread s) (\<lambda>p. p\<lparr>pgdir := d\<rparr>) s"

definition inode_open :: "'d ata \<Rightarrow> u32 \<Rightarrow> u32 \<Rightarrow> ('d, 'a) fs_state_scheme \<Rightarrow> error + (u32 \<times> ('d, 'a) fs_state_scheme)" where
  "inode_open hw part inode_no s =
     bnd (returned (find_open (lheap s) (inodes s) (tail_of (open_inodes part)) inode_no (next_of (head_of (open_inodes part)) s))) (\<lambda>found.
     if found \<noteq> 0 then Inr (found, upd_inode found (\<lambda>i. i\<lparr>i_open_cnts := i_open_cnts i + 1\<rparr>) s)
     else let keep_pgdir = pgdir (pcbs s (running_thread s)) in
          bnd (sys_malloc SIZEOF_INODE (set_pgdir 0 s)) (\<lambda>(curr_inode, s).
          let s = set_pgdir keep_pgdir s in
          bnd (inode_locate part inode_no s) (\<lambda>pos.
          bnd (sys_malloc (if two_sec pos then 1024 else 512) s) (\<lambda>(io_buf, s).
          bnd (inode_fetch hw part pos s) (\<lambda>(i, s).
          let s = upd_inode curr_inode (\<lambda>_. i) s;
              s = list_append (open_inodes part) (inode_tag curr_inode) s;
              s = upd_inode curr_inode (\<lambda>i. i\<lparr>i_open_cnts := 1\<rparr>) s
          in bnd (sys_free io_buf s) (\<lambda>s. Inr (curr_inode, s)))))))"

definition close_tail :: "u32 \<Rightarrow> bool \<Rightarrow> intr_status \<Rightarrow> ('d, 'a) fs_state_scheme \<Rightarrow> error + ('d, 'a) fs_state_scheme" where
  "close_tail node unused old_status s =
     bnd (if unused
          then let s = list_remove (inode_tag node) s;
                   keep_pgdir = pgdir (pcbs s (running_thread s))
               in bnd (sys_free node (set_pgdir 0 s)) (\<lambda>s. Inr (set_pgdir keep_pgdir s))
          else Inr s) (\<lambda>s.
     Inr (snd (intr_set_status old_status s)))"

definition inode_close :: "u32 \<Rightarrow> ('d, 'a) fs_state_scheme \<Rightarrow> error + ('d, 'a) fs_state_scheme" where
  "inode_close node s =
     (let (old_status, s) = intr_disable s;
          s = upd_inode node (\<lambda>i. i\<lparr>i_open_cnts := i_open_cnts i - 1\<rparr>) s
      in close_tail node (i_open_cnts (inodes s node) = 0) old_status s)"

definition inode_init :: "u32 \<Rightarrow> u32 \<Rightarrow> ('d, 'a) fs_state_scheme \<Rightarrow> ('d, 'a) fs_state_scheme" where
  "inode_init inode_no new_inode s =
     upd_inode new_inode (\<lambda>i. i\<lparr>i_no := inode_no, i_open_cnts := 0, i_size := 0, write_deny := 0, i_sectors := replicate 13 0\<rparr>) s"

section \<open>Open files and bitmaps\<close>

definition MAX_FILE_OPEN :: nat where "MAX_FILE_OPEN = 32"

text \<open>The loops of \<^verbatim>\<open>get_free_slot_in_global\<close> and \<^verbatim>\<open>pcb_fd_install\<close>: the first index from 3 on that is free.\<close>

fun first_slot :: "('a \<Rightarrow> bool) \<Rightarrow> 'a list \<Rightarrow> nat \<Rightarrow> nat \<Rightarrow> error + nat" where
  "first_slot free_slot xs idx 0 = Inr idx"
| "first_slot free_slot xs idx (Suc n) =
     bnd (get_at xs idx) (\<lambda>x. if free_slot x then Inr idx else first_slot free_slot xs (idx + 1) n)"

definition get_free_slot_in_global :: "('d, 'a) fs_state_scheme \<Rightarrow> error + (u32 \<times> ('d, 'a) fs_state_scheme)" where
  "get_free_slot_in_global s =
     bnd (first_slot (\<lambda>f. fd_inode f = 0) (file_table s) 3 (MAX_FILE_OPEN - 3)) (\<lambda>idx.
     if idx = MAX_FILE_OPEN
     then bnd (printk (\<lambda>_. []) (c_string ''exceed max open files\<newline>'') [] s) (\<lambda>(_, s). Inr (-1, s))
     else Inr (of_nat idx, s))"

definition pcb_fd_install :: "u32 \<Rightarrow> ('d, 'a) fs_state_scheme \<Rightarrow> error + (u32 \<times> ('d, 'a) fs_state_scheme)" where
  "pcb_fd_install global_fd_idx s =
     (let curr_prog = running_thread s in
      bnd (first_slot (\<lambda>fd. fd = -1) (fd_table (pcbs s curr_prog)) 3 (MAX_FILES_OPEN_PER_PROC - 3)) (\<lambda>idx.
      if idx = MAX_FILES_OPEN_PER_PROC
      then bnd (printk (\<lambda>_. []) (c_string ''exceed max open file_per_proc\<newline>'') [] s) (\<lambda>(_, s). Inr (-1, s))
      else Inr (of_nat idx, upd_pcb curr_prog (\<lambda>p. p\<lparr>fd_table := (fd_table p)[idx := global_fd_idx]\<rparr>) s)))"

definition inode_bitmap_alloc :: "u32 \<Rightarrow> ('d, 'a) fs_state_scheme \<Rightarrow> error + (u32 \<times> ('d, 'a) fs_state_scheme)" where
  "inode_bitmap_alloc part s =
     bnd (bitmap_scan (inode_bitmap (mounts s part)) 1) (\<lambda>idx.
     if idx = -1 then Inr (-1, s)
     else bnd (bitmap_set (inode_bitmap (mounts s part)) idx 1) (\<lambda>b.
          Inr (idx, upd_mount part (\<lambda>m. m\<lparr>inode_bitmap := b\<rparr>) s)))"

definition block_bitmap_alloc :: "u32 \<Rightarrow> ('d, 'a) fs_state_scheme \<Rightarrow> error + (u32 \<times> ('d, 'a) fs_state_scheme)" where
  "block_bitmap_alloc part s =
     bnd (bitmap_scan (block_bitmap (mounts s part)) 1) (\<lambda>idx.
     if idx = -1 then Inr (-1, s)
     else bnd (bitmap_set (block_bitmap (mounts s part)) idx 1) (\<lambda>b.
          let s = upd_mount part (\<lambda>m. m\<lparr>block_bitmap := b\<rparr>) s
          in Inr (data_start_lba (sb_of part s) + idx, s)))"

datatype bitmap_type = INODE_BITMAP | BLOCK_BITMAP

text \<open>Both branches write the bytes of the inode bitmap, and the first one to the inode table.\<close>

definition bitmap_sync :: "'d ata \<Rightarrow> u32 \<Rightarrow> u32 \<Rightarrow> bitmap_type \<Rightarrow> ('d, 'a) fs_state_scheme \<Rightarrow> error + ('d, 'a) fs_state_scheme" where
  "bitmap_sync hw part bit_idx btmp s =
     (let off_sec = bit_idx div (SECTOR_SIZE * 8);
          off_bytes = BLOCK_SIZE * off_sec;
          lba = (if btmp = INODE_BITMAP then inode_table_lba (sb_of part s) + off_sec else block_bitmap_lba (sb_of part s) + off_sec);
          bitmap_off = drop (unat off_bytes) (bits (inode_bitmap (mounts s part)))
      in ide_write hw (my_disk (partitions s part)) lba bitmap_off 1 s)"

section \<open>Words in bytes\<close>

lemma word32_bytes_length [simp]: "length (word32_bytes w) = 4"
  by (simp add: word32_bytes_def)

lemma words_bytes_simps [simp]: "words_bytes [] = []" "words_bytes (w # ws) = word32_bytes w @ words_bytes ws" "length (words_bytes ws) = 4 * length ws"
  by (simp_all add: words_bytes_def length_concat o_def sum_list_triv)

lemma le32_word [simp]: "le32 (word32_bytes w @ bs) 0 = w"
proof -
  have "ucast (ucast w :: u8) OR push_bit 8 (ucast (ucast (drop_bit 8 w) :: u8)) OR push_bit 16 (ucast (ucast (drop_bit 16 w) :: u8)) OR
      push_bit 24 (ucast (ucast (drop_bit 24 w) :: u8)) = w"
  proof (rule bit_word_eqI)
    fix n assume "n < LENGTH(32)"
    then consider "n < 8" | "8 \<le> n" "n < 16" | "16 \<le> n" "n < 24" | "24 \<le> n" "n < 32" by fastforce
    then show "bit (ucast (ucast w :: u8) OR push_bit 8 (ucast (ucast (drop_bit 8 w) :: u8)) OR push_bit 16 (ucast (ucast (drop_bit 16 w) :: u8)) OR
      push_bit 24 (ucast (ucast (drop_bit 24 w) :: u8)) :: u32) n = bit w n"
      by cases (auto simp: bit_simps)
  qed
  then show ?thesis by (simp add: le32_def word32_bytes_def)
qed

lemma le32_append: "length xs = n \<Longrightarrow> le32 (xs @ ys) (n + p) = le32 ys p"
  by (auto simp: le32_def nth_append add.assoc)

lemma le32_words: "i < length ws \<Longrightarrow> le32 (words_bytes ws @ bs) (4 * i) = ws ! i"
proof (induction ws arbitrary: i)
  case (Cons w ws)
  then show ?case by (cases i) (auto simp: le32_append[of "word32_bytes w" 4])
qed simp

lemma inode_round_trip:
  assumes "length (i_sectors i) = 13"
  shows "inode_of (inode_bytes i tag) = i"
proof -
  let ?ws = "[i_no i, i_size i, i_open_cnts i, write_deny i] @ i_sectors i @ [l_prev tag, l_next tag]"
  have w: "le32 (words_bytes ?ws) (4 * k) = ?ws ! k" if "k < 19" for k
    using le32_words[of k ?ws "[]"] that assms by simp
  have "le32 (words_bytes ?ws) (4 * (4 + j)) = i_sectors i ! j" if "j < 13" for j
    using w[of "4 + j"] that assms by (simp only:) (simp add: nth_append)
  then have "map (\<lambda>j. le32 (words_bytes ?ws) (4 * (4 + j))) [0..<13] = i_sectors i"
    by (intro nth_equalityI) (use assms in simp_all)
  then show ?thesis using w[of 0] w[of 1] w[of 2] w[of 3] by (cases i) (simp add: inode_of_def inode_bytes_def Let_def del: words_bytes_simps)
qed

lemma inode_bytes_length [simp]: "length (inode_bytes i tag) = 24 + 4 * length (i_sectors i)"
  by (simp add: inode_bytes_def)

section \<open>The table of inodes\<close>

lemma sectors_part:
  assumes "\<forall>k. length (m dr k) = 512" "q + n \<le> N"
  shows "sectors m dr (l + q) n = take (512 * n) (drop (512 * q) (sectors m dr l N))"
proof -
  have N: "N = q + (n + (N - q - n))" using assms(2) by simp
  have "sectors m dr l N = sectors m dr l q @ sectors m dr (l + q) n @ sectors m dr (l + q + n) (N - q - n)"
    by (subst N) (simp add: sectors_append)
  then show ?thesis using sectors_length[of m dr l q] sectors_length[of m dr "l + q" n] assms(1) by simp
qed

lemma sectors_stored:
  assumes "\<forall>k. length (m dr k) = 512" "q + n \<le> N" "length bs = 512 * n"
  shows "sectors (stored dr (l + q) n bs m) dr l N = take (512 * q) (sectors m dr l N) @ bs @ drop (512 * (q + n)) (sectors m dr l N)"
proof -
  let ?m = "stored dr (l + q) n bs m"
  have N: "N = q + (n + (N - q - n))" using assms(2) by simp
  have other: "sectors ?m dr a b = sectors m dr a b" if "a + b \<le> l + q \<or> l + q + n \<le> a" for a b
    using that by (auto simp: sectors_def stored_def intro!: arg_cong[of _ _ concat])
  have "sectors ?m dr l N = sectors ?m dr l q @ sectors ?m dr (l + q) n @ sectors ?m dr (l + q + n) (N - q - n)"
    by (subst N) (simp add: sectors_append)
  also have "\<dots> = sectors m dr l q @ bs @ sectors m dr (l + q + n) (N - q - n)"
    using other stored_read[OF assms(3)] by simp
  also have "sectors m dr l q = take (512 * q) (sectors m dr l N)" using sectors_part[of m dr 0 q N l] assms(1,2) by simp
  also have "sectors m dr (l + q + n) (N - q - n) = drop (512 * (q + n)) (sectors m dr l N)"
    using sectors_part[of m dr "q + n" "N - q - n" N l] sectors_length[of m dr l N] assms(1,2) by (simp add: add.assoc)
  finally show ?thesis .
qed

lemma entry_updated:
  assumes "length bs = w" "w * j + w \<le> length xs" "w * k + w \<le> length xs"
  shows "take w (drop (w * k) (take (w * j) xs @ bs @ drop (w * j + w) xs)) = (if k = j then bs else take w (drop (w * k) xs))"
proof -
  consider "k = j" | "k < j" | "j < k" by linarith
  then show ?thesis
  proof cases
    case 2
    then have "w * (k + 1) \<le> w * j" by (intro mult_le_mono2) simp
    then have "take w (drop (w * k) (take (w * j) xs)) = take w (drop (w * k) xs)" by (simp add: drop_take min_def)
    moreover have "w * k + w \<le> length (take (w * j) xs)" using \<open>w * (k + 1) \<le> w * j\<close> assms(2) by simp
    ultimately show ?thesis using 2 by simp
  next
    case 3
    then have "w * (j + 1) \<le> w * k" by (intro mult_le_mono2) simp
    moreover have "length (take (w * j) xs @ bs) = w * j + w" using assms(1,2) by simp
    ultimately have "drop (w * k) ((take (w * j) xs @ bs) @ drop (w * j + w) xs) = drop (w * k) xs" by (simp only: drop_append drop_drop) simp
    then show ?thesis using 3 by simp
  qed (use assms in simp)
qed

lemma stored_prefix:
  assumes "length bs = 512 * n"
  shows "stored dr l n (bs @ cs) m = stored dr l n bs m"
proof (intro ext)
  fix dr' k
  have "512 * (k - l) + 512 \<le> length bs" if "l \<le> k" "k < l + n" using that assms by auto
  then show "stored dr l n (bs @ cs) m dr' k = stored dr l n bs m dr' k" by (auto simp: stored_def)
qed

lemma splice:
  assumes "r + w \<le> l"
  shows "take q xs @ (take r (take l (drop q xs)) @ bs @ drop (r + w) (take l (drop q xs))) @ drop (q + l) xs = take (q + r) xs @ bs @ drop (q + r + w) xs"
proof -
  have "take q xs @ take r (drop q xs) = take (q + r) xs" by (simp add: take_add)
  moreover have "drop (r + w) (take l (drop q xs)) @ drop (q + l) xs = drop (q + r + w) xs"
  proof -
    have "drop (r + w) (take l (drop q xs)) @ drop (l - (r + w)) (drop (r + w) (drop q xs)) = drop (r + w) (drop q xs)"
      by (simp only: drop_take append_take_drop_id)
    then show ?thesis using assms by (simp add: add.commute add.left_commute)
  qed
  ultimately show ?thesis using assms by (simp add: min_def)
qed

text \<open>
  The abstract view of the table: the bytes of its sectors, cut into entries of 76 bytes.
\<close>

definition on_drive :: "u32 \<Rightarrow> ('d, 'a) fs_state_scheme \<Rightarrow> bool" where
  "on_drive part s = (dev_no (disks s (my_disk (partitions s part))) = 1)"

definition table_bytes :: "'d ata_view \<Rightarrow> u32 \<Rightarrow> ('d, 'a) fs_state_scheme \<Rightarrow> u8 list" where
  "table_bytes V part s = sectors (media V (hw_state s)) (on_drive part s) (unat (inode_table_lba (sb_of part s))) 609"

definition table_inode :: "'d ata_view \<Rightarrow> u32 \<Rightarrow> nat \<Rightarrow> ('d, 'a) fs_state_scheme \<Rightarrow> inode" where
  "table_inode V part k s = inode_of (take 76 (drop (76 * k) (table_bytes V part s)))"

text \<open>A mounted partition whose disk is free and whose table of inodes lies on the disk and in the partition.\<close>

definition inodes_ready :: "'d ata \<Rightarrow> u16 \<Rightarrow> u8 \<Rightarrow> 'd ata_view \<Rightarrow> u32 \<Rightarrow> ('d, 'a) fs_state_scheme \<Rightarrow> bool" where
  "inodes_ready hw base vec V part s \<longleftrightarrow> ata_disk hw base vec V \<and> disk_free base vec (my_disk (partitions s part)) s \<and> mode V (hw_state s) = Idle \<and>
     unat (inode_table_lba (sb_of part s)) + 609 \<le> 0x28000 \<and>
     unat (inode_table_lba (sb_of part s)) + 608 \<le> unat (start_lba (partitions s part) + sector_counter (partitions s part))"

lemma driven_fs [simp]:
  "partitions (driven c x d e s) = partitions s" "sb_of part (driven c x d e s) = sb_of part s" "inodes (driven c x d e s) = inodes s"
  "on_drive part (driven c x d e s) = on_drive part s"
  by (simp_all add: driven_def sb_of_def on_drive_def)

lemma inodes_ready_driven:
  assumes "inodes_ready hw base vec V part s" "c = my_channel (disks s (my_disk (partitions s part)))" "mode V d = Idle"
  shows "inodes_ready hw base vec V part (driven c x d e s)"
  using assms disk_free_driven[of base vec "my_disk (partitions s part)" s x d e] by (simp add: inodes_ready_def)

lemma locate_ok:
  assumes "k < 4096" "unat (inode_table_lba (sb_of part s)) + 609 \<le> 0x28000"
  obtains pos where "inode_locate part (of_nat k) s = Inr pos" "unat (sec_lba pos) = unat (inode_table_lba (sb_of part s)) + 76 * k div 512"
    "unat (off_size pos) = 76 * k mod 512" "76 * k div 512 + (if two_sec pos then 2 else 1) \<le> 609"
    "76 * k mod 512 + 76 \<le> 512 * (if two_sec pos then 2 else 1)"
proof -
  let ?L = "inode_table_lba (sb_of part s)" and ?w = "of_nat k * SIZEOF_INODE :: u32"
  let ?pos = "\<lparr>two_sec = (if 512 - ?w mod 512 > SIZEOF_INODE then False else True), sec_lba = ?L + ?w div 512, off_size = ?w mod 512\<rparr>"
  have w: "unat ?w = 76 * k" using assms(1) by (simp add: SIZEOF_INODE_def unat_word_ariths unat_of_nat)
  have q: "unat (?w div 512) = 76 * k div 512" "unat (?w mod 512) = 76 * k mod 512" using w by (simp_all add: unat_div unat_mod)
  have b: "76 * k div 512 \<le> 607" using assms(1) by auto
  have r: "76 * k mod 512 < 512" by simp
  have lt: "unat (of_nat k :: u32) = k" using assms(1) by (simp add: unat_of_nat)
  have loc: "inode_locate part (of_nat k) s = Inr ?pos"
    using assms(1) lt by (simp add: inode_locate_def ASSERT_def Let_def word_less_nat_alt)
  have sec: "unat (sec_lba ?pos) = unat ?L + 76 * k div 512" using assms(2) b q(1) by (simp add: unat_word_ariths)
  have "?w mod 512 \<le> 512" using q(2) r by (simp add: word_le_nat_alt)
  then have "unat (512 - ?w mod 512) = 512 - 76 * k mod 512" using q(2) by (simp add: unat_sub)
  then have "two_sec ?pos \<longleftrightarrow> \<not> 76 < 512 - 76 * k mod 512" by (simp add: word_less_nat_alt SIZEOF_INODE_def)
  then show ?thesis by (intro that[OF loc sec]) (use q b r in auto)
qed

lemma fetch_ok:
  assumes T: "inodes_ready hw base vec V part s" and k: "k < 4096" and c: "c = my_channel (disks s (my_disk (partitions s part)))"
  obtains x d e where "bnd (inode_locate part (of_nat k) s) (\<lambda>pos. inode_fetch hw part pos s) = Inr (table_inode V part k s, driven c x d e s)"
    "mode V d = Idle" "media V d = media V (hw_state s)"
proof -
  have A: "ata_disk hw base vec V" "disk_free base vec (my_disk (partitions s part)) s" "mode V (hw_state s) = Idle"
    and L: "unat (inode_table_lba (sb_of part s)) + 609 \<le> 0x28000" using T by (simp_all add: inodes_ready_def)
  obtain pos where pos: "inode_locate part (of_nat k) s = Inr pos" "unat (sec_lba pos) = unat (inode_table_lba (sb_of part s)) + 76 * k div 512"
    "unat (off_size pos) = 76 * k mod 512" "76 * k div 512 + (if two_sec pos then 2 else 1) \<le> 609" "76 * k mod 512 + 76 \<le> 512 * (if two_sec pos then 2 else 1)"
    by (rule locate_ok[OF k L])
  let ?n = "(if two_sec pos then 2 else 1) :: u32"
  have n: "unat ?n = (if two_sec pos then 2 else 1)" "0 < ?n" by simp_all
  have len: "\<forall>k. length (media V (hw_state s) (on_drive part s) k) = 512" using A(1) by (simp add: ata_disk_def)
  have lim: "unat (sec_lba pos) + unat ?n \<le> 0x28000" "512 * unat ?n \<le> length (replicate (512 * unat ?n) (0 :: u8))" using pos(2,4) n(1) L by simp_all
  obtain x d e where rd: "ide_read hw (my_disk (partitions s part)) (sec_lba pos) (replicate (512 * unat ?n) 0) ?n s =
      Inr (sectors (media V (hw_state s)) (dev_no (disks s (my_disk (partitions s part))) = 1) (unat (sec_lba pos)) (unat ?n) @
           drop (512 * unat ?n) (replicate (512 * unat ?n) 0), driven c x d e s)"
    "mode V d = Idle" "media V d = media V (hw_state s)" by (rule ide_read_ok[OF A(1,2) c A(3) lim(1) n(2) lim(2)])
  let ?S = "sectors (media V (hw_state s)) (on_drive part s) (unat (sec_lba pos)) (unat ?n)"
  have S: "?S = take (512 * unat ?n) (drop (512 * (76 * k div 512)) (table_bytes V part s))"
    unfolding table_bytes_def pos(2) by (rule sectors_part) (use len pos(4) n(1) in simp_all)
  have "take 76 (drop (76 * k mod 512) ?S) = take 76 (drop (512 * (76 * k div 512) + 76 * k mod 512) (table_bytes V part s))"
    unfolding S using pos(5) n(1) by (simp add: drop_take min_def add.commute)
  then have e: "take 76 (drop (76 * k mod 512) ?S) = take 76 (drop (76 * k) (table_bytes V part s))" unfolding mult_div_mod_eq .
  have "length ?S = 512 * unat ?n" by (rule sectors_length) (rule len)
  then have "get_bytes ?S (unat (off_size pos)) (unat SIZEOF_INODE) = Inr (take 76 (drop (76 * k) (table_bytes V part s)))"
    using pos(3,5) n(1) e by (simp add: get_bytes_def SIZEOF_INODE_def)
  then have "bnd (inode_locate part (of_nat k) s) (\<lambda>pos. inode_fetch hw part pos s) = Inr (table_inode V part k s, driven c x d e s)"
    using pos(1) rd(1) by (simp add: inode_fetch_def Let_def table_inode_def on_drive_def)
  then show ?thesis by (rule that[OF _ rd(2,3)])
qed

lemma sync_ok:
  assumes T: "inodes_ready hw base vec V part s" and k: "i_no (inodes s node) = of_nat k" "k < 4096" and c: "c = my_channel (disks s (my_disk (partitions s part)))"
    and i: "length (i_sectors (inodes s node)) = 13" and io: "1024 \<le> length io_buff"
  defines "bs \<equiv> inode_bytes ((inodes s node)\<lparr>i_open_cnts := 0, write_deny := 0\<rparr>) \<lparr>l_prev = 0, l_next = 0\<rparr>"
  obtains b x d e where "inode_sync hw part node io_buff s = Inr (b, driven c x d e s)" "mode V d = Idle"
    "table_bytes V part (driven c x d e s) = take (76 * k) (table_bytes V part s) @ bs @ drop (76 * k + 76) (table_bytes V part s)"
proof -
  let ?P = "partitions s part" and ?L = "inode_table_lba (sb_of part s)" and ?T = "table_bytes V part s"
  let ?h = "my_disk ?P" and ?dr = "on_drive part s"
  have A: "ata_disk hw base vec V" "disk_free base vec ?h s" "mode V (hw_state s) = Idle"
    and L: "unat ?L + 609 \<le> 0x28000" "unat ?L + 608 \<le> unat (start_lba ?P + sector_counter ?P)" using T by (simp_all add: inodes_ready_def)
  obtain pos where pos: "inode_locate part (of_nat k) s = Inr pos" "unat (sec_lba pos) = unat ?L + 76 * k div 512"
    "unat (off_size pos) = 76 * k mod 512" "76 * k div 512 + (if two_sec pos then 2 else 1) \<le> 609" "76 * k mod 512 + 76 \<le> 512 * (if two_sec pos then 2 else 1)"
    by (rule locate_ok[OF k(2) L(1)])
  let ?n = "(if two_sec pos then 2 else 1) :: u32" and ?q = "76 * k div 512" and ?r = "76 * k mod 512"
  have n: "unat ?n = (if two_sec pos then 2 else 1)" "0 < ?n" by simp_all
  have len: "\<forall>k. length (media V (hw_state s) dr k) = 512" for dr using A(1) by (simp add: ata_disk_def)
  have lim: "unat (sec_lba pos) + unat ?n \<le> 0x28000" "512 * unat ?n \<le> length io_buff" using pos(2,4) n(1) L io by simp_all
  obtain x d e where rd: "ide_read hw ?h (sec_lba pos) io_buff ?n s =
      Inr (sectors (media V (hw_state s)) (dev_no (disks s ?h) = 1) (unat (sec_lba pos)) (unat ?n) @ drop (512 * unat ?n) io_buff, driven c x d e s)"
    "mode V d = Idle" "media V d = media V (hw_state s)" by (rule ide_read_ok[OF A(1,2) c A(3) lim(1) n(2) lim(2)])
  let ?S = "sectors (media V (hw_state s)) ?dr (unat (sec_lba pos)) (unat ?n)" and ?rest = "drop (512 * unat ?n) io_buff"
  have lS: "length ?S = 512 * unat ?n" by (rule sectors_length) (rule len)
  have lb: "length bs = 76" using i by (simp add: bs_def)
  let ?b = "take ?r ?S @ bs @ drop (?r + 76) ?S"
  have lb': "length ?b = 512 * unat ?n" using lS lb pos(5) n(1) by simp
  have put: "put_bytes (?S @ ?rest) (unat (off_size pos)) bs = Inr (?b @ ?rest)"
    using lS lb pos(3,5) n(1) by (simp add: put_bytes_def)
  let ?s1 = "driven c x d e s"
  have s1: "disk_free base vec ?h ?s1" "mode V (hw_state ?s1) = Idle" "c = my_channel (disks ?s1 ?h)"
    using A(2) rd(2) c by (simp_all add: disk_free_driven)
  have l1: "512 * unat ?n \<le> length (?b @ ?rest)" using lb' by simp
  obtain x' d' e' where wr: "ide_write hw ?h (sec_lba pos) (?b @ ?rest) ?n ?s1 = Inr (driven c x' d' e' ?s1)" "mode V d' = Idle"
    "media V d' = stored (dev_no (disks ?s1 ?h) = 1) (unat (sec_lba pos)) (unat ?n) (?b @ ?rest) (media V (hw_state ?s1))"
    by (rule ide_write_ok[OF A(1) s1(1,3,2) lim(1) n(2) l1])
  have st: "media V d' = stored ?dr (unat ?L + ?q) (unat ?n) ?b (media V (hw_state s))"
    using wr(3) rd(3) lb' stored_prefix[of ?b "unat ?n" ?dr "unat (sec_lba pos)" ?rest] pos(2) by (simp add: on_drive_def)
  have "table_bytes V part (driven c x' d' e' s) = take (512 * ?q) ?T @ ?b @ drop (512 * (?q + unat ?n)) ?T"
    unfolding table_bytes_def driven_fs driven_fields st by (rule sectors_stored) (use len pos(4) n(1) lb' in simp_all)
  also have "?S = take (512 * unat ?n) (drop (512 * ?q) ?T)"
    unfolding table_bytes_def pos(2) by (rule sectors_part) (use len pos(4) n(1) in simp_all)
  also have "take (512 * ?q) ?T @ (take ?r (take (512 * unat ?n) (drop (512 * ?q) ?T)) @ bs @ drop (?r + 76) (take (512 * unat ?n) (drop (512 * ?q) ?T))) @
      drop (512 * (?q + unat ?n)) ?T = take (512 * ?q + ?r) ?T @ bs @ drop (512 * ?q + ?r + 76) ?T"
    unfolding distrib_left by (rule splice) (use pos(5) n(1) in simp)
  finally have tb: "table_bytes V part (driven c x' d' e' s) = take (76 * k) ?T @ bs @ drop (76 * k + 76) ?T" unfolding mult_div_mod_eq .
  have "76 * k div 512 \<le> 608" using k(2) by auto
  then have "sec_lba pos \<le> start_lba ?P + sector_counter ?P" using pos(2) L(2) by (simp add: word_le_nat_alt)
  then have "inode_sync hw part node io_buff s = Inr (?b @ ?rest, driven c x' d' e' s)"
    using k(1) pos(1) rd(1) put wr(1) by (simp add: inode_sync_def Let_def bs_def on_drive_def)
  then show ?thesis by (rule that[OF _ wr(2) tb])
qed


text \<open>A mounted partition on the simulated disk, with one inode in memory whose entry lies across two sectors.\<close>

definition fs_sample :: "(sim, unit) fs_state_scheme" where
  "fs_sample = ide_state.extend (ide_state.truncate (disk_sample\<lparr>partitions :=
       (\<lambda>_. \<lparr>start_lba = 0, sector_counter = 0x20000, my_disk = 0xc0007040, part_name = [115, 100, 97, 49, 0]\<rparr>)\<rparr>))
     \<lparr>mounts = (\<lambda>_. \<lparr>sb = 0xc0106000, block_bitmap = \<lparr>bitmap_len = 1, bits = [0]\<rparr>, inode_bitmap = \<lparr>bitmap_len = 1, bits = [0]\<rparr>\<rparr>),
      super_blocks = (\<lambda>_. super_block_of (words_bytes [0, 0, 0, 0, 0, 0, 0, 0, 10, 0, 2000, 0, 0])),
      inodes = (\<lambda>_. \<lparr>i_no = 6, i_size = 100, i_open_cnts = 3, write_deny = 1, i_sectors = replicate 13 9\<rparr>),
      dirs = (\<lambda>_. \<lparr>dir_inode = 0xc0107000, dir_pos = 0, dir_buf = replicate 512 0\<rparr>), root_dir = 0xc0108000, curr_part = 0xc0109000,
      file_table = replicate 32 \<lparr>fd_pos = 0, fd_flag = 0, fd_inode = 0\<rparr>\<rparr>"

lemma disk_free_cong:
  fixes s :: "('d, 'a) ide_state_scheme" and t :: "('e, 'b) ide_state_scheme"
  assumes "disks s = disks t" "channels s = channels t" "ide_channels s = ide_channels t" "eflags s = eflags t" "sem_value s = sem_value t"
    "lheap s = lheap t" "locks s = locks t" "esp s = esp t"
  shows "disk_free base vec hdd s = disk_free base vec hdd t"
  by (simp add: disk_free_def channel_ready_def Let_def intr_get_status_def running_thread_def lock_free_def list_empty_def next_of_def assms)

lemma fs_sample_free: "disk_free 0x1f0 0x2e 0xc0007040 fs_sample"
  by (subst disk_free_cong[of _ disk_sample]) (simp_all add: fs_sample_def ide_state.defs disk_sample_free)

lemma fs_sample_ready: "inodes_ready sim_disk 0x1f0 0x2e sim_view part fs_sample"
proof -
  have "inode_table_lba (sb_of part fs_sample) = 10"
    using le32_words[of 8 "[0, 0, 0, 0, 0, 0, 0, 0, 10, 0, 2000, 0, 0]" "[]"]
    by (simp add: sb_of_def fs_sample_def ide_state.defs super_block_of_def Let_def)
  moreover have "partitions fs_sample part = \<lparr>start_lba = 0, sector_counter = 0x20000, my_disk = 0xc0007040, part_name = [115, 100, 97, 49, 0]\<rparr>"
    by (simp add: fs_sample_def ide_state.defs)
  moreover have "mode sim_view (hw_state fs_sample) = Idle"
    by (simp add: fs_sample_def ide_state.defs disk_sample_def sim_view_def Let_def sys_state.defs lock_init_def sem_init_def list_init_def set_next_def set_prev_def)
  ultimately show ?thesis using fs_sample_free sim_ata by (simp add: inodes_ready_def)
qed


section \<open>Allocation of inodes and blocks\<close>

definition units :: "(nat \<Rightarrow> u32) \<Rightarrow> bitmap \<Rightarrow> u32 set" where "units f bm = f ` {..<nbits bm}"
definition taken_units :: "(nat \<Rightarrow> u32) \<Rightarrow> bitmap \<Rightarrow> u32 set" where "taken_units f bm = f ` {k. k < nbits bm \<and> used bm k}"

lemma take_unit:
  assumes "inj_on f {..<nbits bm}" "i < nbits bm" "\<not> used bm i" "nbits bm' = nbits bm" "used bm' = (used bm)(i := True)"
  shows "f i \<in> units f bm - taken_units f bm" "taken_units f bm' = insert (f i) (taken_units f bm)" "units f bm' = units f bm"
proof -
  have "f i \<noteq> f k" if "k < nbits bm" "used bm k" for k using inj_onD[OF assms(1), of i k] that assms(2,3) by auto
  then show "f i \<in> units f bm - taken_units f bm" using assms(2) by (auto simp: units_def taken_units_def)
  have "{k. k < nbits bm' \<and> used bm' k} = insert i {k. k < nbits bm \<and> used bm k}" using assms(2,4,5) by auto
  then show "taken_units f bm' = insert (f i) (taken_units f bm)" by (simp add: taken_units_def)
  show "units f bm' = units f bm" using assms(4) by (simp add: units_def)
qed

text \<open>The result -1 of the two routines as \<open>None\<close>.\<close>

definition or_none :: "error + (u32 \<times> 's) \<Rightarrow> error + (u32 option \<times> 's)" where
  "or_none r = bnd r (\<lambda>(v, s). Inr (if v = -1 then None else Some v, s))"

definition data_block :: "u32 \<Rightarrow> ('d, 'a) fs_state_scheme \<Rightarrow> nat \<Rightarrow> u32" where
  "data_block part s k = data_start_lba (sb_of part s) + of_nat k"

definition inodes_wf :: "u32 \<Rightarrow> ('d, 'a) fs_state_scheme \<Rightarrow> bool" where
  "inodes_wf part s \<longleftrightarrow> bitmap_wf (inode_bitmap (mounts s part))"

definition blocks_wf :: "u32 \<Rightarrow> ('d, 'a) fs_state_scheme \<Rightarrow> bool" where
  "blocks_wf part s \<longleftrightarrow> bitmap_wf (block_bitmap (mounts s part)) \<and>
     unat (data_start_lba (sb_of part s)) + nbits (block_bitmap (mounts s part)) < 2 ^ 32"

definition data_blocks :: "u32 \<Rightarrow> ('d, 'a) fs_state_scheme \<Rightarrow> u32 set" where
  "data_blocks part s = units (data_block part s) (block_bitmap (mounts s part))"

definition used_blocks :: "u32 \<Rightarrow> ('d, 'a) fs_state_scheme \<Rightarrow> u32 set" where
  "used_blocks part s = taken_units (data_block part s) (block_bitmap (mounts s part))"

lemma bitmap_wf_size: "bitmap_wf bm \<Longrightarrow> nbits bm < 2 ^ 31"
  by (simp add: bitmap_wf_def nbits_def)

lemma data_block_nat:
  assumes "blocks_wf part s" "k < nbits (block_bitmap (mounts s part))"
  shows "unat (data_block part s k) = unat (data_start_lba (sb_of part s)) + k" "data_block part s k \<noteq> -1"
proof -
  have "unat (data_start_lba (sb_of part s)) + k < 2 ^ 32 - 1" using assms by (simp add: blocks_wf_def)
  moreover from this show u: "unat (data_block part s k) = unat (data_start_lba (sb_of part s)) + k"
    by (simp add: data_block_def unat_word_ariths unat_of_nat)
  ultimately show "data_block part s k \<noteq> -1" by (auto simp: unsigned_minus_1_eq_mask mask_eq_exp_minus_1)
qed

lemma data_block_inj: "blocks_wf part s \<Longrightarrow> inj_on (data_block part s) {..<nbits (block_bitmap (mounts s part))}"
  by (intro inj_onI) (metis data_block_nat(1) add_left_cancel lessThan_iff)

lemma of_nat_inj: "n \<le> 2 ^ 32 \<Longrightarrow> inj_on (of_nat :: nat \<Rightarrow> u32) {..<n}"
  by (intro inj_onI) (auto simp: word_of_nat_eq_iff take_bit_nat_eq_self)

lemma inode_bitmap_alloc_step:
  assumes wf: "inodes_wf part s"
  shows "\<exists>r s'. or_none (inode_bitmap_alloc part s) = Inr (r, s') \<and> inodes_wf part s' \<and>
      units of_nat (inode_bitmap (mounts s' part)) = units of_nat (inode_bitmap (mounts s part)) \<and>
      (case r of None \<Rightarrow> units of_nat (inode_bitmap (mounts s part)) \<subseteq> taken_units of_nat (inode_bitmap (mounts s part)) \<and> s' = s
       | Some u \<Rightarrow> u \<in> units of_nat (inode_bitmap (mounts s part)) - taken_units of_nat (inode_bitmap (mounts s part)) \<and>
           taken_units of_nat (inode_bitmap (mounts s' part)) = insert u (taken_units of_nat (inode_bitmap (mounts s part))))"
proof -
  let ?b = "inode_bitmap (mounts s part)"
  have b: "bitmap_wf ?b" using wf by (simp add: inodes_wf_def)
  show ?thesis using b
  proof (cases rule: bitmap_take_one)
    case full
    then show ?thesis using wf by (auto simp: inode_bitmap_alloc_def or_none_def units_def taken_units_def)
  next
    case (free i bm)
    have "nbits ?b \<le> 2 ^ 32" using bitmap_wf_size[OF b] by simp
    note t = take_unit[OF of_nat_inj[OF this] free(3,4,7,8)]
    then show ?thesis using free wf by (simp add: inode_bitmap_alloc_def or_none_def upd_mount_def inodes_wf_def)
  qed
qed

interpretation ib: unit_alloc "inodes_wf part" "\<lambda>s. units of_nat (inode_bitmap (mounts s part))"
  "\<lambda>s. taken_units of_nat (inode_bitmap (mounts s part))" "\<lambda>s. or_none (inode_bitmap_alloc part s)" for part
  by unfold_locales (rule inode_bitmap_alloc_step, simp_all add: units_def)

lemma block_bitmap_alloc_step:
  assumes wf: "blocks_wf part s"
  shows "\<exists>r s'. or_none (block_bitmap_alloc part s) = Inr (r, s') \<and> blocks_wf part s' \<and>
      data_blocks part s' = data_blocks part s \<and>
      (case r of None \<Rightarrow> data_blocks part s \<subseteq> used_blocks part s \<and> s' = s
       | Some u \<Rightarrow> u \<in> data_blocks part s - used_blocks part s \<and>
           used_blocks part s' = insert u (used_blocks part s))"
proof -
  let ?b = "block_bitmap (mounts s part)" and ?f = "data_block part s"
  have b: "bitmap_wf ?b" using wf by (simp add: blocks_wf_def)
  show ?thesis using b
  proof (cases rule: bitmap_take_one)
    case full
    then show ?thesis using wf by (auto simp: block_bitmap_alloc_def or_none_def data_blocks_def used_blocks_def units_def taken_units_def)
  next
    case (free i bm)
    note t = take_unit[OF data_block_inj[OF wf] free(3,4,7,8)]
    let ?s = "upd_mount part (\<lambda>m. m\<lparr>block_bitmap := bm\<rparr>) s"
    have f: "data_block part ?s = ?f" "sb_of part ?s = sb_of part s" by (simp_all add: data_block_def sb_of_def upd_mount_def fun_eq_iff)
    have "data_start_lba (sb_of part s) + i = ?f (unat i)" by (simp add: data_block_def)
    moreover have "?f (unat i) \<noteq> -1" by (rule data_block_nat(2)[OF wf free(3)])
    ultimately have "or_none (block_bitmap_alloc part s) = Inr (Some (?f (unat i)), ?s)"
      using free(1,2,5) f(2) by (simp add: block_bitmap_alloc_def or_none_def Let_def)
    moreover have "block_bitmap (mounts ?s part) = bm" by (simp add: upd_mount_def)
    moreover have "blocks_wf part ?s" using wf free(6,7) f(2) by (simp add: blocks_wf_def upd_mount_def)
    ultimately show ?thesis using t f(1) by (auto simp: data_blocks_def used_blocks_def)
  qed
qed

interpretation bb: unit_alloc "blocks_wf part" "data_blocks part" "used_blocks part" "\<lambda>s. or_none (block_bitmap_alloc part s)" for part
  by unfold_locales (rule block_bitmap_alloc_step, simp_all add: data_blocks_def units_def)

text \<open>
  C16: as long as that many blocks of a mounted partition are free, calls of \<^verbatim>\<open>block_bitmap_alloc\<close>
  return distinct sectors of its data area none of which was in use, and mark exactly these as used.
\<close>

theorem blocks_given_once:
  assumes "blocks_wf part s" "n \<le> card (data_blocks part s - used_blocks part s)"
  shows "\<exists>us t. run_allocs (\<lambda>s. or_none (block_bitmap_alloc part s)) n s = Inr (map Some us, t) \<and> length us = n \<and> distinct us \<and>
    set us \<subseteq> data_blocks part s - used_blocks part s \<and>
    used_blocks part t = used_blocks part s \<union> set us"
  using bb.allocs_distinct[OF assms] by blast

theorem blocks_given_once_witness:
  "\<exists>us t. run_allocs (\<lambda>s. or_none (block_bitmap_alloc 0xc0109000 s)) 2 fs_sample = Inr (map Some us, t) \<and> length us = 2 \<and> distinct us"
proof -
  have b: "block_bitmap (mounts fs_sample 0xc0109000) = \<lparr>bitmap_len = 1, bits = [0]\<rparr>" by (simp add: fs_sample_def ide_state.defs)
  have "data_start_lba (sb_of 0xc0109000 fs_sample) = 2000"
    using le32_words[of 10 "[0, 0, 0, 0, 0, 0, 0, 0, 10, 0, 2000, 0, 0]" "[]"]
    by (simp add: sb_of_def fs_sample_def ide_state.defs super_block_of_def Let_def)
  then have wf: "blocks_wf 0xc0109000 fs_sample" using b by (simp add: blocks_wf_def bitmap_wf_def nbits_def)
  have "used_blocks 0xc0109000 fs_sample = {}" unfolding used_blocks_def b by (auto simp: taken_units_def used_def nbits_def)
  moreover have "card (data_blocks 0xc0109000 fs_sample) = 8"
    unfolding data_blocks_def units_def using data_block_inj[OF wf] by (simp add: card_image b nbits_def)
  ultimately have "2 \<le> card (data_blocks 0xc0109000 fs_sample - used_blocks 0xc0109000 fs_sample)" by simp
  from blocks_given_once[OF wf this] show ?thesis by blast
qed

section \<open>Open inodes\<close>

lemma find_open_links:
  "\<lbrakk> links h (xs @ [t]); t \<notin> set xs \<rbrakk> \<Longrightarrow> find_open h tbl t no (hd (xs @ [t])) =
     Some (case List.find (\<lambda>e. i_no (tbl (inode_of_tag e)) = no) xs of None \<Rightarrow> 0 | Some e \<Rightarrow> inode_of_tag e)"
proof (induction xs)
  case Nil
  then show ?case by (simp add: find_open.simps)
next
  case (Cons x xs)
  have "l_next (h x) = hd (xs @ [t])" "links h (xs @ [t])" using links_step[OF Cons.prems(1)] by simp_all
  then show ?case using Cons by (auto simp: find_open.simps[of h tbl t no x])
qed

lemma find_open_ok:
  assumes "list_at (lheap s) p xs"
  shows "find_open (lheap s) tbl (tail_of p) no (next_of (head_of p) s) =
    Some (case List.find (\<lambda>e. i_no (tbl (inode_of_tag e)) = no) xs of None \<Rightarrow> 0 | Some e \<Rightarrow> inode_of_tag e)"
  using list_at_first[OF assms] find_open_links[of "lheap s" xs "tail_of p"] assms
  by (cases xs) (auto simp: next_of_def list_at_def nodes_def)

text \<open>
  C18: an inode that is open is not read again. If it is the first of its number in the list of open inodes, which holds its
  node once, \<^verbatim>\<open>inode_open\<close> returns it with one more opening and
  changes nothing else, and \<^verbatim>\<open>inode_close\<close> then restores the state.
\<close>

theorem open_again_and_close:
  assumes "list_at (lheap s) (open_inodes part) xs" "List.find (\<lambda>e. i_no (inodes s (inode_of_tag e)) = no) xs = Some (inode_tag n)"
    and "n \<noteq> 0" "i_open_cnts (inodes s n) \<noteq> 0"
  shows "\<exists>t. inode_open hw part no s = Inr (n, t) \<and> t = upd_inode n (\<lambda>i. i\<lparr>i_open_cnts := i_open_cnts i + 1\<rparr>) s \<and> inode_close n t = Inr s"
proof -
  let ?t = "upd_inode n (\<lambda>i. i\<lparr>i_open_cnts := i_open_cnts i + 1\<rparr>) s"
  have tag: "inode_of_tag (inode_tag n) = n" by (simp add: inode_of_tag_def inode_tag_def)
  have o: "inode_open hw part no s = Inr (n, ?t)"
    unfolding inode_open_def find_open_ok[OF assms(1)] using assms(2,3) tag by (simp add: returned_def)
  obtain old x where d: "intr_disable ?t = (old, ?t\<lparr>eflags := x\<rparr>)" by (rule intr_disabled)
  let ?u = "upd_inode n (\<lambda>i. i\<lparr>i_open_cnts := i_open_cnts i - 1\<rparr>) (?t\<lparr>eflags := x\<rparr>)"
  have "inode_close n ?t = Inr (snd (intr_set_status old ?u))"
    using d assms(4) by (simp add: inode_close_def close_tail_def upd_inode_def Let_def)
  also have "snd (intr_set_status old ?u) = ?u\<lparr>eflags := eflags ?t\<rparr>" by (rule intr_restore[OF d]) (simp add: upd_inode_def)
  also have "\<dots> = s" by (cases s) (simp add: upd_inode_def)
  finally show ?thesis using o by blast
qed

theorem open_again_and_close_witness:
  "\<exists>s t :: sim fs_state. inode_open sim_disk 0xc0109000 6 s = Inr (0xc0107000, t) \<and> i_open_cnts (inodes t 0xc0107000) = 4 \<and> inode_close 0xc0107000 t = Inr s"
proof -
  let ?q = "open_inodes 0xc0109000" and ?e = "inode_tag 0xc0107000"
  define s where "s = list_append ?q ?e (list_init ?q fs_sample)"
  have "list_at (lheap (list_init ?q fs_sample)) ?q []"
    by (simp add: list_at_def nodes_def list_init_def set_prev_def set_next_def Let_def)
  then have "list_at (insert_heap (tail_of ?q) ?e (lheap (list_init ?q fs_sample))) ?q ([] @ ?e # [])"
    by (intro list_at_insert(1)) (simp_all add: nodes_def head_of_def tail_of_def open_inodes_def inode_tag_def)
  then have l: "list_at (lheap s) ?q [?e]" by (simp add: s_def list_append_eq)
  have i: "inodes s a = \<lparr>i_no = 6, i_size = 100, i_open_cnts = 3, write_deny = 1, i_sectors = replicate 13 9\<rparr>" for a
    by (simp add: s_def list_append_eq list_init_def set_next_def set_prev_def fs_sample_def ide_state.defs)
  obtain t where "inode_open sim_disk 0xc0109000 6 s = Inr (0xc0107000, t)" "t = upd_inode 0xc0107000 (\<lambda>i. i\<lparr>i_open_cnts := i_open_cnts i + 1\<rparr>) s"
    "inode_close 0xc0107000 t = Inr s"
    using open_again_and_close[OF l, where no = 6 and n = "0xc0107000" and hw = sim_disk] by (auto simp: i)
  moreover from this(2) have "i_open_cnts (inodes t 0xc0107000) = 4" by (simp add: upd_inode_def i)
  ultimately show ?thesis by blast
qed
end
