(* ===== verification/Dirs.thy ===== *)
theory Dirs
  imports Fs
begin

text \<open>
  Directories: \<^verbatim>\<open>fs/dir.c\<close>.

  An entry is found by name in the sectors of a directory, and a new entry goes to the first free place, for which a
  sector is taken when all are full. \<^verbatim>\<open>dir_close\<close> gives the address of the directory to
  \<^verbatim>\<open>inode_close\<close>, which takes the first word of its buffer for the count of openings.
\<close>

section \<open>Opening and closing\<close>

definition FT_UNKNOWN :: u32 where "FT_UNKNOWN = 0"
definition FT_REGULAR :: u32 where "FT_REGULAR = 1"
definition FT_DIRECTORY :: u32 where "FT_DIRECTORY = 2"

definition open_root_dir :: "'d ata \<Rightarrow> u32 \<Rightarrow> ('d, 'a) fs_state_scheme \<Rightarrow> error + ('d, 'a) fs_state_scheme" where
  "open_root_dir hw part s =
     bnd (inode_open hw part (root_inode_no (sb_of part s)) s) (\<lambda>(i, s).
     Inr (s\<lparr>dirs := (dirs s)(root_dir s := (dirs s (root_dir s))\<lparr>dir_inode := i, dir_pos := 0\<rparr>)\<rparr>))"

definition dir_open :: "'d ata \<Rightarrow> u32 \<Rightarrow> u32 \<Rightarrow> ('d, 'a) fs_state_scheme \<Rightarrow> error + (u32 \<times> ('d, 'a) fs_state_scheme)" where
  "dir_open hw part inode_no s =
     bnd (sys_malloc SIZEOF_DIR s) (\<lambda>(pdir, s).
     bnd (inode_open hw part inode_no s) (\<lambda>(i, s).
     Inr (pdir, s\<lparr>dirs := (dirs s)(pdir := \<lparr>dir_inode = i, dir_pos = 0, dir_buf = replicate 512 0\<rparr>)\<rparr>)))"

text \<open>\<^verbatim>\<open>inode_close\<close> of the address of a directory: the word at offset 8 is the start of its buffer.\<close>

definition inode_close_dir :: "u32 \<Rightarrow> ('d, 'a) fs_state_scheme \<Rightarrow> error + ('d, 'a) fs_state_scheme" where
  "inode_close_dir d s =
     (let (old_status, s) = intr_disable s;
          cnt = le32 (dir_buf (dirs s d)) 0 - 1;
          s = s\<lparr>dirs := (dirs s)(d := (dirs s d)\<lparr>dir_buf := word32_bytes cnt @ drop 4 (dir_buf (dirs s d))\<rparr>)\<rparr>
      in close_tail d (cnt = 0) old_status s)"

definition dir_close :: "u32 \<Rightarrow> ('d, 'a) fs_state_scheme \<Rightarrow> error + ('d, 'a) fs_state_scheme" where
  "dir_close d s = (if d = root_dir s then Inr s else bnd (inode_close_dir d s) (\<lambda>s. sys_free d s))"

section \<open>Searching\<close>

fun search_entries :: "u8 list \<Rightarrow> u8 list \<Rightarrow> nat \<Rightarrow> nat \<Rightarrow> error + dir_entry option" where
  "search_entries bs name idx 0 = Inr None"
| "search_entries bs name idx (Suc n) =
     bnd (strcmp (Some (bs, 24 * idx)) (Some (name, 0))) (\<lambda>r.
     if r = 0 then Inr (Some (dir_entry_of (take 24 (drop (24 * idx) bs)))) else search_entries bs name (idx + 1) n)"

fun search_sectors :: "'d ata \<Rightarrow> u32 \<Rightarrow> u8 list \<Rightarrow> u8 list \<Rightarrow> u8 list \<Rightarrow> ('d, 'a) fs_state_scheme \<Rightarrow>
    error + (dir_entry option \<times> ('d, 'a) fs_state_scheme)" where
  "search_sectors hw hdd name bs [] s = Inr (None, s)"
| "search_sectors hw hdd name bs (a # as) s =
     (if a = 0 then search_sectors hw hdd name bs as s
      else bnd (ide_read hw hdd (ucast a) bs 1 s) (\<lambda>(bs, s).
           bnd (search_entries bs name 0 (512 div 24)) (\<lambda>r.
           case r of Some e \<Rightarrow> Inr (Some e, s)
           | None \<Rightarrow> bnd (memset (Some (bs, 0)) 0 SECTOR_SIZE) (\<lambda>bs. search_sectors hw hdd name bs as s))))"

text \<open>
  The addresses of the sectors are kept in an array of bytes: each is cut to its low 8 bits, and the
  table of the further sectors is read to offset 12 of the array and used byte by byte.
\<close>

definition sect_addr_array :: "'d ata \<Rightarrow> u32 \<Rightarrow> inode \<Rightarrow> ('d, 'a) fs_state_scheme \<Rightarrow> error + (u8 list \<times> ('d, 'a) fs_state_scheme)" where
  "sect_addr_array hw part node s =
     (let arr = map ucast (take 12 (i_sectors node)) @ replicate 548 0 in
      if i_sectors node ! 12 \<noteq> 0
      then bnd (ide_read hw (my_disk (partitions s part)) (i_sectors node ! 12) (drop 12 arr) 1 s) (\<lambda>(rest, s). Inr (take 12 arr @ rest, s))
      else Inr (arr, s))"

text \<open>The result is the entry copied to \<^verbatim>\<open>dir_e\<close>, if one was found.\<close>

definition search_dir_entry :: "'d ata \<Rightarrow> u32 \<Rightarrow> u32 \<Rightarrow> u8 list \<Rightarrow> ('d, 'a) fs_state_scheme \<Rightarrow>
    error + (dir_entry option \<times> ('d, 'a) fs_state_scheme)" where
  "search_dir_entry hw part pdir name s =
     bnd (sys_malloc (12 * 4 + 512) s) (\<lambda>(each_sect_addr_array, s).
     if each_sect_addr_array = 0
     then bnd (printk (\<lambda>_. []) (c_string ''search dir entry alloc memory failed !!!!'') [] s) (\<lambda>(_, s). Inr (None, s))
     else bnd (sect_addr_array hw part (inodes s (dir_inode (dirs s pdir))) s) (\<lambda>(arr, s).
          bnd (sys_malloc SECTOR_SIZE s) (\<lambda>(bs, s).
          bnd (search_sectors hw (my_disk (partitions s part)) name (replicate 512 0) (take 140 arr) s) (\<lambda>(r, s).
          bnd (sys_free bs s) (\<lambda>s.
          bnd (sys_free each_sect_addr_array s) (\<lambda>s. Inr (r, s)))))))"

section \<open>New entries\<close>

definition create_dir_entry :: "u8 list \<Rightarrow> u32 \<Rightarrow> u8 \<Rightarrow> dir_entry \<Rightarrow> error + dir_entry" where
  "create_dir_entry name inode_no file_type p_de =
     bnd (strlen (Some (name, 0))) (\<lambda>n.
     bnd (ASSERT (n \<le> MAX_FILE_NAME_LEN) ''strlen(filename) <= MAX_FILE_NAME_LEN'') (\<lambda>_.
     bnd (memcpy (Some (filename p_de, 0)) (Some (name, 0)) n) (\<lambda>f.
     Inr (p_de\<lparr>entry_no := inode_no, filename := f, f_type := ucast file_type\<rparr>))))"

definition read_blocks :: "'d ata \<Rightarrow> inode \<Rightarrow> ('d, 'a) fs_state_scheme \<Rightarrow> error + (u32 list \<times> ('d, 'a) fs_state_scheme)" where
  "read_blocks hw node s =
     (if i_sectors node ! 12 \<noteq> 0
      then bnd (ide_read hw (my_disk (partitions s (curr_part s))) (i_sectors node ! 12) (replicate 512 0) 1 s) (\<lambda>(bs, s).
           Inr (take 12 (i_sectors node) @ words_of bs 128, s))
      else Inr (take 12 (i_sectors node) @ replicate 128 0, s))"

definition set_sector :: "u32 \<Rightarrow> nat \<Rightarrow> u32 \<Rightarrow> ('d, 'a) fs_state_scheme \<Rightarrow> ('d, 'a) fs_state_scheme" where
  "set_sector node i lba s = upd_inode node (\<lambda>n. n\<lparr>i_sectors := (i_sectors n)[i := lba]\<rparr>) s"

definition write_table :: "'d ata \<Rightarrow> u32 \<Rightarrow> u32 list \<Rightarrow> ('d, 'a) fs_state_scheme \<Rightarrow> error + ('d, 'a) fs_state_scheme" where
  "write_table hw node all_blocks s =
     ide_write hw (my_disk (partitions s (curr_part s))) (i_sectors (inodes s node) ! 12) (words_bytes (drop 12 all_blocks)) 1 s"

text \<open>
  A sector for the place \<open>block_idx\<close>: the new table, or \<open>None\<close> when the routine gives up. Behind place 12 two blocks are
  allocated and the first is lost, and a failure of the second is not noticed.
\<close>

definition new_block :: "'d ata \<Rightarrow> u32 \<Rightarrow> nat \<Rightarrow> u32 list \<Rightarrow> ('d, 'a) fs_state_scheme \<Rightarrow> error + (u32 list option \<times> ('d, 'a) fs_state_scheme)" where
  "new_block hw node block_idx all_blocks s =
     (let part = curr_part s; idx_of = (\<lambda>lba s. lba - data_start_lba (sb_of part s)) in
      bnd (block_bitmap_alloc part s) (\<lambda>(block_lba, s).
      if block_lba = -1
      then bnd (printk (\<lambda>_. []) (c_string ''alloc block bitmap for sync_dir_entry failed\<newline>'') [] s) (\<lambda>(_, s). Inr (None, s))
      else bnd (bitmap_sync hw part (idx_of block_lba s) BLOCK_BITMAP s) (\<lambda>s.
           if block_idx < 12 then Inr (Some (all_blocks[block_idx := block_lba]), set_sector node block_idx block_lba s)
           else if block_idx = 12
           then let s = set_sector node 12 block_lba s in
                bnd (block_bitmap_alloc part s) (\<lambda>(block_lba, s).
                if block_lba = -1
                then bnd (bitmap_set (block_bitmap (mounts s part)) (idx_of (i_sectors (inodes s node) ! 12) s) 0) (\<lambda>b.
                     Inr (None, set_sector node 12 0 (upd_mount part (\<lambda>m. m\<lparr>block_bitmap := b\<rparr>) s)))
                else let all_blocks = all_blocks[12 := block_lba] in
                     bnd (bitmap_sync hw part (idx_of block_lba s) BLOCK_BITMAP s) (\<lambda>s.
                     bnd (write_table hw node all_blocks s) (\<lambda>s. Inr (Some all_blocks, s))))
           else bnd (block_bitmap_alloc part s) (\<lambda>(block_lba, s).
                bnd (bitmap_sync hw part (idx_of block_lba s) BLOCK_BITMAP s) (\<lambda>s.
                let all_blocks = all_blocks[block_idx := block_lba] in
                bnd (write_table hw node all_blocks s) (\<lambda>s. Inr (Some all_blocks, s)))))))"

fun free_entry :: "u8 list \<Rightarrow> nat \<Rightarrow> nat \<Rightarrow> nat option" where
  "free_entry bs idx 0 = None"
| "free_entry bs idx (Suc n) = (if le32 bs (24 * idx + 20) = FT_UNKNOWN then Some idx else free_entry bs (idx + 1) n)"

text \<open>When all 140 sectors are full the routine ends without a value.\<close>

fun sync_blocks :: "'d ata \<Rightarrow> u32 \<Rightarrow> dir_entry \<Rightarrow> u32 list \<Rightarrow> nat \<Rightarrow> nat \<Rightarrow> u8 list \<Rightarrow> ('d, 'a) fs_state_scheme \<Rightarrow>
    error + (bool \<times> u8 list \<times> ('d, 'a) fs_state_scheme)" where
  "sync_blocks hw node p_de all_blocks block_idx 0 io_buf s = Inl Uninitialised"
| "sync_blocks hw node p_de all_blocks block_idx (Suc n) io_buf s =
     (if all_blocks ! block_idx = 0
      then bnd (new_block hw node block_idx all_blocks s) (\<lambda>(r, s).
           case r of None \<Rightarrow> Inr (False, io_buf, s)
           | Some all_blocks \<Rightarrow>
             bnd (memset (Some (io_buf, 0)) 0 512) (\<lambda>io_buf.
             bnd (put_bytes io_buf 0 (dir_entry_bytes p_de)) (\<lambda>io_buf.
             bnd (ide_write hw (my_disk (partitions s (curr_part s))) (all_blocks ! block_idx) io_buf 1 s) (\<lambda>s.
             Inr (True, io_buf, upd_inode node (\<lambda>i. i\<lparr>i_size := i_size i + SIZEOF_DIR_ENTRY\<rparr>) s)))))
      else bnd (ide_read hw (my_disk (partitions s (curr_part s))) (all_blocks ! block_idx) io_buf 1 s) (\<lambda>(io_buf, s).
           case free_entry io_buf 0 (512 div 24) of
             Some e \<Rightarrow> bnd (put_bytes io_buf (24 * e) (dir_entry_bytes p_de)) (\<lambda>io_buf.
               bnd (ide_write hw (my_disk (partitions s (curr_part s))) (all_blocks ! block_idx) io_buf 1 s) (\<lambda>s.
               Inr (True, io_buf, upd_inode node (\<lambda>i. i\<lparr>i_open_cnts := i_open_cnts i + SIZEOF_DIR_ENTRY\<rparr>) s)))
           | None \<Rightarrow> sync_blocks hw node p_de all_blocks (block_idx + 1) n io_buf s))"

definition sync_dir_entry :: "'d ata \<Rightarrow> u32 \<Rightarrow> dir_entry \<Rightarrow> u8 list \<Rightarrow> ('d, 'a) fs_state_scheme \<Rightarrow>
    error + (bool \<times> u8 list \<times> ('d, 'a) fs_state_scheme)" where
  "sync_dir_entry hw parent_dir p_de io_buf s =
     (let node = dir_inode (dirs s parent_dir) in
      bnd (ASSERT (i_size (inodes s node) mod SIZEOF_DIR = 0) ''(dir_size % sizeof(struct dir)) == 0'') (\<lambda>_.
      bnd (read_blocks hw (inodes s node) s) (\<lambda>(all_blocks, s).
      sync_blocks hw node p_de all_blocks 0 140 io_buf s)))"

section \<open>Entries of a sector\<close>

lemma dir_entry_round_trip: "length (filename e) = 16 \<Longrightarrow> dir_entry_of (dir_entry_bytes e) = e"
proof -
  assume l: "length (filename e) = 16"
  have "le32 (filename e @ words_bytes [entry_no e, f_type e]) (16 + 4 * i) = [entry_no e, f_type e] ! i" if "i < 2" for i
    using le32_append[OF l, of _ "4 * i"] le32_words[of i "[entry_no e, f_type e]" "[]"] that by simp
  from this[of 0] this[of 1] show ?thesis using l by (cases e) (simp add: dir_entry_of_def dir_entry_bytes_def)
qed

lemma free_entry_place: "free_entry bs i n = Some e \<Longrightarrow> i \<le> e \<and> e < i + n"
  by (induction bs i n rule: free_entry.induct) (auto split: if_splits)

lemma create_dir_entry_ok:
  assumes "cstr name 0 cs" "length cs \<le> 16" "length (filename p) = 16"
  shows "create_dir_entry name no ft p = Inr (p\<lparr>entry_no := no, filename := cs @ drop (length cs) (filename p), f_type := ucast ft\<rparr>)"
proof -
  have n: "unat (of_nat (length cs) :: u32) = length cs" using assms(2) by (simp add: unat_of_nat)
  have t: "take (length cs) name = cs" using assms(1) by (auto simp: cstr_def take_Suc_conv_app_nth dest: arg_cong[of _ _ "take (length cs)"])
  have "length cs \<le> length name" using cstr_bound[OF assms(1)] by simp
  then have "memcpy (Some (filename p, 0)) (Some (name, 0)) (of_nat (length cs)) = Inr (cs @ drop (length cs) (filename p))"
    using memcpy_correct[of 0 "of_nat (length cs)" "filename p" 0 name] n t assms(2,3) by simp
  moreover have "(of_nat (length cs) :: u32) \<le> MAX_FILE_NAME_LEN" using n assms(2) by (simp add: word_le_nat_alt MAX_FILE_NAME_LEN_def)
  ultimately show ?thesis using strlen_correct[OF assms(1)] by (simp add: create_dir_entry_def ASSERT_def)
qed

lemma search_entries_first:
  assumes "cstr name 0 cs" "i \<le> e" "e < i + n" "cstr bs (24 * e) cs" "\<And>j. i \<le> j \<Longrightarrow> j < e \<Longrightarrow> \<exists>ds. cstr bs (24 * j) ds \<and> ds \<noteq> cs"
  shows "search_entries bs name i n = Inr (Some (dir_entry_of (take 24 (drop (24 * e) bs))))"
  using assms(2-5)
proof (induction n arbitrary: i)
  case (Suc n)
  show ?case
  proof (cases "i = e")
    case True
    then show ?thesis using strcmp_loop_zero[OF Suc.prems(3) assms(1)] by (auto simp: strcmp_def)
  next
    case False
    then obtain ds where "cstr bs (24 * i) ds" "ds \<noteq> cs" using Suc.prems(1) Suc.prems(4)[of i] by force
    then obtain r where "strcmp (Some (bs, 24 * i)) (Some (name, 0)) = Inr r" "r \<noteq> 0"
      using strcmp_loop_zero[of bs "24 * i" ds name 0 cs] assms(1) by (auto simp: strcmp_def)
    moreover have "search_entries bs name (i + 1) n = Inr (Some (dir_entry_of (take 24 (drop (24 * e) bs))))"
      by (rule Suc.IH) (use Suc.prems False in auto)
    ultimately show ?thesis by simp
  qed
qed simp

lemma cstr_cong: "\<lbrakk> cstr b p cs; \<And>k. k \<le> length cs \<Longrightarrow> p + k < length b' \<and> b' ! (p + k) = b ! (p + k) \<rbrakk> \<Longrightarrow> cstr b' p cs"
proof (induction cs arbitrary: p)
  case Nil
  then show ?case using Nil.prems(2)[of 0] by simp
next
  case (Cons c cs)
  have "cstr b' (p + 1) cs" by (rule Cons.IH) (use Cons.prems(1) Cons.prems(2)[of "Suc _"] in auto)
  then show ?case using Cons.prems(1) Cons.prems(2)[of 0] by simp
qed

text \<open>An entry that is written to the first free place of a sector is found by its name.\<close>

lemma entry_in_sector:
  assumes "length bs = 512" "free_entry bs 0 21 = Some e" "cstr name 0 cs" "length cs \<le> 15"
    and "\<forall>j < e. \<exists>ds. cstr bs (24 * j) ds \<and> length ds \<le> 15 \<and> ds \<noteq> cs"
  shows "\<exists>p bs'. create_dir_entry name no ft \<lparr>filename = replicate 16 0, entry_no = 0, f_type = 0\<rparr> = Inr p \<and>
    entry_no p = no \<and> f_type p = ucast ft \<and>
    put_bytes bs (24 * e) (dir_entry_bytes p) = Inr bs' \<and> search_entries bs' name 0 21 = Inr (Some p)"
proof -
  let ?p = "\<lparr>filename = cs @ replicate (16 - length cs) 0, entry_no = no, f_type = ucast ft\<rparr>"
  let ?d = "dir_entry_bytes ?p" let ?b = "take (24 * e) bs @ ?d @ drop (24 * e + 24) bs"
  have mk: "create_dir_entry name no ft \<lparr>filename = replicate 16 0, entry_no = 0, f_type = 0\<rparr> = Inr ?p"
    using create_dir_entry_ok[OF assms(3), of "\<lparr>filename = replicate 16 0, entry_no = 0, f_type = 0\<rparr>"] assms(4) by simp
  have e: "e < 21" using free_entry_place[OF assms(2)] by simp
  have d: "length ?d = 24" using assms(4) by (simp add: dir_entry_bytes_def)
  have room: "24 * e + 24 \<le> length bs" using e assms(1) by simp
  have put: "put_bytes bs (24 * e) ?d = Inr ?b" using room d by (simp add: put_bytes_def)
  have at: "cstr ?b (24 * e) cs"
  proof -
    obtain z where "replicate (16 - length cs) (0 :: u8) = 0 # z" using assms(4) by (cases "16 - length cs") auto
    moreover have "0 \<notin> set cs" using assms(3) by (simp add: cstr_def)
    ultimately show ?thesis using cstr_at[of cs "24 * e" "take (24 * e) bs"] room by (simp add: dir_entry_bytes_def)
  qed
  have before: "\<exists>ds. cstr ?b (24 * j) ds \<and> ds \<noteq> cs" if "0 \<le> j" "j < e" for j
  proof -
    obtain ds where ds: "cstr bs (24 * j) ds" "length ds \<le> 15" "ds \<noteq> cs" using assms(5) \<open>j < e\<close> by blast
    have "24 * j + k < 24 * e \<and> 24 * j + k < length bs" if "k \<le> length ds" for k using that ds(2) \<open>j < e\<close> room by simp
    then have "cstr ?b (24 * j) ds" using room d by (intro cstr_cong[OF ds(1)]) (simp add: nth_append)
    then show ?thesis using ds(3) by blast
  qed
  have "search_entries ?b name 0 21 = Inr (Some (dir_entry_of (take 24 (drop (24 * e) ?b))))"
    by (rule search_entries_first[OF assms(3) _ _ at before]) (use e in simp_all)
  moreover have "take 24 (drop (24 * e) ?b) = ?d" using room d by simp
  moreover have "dir_entry_of ?d = ?p" by (rule dir_entry_round_trip) (use assms(4) in simp)
  ultimately show ?thesis using mk put by force
qed

lemma read_sector:
  assumes "ata_disk hw base vec V" "disk_free base vec hdd s" "c = my_channel (disks s hdd)" "mode V (hw_state s) = Idle"
    and "unat lba < 0x28000" "length obj = 512"
  obtains x d e where "ide_read hw hdd lba obj 1 s = Inr (media V (hw_state s) (dev_no (disks s hdd) = 1) (unat lba), driven c x d e s)"
    "mode V d = Idle" "media V d = media V (hw_state s)"
proof -
  have l: "unat lba + unat (1 :: u32) \<le> 0x28000" "(0 :: u32) < 1" "512 * unat (1 :: u32) \<le> length obj" using assms(5,6) by simp_all
  have "sectors m dr k (unat (1 :: u32)) @ drop (512 * unat (1 :: u32)) obj = m dr k" for m dr k using assms(6) by (simp add: sectors_def)
  then show ?thesis using ide_read_ok[OF assms(1-4) l, where thesis = thesis] that by auto
qed

lemma write_sector:
  assumes "ata_disk hw base vec V" "disk_free base vec hdd s" "c = my_channel (disks s hdd)" "mode V (hw_state s) = Idle"
    and "unat lba < 0x28000" "length obj = 512"
  obtains x d e where "ide_write hw hdd lba obj 1 s = Inr (driven c x d e s)"
    "mode V d = Idle" "media V d = (media V (hw_state s))(dev_no (disks s hdd) = 1 := (media V (hw_state s) (dev_no (disks s hdd) = 1))(unat lba := obj))"
proof -
  have l: "unat lba + unat (1 :: u32) \<le> 0x28000" "(0 :: u32) < 1" "512 * unat (1 :: u32) \<le> length obj" using assms(5,6) by simp_all
  have "stored dr k (unat (1 :: u32)) obj m = m(dr := (m dr)(k := obj))" for m dr k using assms(6) by (auto simp: stored_def fun_eq_iff)
  then show ?thesis using ide_write_ok[OF assms(1-4) l, where thesis = thesis] that by auto
qed

lemma disk_free_upd_inode: "disk_free base vec hdd (upd_inode n f s) = disk_free base vec hdd s"
  by (rule disk_free_cong) (simp_all add: upd_inode_def)



text \<open>
  The size of a directory is compared with the size of \<^verbatim>\<open>struct dir\<close>, not of an entry: the root directory
  as it is formatted, with the size 48, takes no entry.
\<close>

lemma root_takes_no_entry:
  "i_size (inodes s (dir_inode (dirs s d))) = 48 \<Longrightarrow>
   sync_dir_entry hw d p_de io_buf s = Inl (Assert_failed ''(dir_size % sizeof(struct dir)) == 0'')"
  by (simp add: sync_dir_entry_def SIZEOF_DIR_def ASSERT_def)

text \<open>The sectors a search looks at have addresses below 256: the root directory at 1216 is looked for at 192.\<close>

lemma sectors_cut:
  "i_sectors node ! 12 = 0 \<Longrightarrow> sect_addr_array hw part node s = Inr (map ucast (take 12 (i_sectors node)) @ replicate 548 0, s) \<and>
     (ucast (ucast (1216 :: u32) :: u8) :: u32) = 192"
  by (simp add: sect_addr_array_def)
end
