(* ===== verification/Filesys.thy ===== *)
theory Filesys
  imports Dirs
begin

text \<open>
  \<^verbatim>\<open>fs/fs.c\<close>: formatting and mounting of partitions, parsing of paths and the search for a file.

  Memory the source reads before it has written it is an argument: \<open>junk\<close> is the end of the super
  block that \<^verbatim>\<open>partition_format\<close> has on its stack, and the array of \<^verbatim>\<open>path_deepth_cnt\<close>. A string is its bytes, a pointer into it the position, and the null
  pointer \<open>None\<close>; a read through the null pointer is \<open>Page_fault 0\<close>.
\<close>

section \<open>Formatting\<close>

definition format_bit_len :: "partition \<Rightarrow> u32" where
  "format_bit_len p =
     (let ib_sects = DIV_ROUND_UP MAX_FILES_PER_PART BITS_PER_SECTOR;
          it_sects = DIV_ROUND_UP (SIZEOF_INODE * MAX_FILES_PER_PART) SECTOR_SIZE;
          used_sects = 2 + ib_sects + it_sects;
          free_sects = sector_counter p - used_sects;
          bb_sects = DIV_ROUND_UP free_sects BITS_PER_SECTOR
      in free_sects - bb_sects)"

definition format_super_block :: "u8 list \<Rightarrow> partition \<Rightarrow> super_block" where
  "format_super_block junk p =
     (let ib_sects = DIV_ROUND_UP MAX_FILES_PER_PART BITS_PER_SECTOR;
          it_sects = DIV_ROUND_UP (SIZEOF_INODE * MAX_FILES_PER_PART) SECTOR_SIZE;
          bb_sects = DIV_ROUND_UP (format_bit_len p) BITS_PER_SECTOR
      in \<lparr>magic = 0x19990814, sb_sec_cnt = sector_counter p, inode_cnt = MAX_FILES_PER_PART, part_lba_base = start_lba p,
          block_bitmap_lba = start_lba p + 2, block_bitmap_sects = bb_sects, inode_bitmap_lba = start_lba p + 2 + bb_sects,
          inode_bitmap_sects = ib_sects, inode_table_lba = start_lba p + 2 + bb_sects + ib_sects, inode_table_sects = it_sects,
          data_start_lba = it_sects + it_sects, root_inode_no = 0, sb_dir_entry_size = SIZEOF_DIR_ENTRY, pad = junk\<rparr>)"

text \<open>The index of the byte is the number of odd bits, not the last byte.\<close>

fun clear_odd_bits :: "u8 list \<Rightarrow> nat \<Rightarrow> nat list \<Rightarrow> error + u8 list" where
  "clear_odd_bits bs idx [] = Inr bs"
| "clear_odd_bits bs idx (i # is) =
     bnd (get_at bs idx) (\<lambda>b. bnd (put_at bs idx (b AND NOT (push_bit i 1))) (\<lambda>bs. clear_odd_bits bs idx is))"

definition format_block_bitmap :: "u32 \<Rightarrow> u8 list \<Rightarrow> error + u8 list" where
  "format_block_bitmap bit_len bs =
     bnd (get_at bs 0) (\<lambda>b. bnd (put_at bs 0 (b OR 1)) (\<lambda>bs.
     let bytes_len = bit_len div 8; odd_idx = unat (bit_len mod 8); last_size = SECTOR_SIZE - bytes_len mod SECTOR_SIZE in
     bnd (memset (Some (bs, unat bytes_len)) 0xff last_size) (\<lambda>bs.
     clear_odd_bits bs odd_idx [0..<odd_idx + 1])))"

fun put_words :: "u8 list \<Rightarrow> (nat \<times> u32) list \<Rightarrow> error + u8 list" where
  "put_words bs [] = Inr bs"
| "put_words bs ((o', w) # ws) = bnd (put_bytes bs o' (word32_bytes w)) (\<lambda>bs. put_words bs ws)"

definition format_root_dir :: "u8 list \<Rightarrow> error + u8 list" where
  "format_root_dir bs =
     bnd (put_words bs [(20, FT_DIRECTORY), (16, 0)]) (\<lambda>bs.
     bnd (memcpy (Some (bs, 0)) (Some (c_string ''.'', 0)) 1) (\<lambda>bs.
     bnd (put_words bs [(24 + 20, FT_DIRECTORY), (24 + 16, 0)]) (\<lambda>bs.
     memcpy (Some (bs, 24)) (Some (c_string ''..'', 0)) 2)))"

definition format_info :: string where
  "format_info = concat (map (\<lambda>l. CHR 0x09 # l @ '':0x%x\<newline>'')
     [''magic'', ''part_lba_base'', ''all_sectors'', ''inode_cnt'', ''block_bitmap_lba'', ''block_bitmap_sectors'', ''inode_bitmap_lba'',
      ''inode_bitmap_sectors'', ''inode_table_lba'', ''inode_table_sectors'', ''data_start_lba''])"

definition format_buf_size :: "super_block \<Rightarrow> u32" where
  "format_buf_size b =
     (let buf_size = (if block_bitmap_sects b \<ge> inode_bitmap_sects b then block_bitmap_sects b else inode_bitmap_sects b)
      in (if buf_size \<ge> inode_table_sects b then buf_size else inode_table_sects b) * SECTOR_SIZE)"

definition partition_format :: "'d ata \<Rightarrow> u8 list \<Rightarrow> u32 \<Rightarrow> ('d, 'a) fs_state_scheme \<Rightarrow> error + ('d, 'a) fs_state_scheme" where
  "partition_format hw junk part s =
     (let p = partitions s part;
          b = format_super_block junk p;
          hdd = my_disk p;
          nm = (\<lambda>_. part_name p);
          buf_size = format_buf_size b
      in bnd (printk nm (c_string ''%s info:\<newline>'') [part_name_addr part] s) (\<lambda>(_, s).
         bnd (printk nm (c_string format_info) [magic b, part_lba_base b, sb_sec_cnt b, inode_cnt b, block_bitmap_lba b, block_bitmap_sects b,
           inode_bitmap_lba b, inode_bitmap_sects b, inode_table_lba b, inode_table_sects b, data_start_lba b] s) (\<lambda>(_, s).
         bnd (ide_write hw hdd (start_lba p + 1) (super_block_bytes b) 1 s) (\<lambda>s.
         bnd (printk nm (c_string ''    super_block_lba:0x%x\<newline>'') [start_lba p + 1] s) (\<lambda>(_, s).
         bnd (sys_malloc (buf_size * 2) s) (\<lambda>(addr, s).
         bnd (format_block_bitmap (format_bit_len p) (replicate (unat (buf_size * 2)) 0)) (\<lambda>bs.
         bnd (ide_write hw hdd (block_bitmap_lba b) bs (block_bitmap_sects b) s) (\<lambda>s.
         bnd (memset (Some (bs, 0)) 0 buf_size) (\<lambda>bs.
         bnd (ide_write hw hdd (inode_bitmap_lba b) bs (inode_bitmap_sects b) s) (\<lambda>s.
         bnd (memset (Some (bs, 0)) 0 buf_size) (\<lambda>bs.
         bnd (put_words bs [(0, 0), (4, sb_dir_entry_size b * 2), (16, data_start_lba b)]) (\<lambda>bs.
         bnd (ide_write hw hdd (inode_table_lba b) bs (inode_table_sects b) s) (\<lambda>s.
         bnd (memset (Some (bs, 0)) 0 buf_size) (\<lambda>bs.
         bnd (format_root_dir bs) (\<lambda>bs.
         bnd (ide_write hw hdd (data_start_lba b) bs 1 s) (\<lambda>s.
         bnd (printk nm (c_string '' root_dir_lba: 0x%x\<newline>'') [data_start_lba b] s) (\<lambda>(_, s).
         bnd (printk nm (c_string ''%s format done \<newline>'') [part_name_addr part] s) (\<lambda>(_, s).
         sys_free addr s))))))))))))))))))"

section \<open>Mounting\<close>

definition read_bitmap :: "'d ata \<Rightarrow> u32 \<Rightarrow> u32 \<Rightarrow> u32 \<Rightarrow> u32 \<Rightarrow> ('d, 'a) fs_state_scheme \<Rightarrow> error + (bitmap \<times> ('d, 'a) fs_state_scheme)" where
  "read_bitmap hw hdd lba sects len s =
     bnd (sys_malloc (sects * SECTOR_SIZE) s) (\<lambda>(addr, s).
     if addr = 0 then Inl (Exception ''alloc memory failed'')
     else bnd (ide_read hw hdd lba (replicate (unat (sects * SECTOR_SIZE)) 0) sects s) (\<lambda>(bs, s).
          Inr (\<lparr>bitmap_len = len, bits = bs\<rparr>, s)))"

text \<open>The name to look for is a string in memory, its address the argument of the callback.\<close>

definition mount_partition :: "'d ata \<Rightarrow> (u32 \<Rightarrow> u8 list) \<Rightarrow> u32 \<Rightarrow> u32 \<Rightarrow> ('d, 'a) fs_state_scheme \<Rightarrow> error + (bool \<times> ('d, 'a) fs_state_scheme)" where
  "mount_partition hw mem pelem arg s =
     (let part = part_of_tag pelem; p = partitions s part; hdd = my_disk p in
      bnd (strcmp (Some (part_name p, 0)) (char_ptr mem arg)) (\<lambda>r.
      if r = 0
      then let s = s\<lparr>curr_part := part\<rparr> in
           bnd (sys_malloc SECTOR_SIZE s) (\<lambda>(a, s).
           let s = upd_mount part (\<lambda>m. m\<lparr>sb := a\<rparr>) s in
           if a = 0 then Inl (Exception ''alloc memory failed'')
           else bnd (ide_read hw hdd (start_lba p + 1) (replicate 512 0) 1 s) (\<lambda>(bs, s).
                let b = super_block_of bs; s = s\<lparr>super_blocks := (super_blocks s)(a := b)\<rparr> in
                bnd (read_bitmap hw hdd (block_bitmap_lba b) (block_bitmap_sects b) (block_bitmap_sects b * SECTOR_SIZE) s) (\<lambda>(bm, s).
                let s = upd_mount part (\<lambda>m. m\<lparr>block_bitmap := bm\<rparr>) s in
                bnd (read_bitmap hw hdd (inode_bitmap_lba b) (inode_bitmap_sects b) (block_bitmap_sects b * SECTOR_SIZE) s) (\<lambda>(im, s).
                let s = upd_mount part (\<lambda>m. m\<lparr>inode_bitmap := im\<rparr>) s;
                    s = list_init (open_inodes part) s
                in bnd (printk (\<lambda>_. part_name p) (c_string ''mount %s done!\<newline>'') [part_name_addr part] s) (\<lambda>(_, s).
                   Inr (True, s))))))
      else Inr (False, s)))"

section \<open>Start of the file system\<close>

definition check_partition :: "'d ata \<Rightarrow> u8 list \<Rightarrow> u32 \<Rightarrow> u32 \<Rightarrow> ('d, 'a) fs_state_scheme \<Rightarrow> error + ('d, 'a) fs_state_scheme" where
  "check_partition hw junk hdd part s =
     (let p = partitions s part in
      if sector_counter p \<noteq> 0
      then bnd (ide_read hw hdd (start_lba p + 1) (replicate 512 0) 1 s) (\<lambda>(bs, s).
           if magic (super_block_of bs) = 0x19990814
           then bnd (printk (\<lambda>_. part_name p) (c_string ''%s has filesystem \<newline>'') [part_name_addr part] s) (\<lambda>(_, s). Inr s)
           else bnd (printk (\<lambda>a. if a = hdd then disk_name (disks s hdd) else part_name p)
                  (c_string ''formatting %s parttin %s \<newline>'') [hdd, part_name_addr part] s) (\<lambda>(_, s).
                partition_format hw junk part s))
      else Inr s)"

fun check_partitions :: "'d ata \<Rightarrow> u8 list \<Rightarrow> u32 \<Rightarrow> u32 list \<Rightarrow> ('d, 'a) fs_state_scheme \<Rightarrow> error + ('d, 'a) fs_state_scheme" where
  "check_partitions hw junk hdd [] s = Inr s"
| "check_partitions hw junk hdd (p # ps) s =
     bnd (check_partition hw junk hdd p s) (\<lambda>s. check_partitions hw junk hdd ps s)"

text \<open>Only the second disk of a channel is looked at.\<close>

fun check_channels :: "'d ata \<Rightarrow> u8 list \<Rightarrow> nat list \<Rightarrow> ('d, 'a) fs_state_scheme \<Rightarrow> error + ('d, 'a) fs_state_scheme" where
  "check_channels hw junk [] s = Inr s"
| "check_channels hw junk (c # cs) s =
     (if c \<ge> 2 then Inl Out_of_bounds
      else let hdd = disk_addr (channel_addr (ide_channels s) (of_nat c)) 1 in
           bnd (check_partitions hw junk hdd (map (\<lambda>i. prim_parts hdd (of_nat i)) [0..<4] @ map (\<lambda>i. logic_parts hdd (of_nat i)) [0..<8]) s) (\<lambda>s.
           check_channels hw junk cs s))"

definition default_part :: "u8 list" where "default_part = c_string ''sdb1'' @ [0, 0, 0]"

definition filesys_init :: "'d ata \<Rightarrow> u8 list \<Rightarrow> ('d, 'a) fs_state_scheme \<Rightarrow> error + ('d, 'a) fs_state_scheme" where
  "filesys_init hw junk s =
     bnd (sys_malloc 512 s) (\<lambda>(addr, s).
     if addr = 0 then Inl (Exception ''alloc memory failed!'')
     else bnd (check_channels hw junk [0..<unat (channel_cnt s)] s) (\<lambda>s.
          bnd (sys_free addr s) (\<lambda>s.
          bnd (list_traveral (partition_list s) (mount_partition hw (\<lambda>_. default_part)) (esp s) s) (\<lambda>(_, s).
          Inr s))))"

section \<open>Paths\<close>

lemma bnd_cong [fundef_cong]: "m = m' \<Longrightarrow> (\<And>x. m' = Inr x \<Longrightarrow> k x = k' x) \<Longrightarrow> bnd m k = bnd m' k'"
  by (cases m') simp_all

function skip_slashes :: "u8 list \<Rightarrow> nat \<Rightarrow> error + nat" where
  "skip_slashes path p =
     bnd (get_at path (p + 1)) (\<lambda>c. if c = 47 then skip_slashes path (p + 1) else Inr (p + 1))"
  by pat_completeness auto
termination
  by (relation "measure (\<lambda>(path, p). length path - p)") (auto simp: outcome)

function copy_name :: "u8 list \<Rightarrow> nat \<Rightarrow> u8 list \<Rightarrow> nat \<Rightarrow> error + (nat \<times> u8 list)" where
  "copy_name path p name k =
     bnd (get_at path p) (\<lambda>c.
     if c \<noteq> 47 \<and> c \<noteq> 0 then bnd (put_at name k c) (\<lambda>name. copy_name path (p + 1) name (k + 1))
     else Inr (p, name))"
  by pat_completeness auto
termination
  by (relation "measure (\<lambda>(path, p, name, k). length path - p)") (auto simp: outcome)

definition path_parse :: "u8 list \<Rightarrow> nat \<Rightarrow> u8 list \<Rightarrow> error + (nat option \<times> u8 list)" where
  "path_parse path p name =
     bnd (get_at path p) (\<lambda>c.
     bnd (if c = 47 then skip_slashes path p else Inr p) (\<lambda>p.
     bnd (copy_name path p name 0) (\<lambda>(p, name).
     bnd (get_at path p) (\<lambda>c. Inr (if c = 0 then None else Some p, name)))))"

lemma skip_slashes_forward: "skip_slashes path p = Inr q \<Longrightarrow> p < q"
  by (induction path p rule: skip_slashes.induct) (subst (asm) skip_slashes.simps, auto simp: outcome split: if_splits)

lemma copy_name_forward: "copy_name path p name k = Inr (q, name') \<Longrightarrow> p \<le> q"
  by (induction path p name k rule: copy_name.induct) (subst (asm) copy_name.simps, auto simp: outcome split: if_splits)

declare skip_slashes.simps [simp del] copy_name.simps [simp del]

lemma path_parse_forward:
  assumes "path_parse path p name = Inr (Some q, name')"
  shows "p < q" "q < length path"
proof -
  obtain p1 name1 where p1: "(if path ! p = 47 then skip_slashes path p else Inr p) = Inr p1" "copy_name path p1 name 0 = Inr (q, name1)" "q < length path" "p < length path"
    using assms by (auto simp: path_parse_def outcome split: if_splits prod.splits)
  show "p < q"
  proof (cases "path ! p = 47")
    case True
    then show ?thesis using p1(1) skip_slashes_forward copy_name_forward[OF p1(2)] by fastforce
  next
    case False
    then have "p1 = p" using p1(1) by simp
    moreover have "path ! p \<noteq> 0"
      using assms False p1 by (auto simp: path_parse_def copy_name.simps)
    ultimately show ?thesis using p1(2,4) False copy_name_forward
      by (subst (asm) copy_name.simps) (auto simp: outcome dest!: copy_name_forward)
  qed
  show "q < length path" by (rule p1(3))
qed

text \<open>
  Once the end of the path is reached the name is cleared, so the loop ends; the measure counts what
  is left of the path and whether there is a name.
\<close>

definition parse_measure :: "u8 list \<Rightarrow> nat option \<Rightarrow> u8 list \<Rightarrow> nat" where
  "parse_measure path p name = (case p of None \<Rightarrow> 0 | Some q \<Rightarrow> 2 * (length path - q) + 2) + (if name ! 0 = 0 then 0 else 1)"

lemma parse_measure_less:
  assumes "name ! 0 \<noteq> 0"
  shows "path_parse path p n = Inr (q, n') \<Longrightarrow> parse_measure path q n' < parse_measure path (Some p) name"
    "n ! 0 = 0 \<Longrightarrow> parse_measure path p' n < parse_measure path p' name"
  using assms path_parse_forward[of path p n _ n'] by (cases q; force simp: parse_measure_def)+

lemma memset_first:
  assumes "memset (Some (name, 0)) v n = Inr name'" "0 < n"
  shows "name' ! 0 = v"
proof -
  have n: "0 < unat n" using assms(2) by (simp add: word_less_nat_alt)
  have "unat n \<le> length name"
    by (rule ccontr) (use assms(1) memset_overrun[of 0 name n v] in simp)
  then have "name' = replicate (unat n) v @ drop (unat n) name" using assms(1) memset_correct[of 0 n name v] by simp
  then show ?thesis using n by (simp add: nth_append)
qed

function deepth_loop :: "u8 list \<Rightarrow> nat option \<Rightarrow> u8 list \<Rightarrow> u32 \<Rightarrow> error + u32" where
  "deepth_loop path p name depth =
     bnd (get_at name 0) (\<lambda>c.
     if c \<noteq> 0
     then bnd (memset (Some (name, 0)) 0 MAX_FILE_NAME_LEN) (\<lambda>name.
          case p of Some q \<Rightarrow> bnd (path_parse path q name) (\<lambda>(p, name). deepth_loop path p name (depth + 1))
          | None \<Rightarrow> deepth_loop path p name (depth + 1))
     else Inr depth)"
  by pat_completeness auto
termination
  by (relation "measure (\<lambda>(path, p, name, depth). parse_measure path p name)")
    (auto simp: outcome MAX_FILE_NAME_LEN_def dest!: memset_first intro: parse_measure_less)

definition path_deepth_cnt :: "u8 list \<Rightarrow> ptr \<Rightarrow> error + u32" where
  "path_deepth_cnt junk pathname =
     (case pathname of None \<Rightarrow> Inl (Assert_failed ''pathname != 0'')
      | Some (path, p) \<Rightarrow> bnd (path_parse path p junk) (\<lambda>(p, name). deepth_loop path p name 0))"

section \<open>Search for a file\<close>

record path_search_record =
  searched_path :: "u8 list"
  rec_parent_dir :: u32
  file_type :: u32

text \<open>
  The loop of \<^verbatim>\<open>search_file\<close>; \<open>p_de\<close> is the entry found last. The test
  \<^verbatim>\<open>path_ptr[0]\<close> reads through the null pointer when the path is at its end.
\<close>

function search_loop :: "'d ata \<Rightarrow> u8 list \<Rightarrow> nat option \<Rightarrow> u8 list \<Rightarrow> u32 \<Rightarrow> u32 \<Rightarrow> dir_entry option \<Rightarrow> path_search_record \<Rightarrow>
    ('d, 'a) fs_state_scheme \<Rightarrow> error + (u32 \<times> path_search_record \<times> ('d, 'a) fs_state_scheme)" where
  "search_loop hw path path_ptr name parent_dir parent_no p_de sr s =
     bnd (get_at name 0) (\<lambda>c.
     if c \<noteq> 0
     then bnd (strcat (Some (searched_path sr, 0)) (Some (c_string ''/'', 0))) (\<lambda>sp.
          bnd (strcat (Some (sp, 0)) (Some (name, 0))) (\<lambda>sp.
          bnd (search_dir_entry hw (curr_part s) parent_dir name s) (\<lambda>(r, s).
          case r of None \<Rightarrow> Inr (-1, sr\<lparr>searched_path := sp\<rparr>, s)
          | Some e \<Rightarrow>
            bnd (memset (Some (name, 0)) 0 MAX_PATH_LEN) (\<lambda>name.
            case path_ptr of None \<Rightarrow> Inl (Page_fault 0)
            | Some q \<Rightarrow>
              bnd (get_at path q) (\<lambda>c.
              bnd (if c \<noteq> 0 then path_parse path q name else Inr (Some q, name)) (\<lambda>(path_ptr, name).
              if f_type e = FT_DIRECTORY
              then let no = i_no (inodes s (dir_inode (dirs s parent_dir))) in
                   bnd (dir_close parent_dir s) (\<lambda>s.
                   bnd (dir_open hw (curr_part s) (entry_no e) s) (\<lambda>(d, s).
                   search_loop hw path path_ptr name d no (Some e) (sr\<lparr>searched_path := sp, rec_parent_dir := d\<rparr>) s))
              else if f_type e = FT_REGULAR then Inr (entry_no e, sr\<lparr>searched_path := sp, file_type := FT_REGULAR\<rparr>, s)
              else search_loop hw path path_ptr name parent_dir parent_no (Some e) (sr\<lparr>searched_path := sp\<rparr>) s))))))
     else bnd (dir_close parent_dir s) (\<lambda>s.
          bnd (dir_open hw (curr_part s) parent_no s) (\<lambda>(d, s).
          case p_de of None \<Rightarrow> Inl Uninitialised
          | Some e \<Rightarrow> Inr (entry_no e, sr\<lparr>rec_parent_dir := d, file_type := FT_DIRECTORY\<rparr>, s))))"
  by pat_completeness auto
termination
  by (relation "measure (\<lambda>(hw, path, p, name, d, n, e, sr, s). parse_measure path p name)")
    (auto simp: outcome MAX_PATH_LEN_def dest!: memset_first intro: parse_measure_less split: if_splits)

definition search_file :: "'d ata \<Rightarrow> u8 list \<Rightarrow> path_search_record \<Rightarrow> ('d, 'a) fs_state_scheme \<Rightarrow>
    error + (u32 \<times> path_search_record \<times> ('d, 'a) fs_state_scheme)" where
  "search_file hw fname sr s =
     (let is_path = (\<lambda>t k. bnd (strcmp (Some (fname, 0)) (Some (c_string t, 0))) (\<lambda>r. if r = 0 then Inr True else k)) in
      bnd (is_path ''/'' (is_path ''/..'' (is_path ''/.'' (Inr False)))) (\<lambda>root.
      if root
      then bnd (put_at (searched_path sr) 0 0) (\<lambda>sp.
           Inr (0, sr\<lparr>rec_parent_dir := root_dir s, file_type := FT_DIRECTORY, searched_path := sp\<rparr>, s))
      else bnd (path_parse fname 0 (replicate (unat MAX_PATH_LEN) 0)) (\<lambda>(path_ptr, name).
           let sr = sr\<lparr>file_type := FT_UNKNOWN, rec_parent_dir := root_dir s\<rparr> in
           case path_ptr of None \<Rightarrow> Inl (Page_fault 0)
           | Some p \<Rightarrow> bnd (path_parse fname p name) (\<lambda>(path_ptr, name).
             search_loop hw fname path_ptr name (root_dir s) 0 None sr s))))"

section \<open>Components of a path\<close>

text \<open>The reference: the words between the slashes.\<close>

function path_components :: "u8 list \<Rightarrow> u8 list list" where
  "path_components cs =
     (let ds = dropWhile (\<lambda>c. c = 47) cs in
      if ds = [] then [] else takeWhile (\<lambda>c. c \<noteq> 47) ds # path_components (dropWhile (\<lambda>c. c \<noteq> 47) ds))"
  by pat_completeness auto
termination
proof (relation "measure length")
  fix cs ds :: "u8 list"
  assume ds: "ds = dropWhile (\<lambda>c. c = 47) cs" "ds \<noteq> []"
  then have "hd ds \<noteq> 47" using hd_dropWhile by blast
  then have "length (dropWhile (\<lambda>c. c \<noteq> 47) ds) < length ds" using ds(2) by (cases ds) (auto simp: le_imp_less_Suc length_dropWhile_le)
  then show "(dropWhile (\<lambda>c. c \<noteq> 47) ds, cs) \<in> measure length"
    using length_dropWhile_le[of "\<lambda>c. c = 47" cs] ds(1) by simp
qed simp

declare path_components.simps [simp del]

lemma cstr_drop: "cstr b p (xs @ ys) \<Longrightarrow> cstr b (p + length xs) ys"
  by (induction xs arbitrary: p) force+

lemma cstr_nth: "cstr b p (c # cs) \<Longrightarrow> p < length b \<and> b ! p = c \<and> c \<noteq> 0"
  by (simp add: cstr_Cons)

lemma skip_slashes_ok:
  "cstr path p (47 # cs) \<Longrightarrow> skip_slashes path p = Inr (p + 1 + length (takeWhile (\<lambda>c. c = 47) cs))"
proof (induction cs arbitrary: p)
  case Nil
  then show ?case by (subst skip_slashes.simps) (simp add: cstr_Cons)
next
  case (Cons c cs)
  have c: "cstr path (p + 1) (c # cs)" using Cons.prems by (simp add: cstr_Cons)
  then show ?case using Cons.IH[of "p + 1"] cstr_nth[OF c] by (subst skip_slashes.simps) auto
qed

lemma copy_name_ok:
  "\<lbrakk> cstr path p cs; k + length (takeWhile (\<lambda>c. c \<noteq> 47) cs) \<le> length name \<rbrakk> \<Longrightarrow>
   copy_name path p name k = Inr (p + length (takeWhile (\<lambda>c. c \<noteq> 47) cs),
     take k name @ takeWhile (\<lambda>c. c \<noteq> 47) cs @ drop (k + length (takeWhile (\<lambda>c. c \<noteq> 47) cs)) name)"
proof (induction cs arbitrary: p k name)
  case Nil
  then show ?case by (subst copy_name.simps) simp
next
  case (Cons c cs)
  have c: "p < length path" "path ! p = c" "c \<noteq> 0" "cstr path (p + 1) cs" using Cons.prems(1) by (simp_all add: cstr_Cons)
  show ?case
  proof (cases "c = 47")
    case True
    then show ?thesis using c by (subst copy_name.simps) simp
  next
    case False
    let ?w = "takeWhile (\<lambda>c. c \<noteq> 47) cs"
    have k: "k < length name" "k + 1 + length ?w \<le> length (name[k := c])" using Cons.prems(2) False by simp_all
    have "take (k + 1) (name[k := c]) = take k name @ [c]" using k(1) by (simp add: take_Suc_conv_app_nth)
    then show ?thesis using Cons.IH[OF c(4) k(2)] c False k(1)
      by (subst copy_name.simps) (simp add: drop_update_cancel)
  qed
qed

lemma path_parse_ok:
  fixes cs :: "u8 list"
  defines "ds \<equiv> dropWhile (\<lambda>c. c = 47) cs"
  defines "w \<equiv> takeWhile (\<lambda>c. c \<noteq> 47) ds" and "rest \<equiv> dropWhile (\<lambda>c. c \<noteq> 47) ds"
  assumes "cstr path p cs" "length w \<le> length name"
  obtains q where "path_parse path p name = Inr (if rest = [] then None else Some q, w @ drop (length w) name)" "cstr path q rest"
proof -
  let ?q = "p + length (takeWhile (\<lambda>c. c = 47) cs)"
  have ds: "cstr path ?q ds" using cstr_drop[of path p "takeWhile (\<lambda>c. c = 47) cs" ds] assms(4) by (simp add: ds_def)
  have rest: "cstr path (?q + length w) rest" using cstr_drop[of path ?q w rest] ds by (simp add: w_def rest_def)
  have p: "p < length path" using assms(4) cstr_bound[OF assms(4)] by simp
  have first: "(if path ! p = 47 then skip_slashes path p else Inr p) = Inr ?q"
  proof (cases cs)
    case Nil
    then show ?thesis using assms(4) by simp
  next
    case (Cons c cs')
    then have c: "cstr path p (c # cs')" using assms(4) by simp
    show ?thesis
    proof (cases "c = 47")
      case True
      then show ?thesis using skip_slashes_ok[of path p cs'] c Cons by simp
    next
      case False
      then show ?thesis using c Cons by simp
    qed
  qed
  have cp: "copy_name path ?q name 0 = Inr (?q + length w, w @ drop (length w) name)"
    using copy_name_ok[OF ds, of 0 name] assms(5) by (simp add: w_def)
  have l: "?q + length w < length path" using cstr_bound[OF rest] by simp
  have "path ! (?q + length w) = 0 \<longleftrightarrow> rest = []"
    using rest by (cases rest) simp_all
  then have "path_parse path p name = Inr (if rest = [] then None else Some (?q + length w), w @ drop (length w) name)"
    using p l first cp by (simp add: path_parse_def)
  then show ?thesis using that rest by blast
qed

declare deepth_loop.simps [simp del]

lemma deepth_loop_end: "name ! 0 = 0 \<Longrightarrow> 0 < length name \<Longrightarrow> deepth_loop path p name d = Inr d"
  by (subst deepth_loop.simps) simp

lemma clear_name: "length name = 16 \<Longrightarrow> memset (Some (name, 0)) 0 MAX_FILE_NAME_LEN = Inr (replicate 16 0)"
  by (simp add: memset_correct MAX_FILE_NAME_LEN_def)

lemma deepth_loop_None: "length name = 16 \<Longrightarrow> name ! 0 \<noteq> 0 \<Longrightarrow> deepth_loop path None name d = Inr (d + 1)"
  by (subst deepth_loop.simps) (simp add: clear_name deepth_loop_end)

lemma component_head: "dropWhile (\<lambda>c. c = 47) cs = ds \<Longrightarrow> ds \<noteq> [] \<Longrightarrow> takeWhile (\<lambda>c. c \<noteq> 47) ds \<noteq> [] \<and> takeWhile (\<lambda>c. c \<noteq> 47) ds ! 0 \<in> set cs"
  using hd_dropWhile[of "\<lambda>c. c = 47" cs] set_dropWhileD[of "hd ds" "\<lambda>c. c = 47" cs] by (cases ds) auto

lemma path_components_Nil: "dropWhile (\<lambda>c. c = 47) cs = [] \<Longrightarrow> path_components cs = []"
  by (subst path_components.simps) simp

lemma path_components_Cons:
  "dropWhile (\<lambda>c. c = 47) cs \<noteq> [] \<Longrightarrow> path_components cs =
     takeWhile (\<lambda>c. c \<noteq> 47) (dropWhile (\<lambda>c. c = 47) cs) # path_components (dropWhile (\<lambda>c. c \<noteq> 47) (dropWhile (\<lambda>c. c = 47) cs))"
  by (subst path_components.simps) (simp add: Let_def)

text \<open>What the first call of \<^verbatim>\<open>path_parse\<close> leaves, and the calls in the loop.\<close>

lemma parse_component:
  assumes "cstr path p cs" "\<forall>w \<in> set (path_components cs). length w \<le> 16" "length name = 16"
  obtains (none) "path_parse path p name = Inr (None, name)" "path_components cs = []"
  | (last) w name' where "path_parse path p name = Inr (None, name')" "path_components cs = [w]" "name' ! 0 \<noteq> 0" "length name' = 16"
  | (more) w name' q rest where "path_parse path p name = Inr (Some q, name')" "path_components cs = w # path_components rest" "name' ! 0 \<noteq> 0"
      "length name' = 16" "cstr path q rest" "length rest < length cs"
proof -
  let ?ds = "dropWhile (\<lambda>c. c = 47) cs" let ?w = "takeWhile (\<lambda>c. c \<noteq> 47) ?ds" and ?rest = "dropWhile (\<lambda>c. c \<noteq> 47) ?ds"
  have nz: "0 \<notin> set cs" using assms(1) by (simp add: cstr_def)
  show ?thesis
  proof (cases "?ds = []")
    case True
    have "length ?w \<le> length name" unfolding True by simp
    then obtain q where "path_parse path p name = Inr (if ?rest = [] then None else Some q, ?w @ drop (length ?w) name)"
      by (rule path_parse_ok[OF assms(1)])
    then have "path_parse path p name = Inr (None, name)" unfolding True by simp
    then show ?thesis using none path_components_Nil[OF True] by simp
  next
    case False
    note cc = path_components_Cons[OF False]
    have w: "length ?w \<le> length name" "?w \<noteq> []" "?w ! 0 \<noteq> 0" using assms(2,3) cc component_head[OF refl False] nz by auto
    obtain q where q: "path_parse path p name = Inr (if ?rest = [] then None else Some q, ?w @ drop (length ?w) name)" "cstr path q ?rest"
      by (rule path_parse_ok[OF assms(1) w(1)])
    let ?n = "?w @ drop (length ?w) name"
    have n: "?n ! 0 \<noteq> 0" "length ?n = 16" using w assms(3) by (simp_all add: nth_append)
    show ?thesis
    proof (cases "?rest = []")
      case True
      have "path_parse path p name = Inr (None, ?n)" unfolding q(1) by (simp only: True if_True refl)
      moreover have "path_components cs = [?w]" unfolding cc True using path_components_Nil[of "[]"] by simp
      ultimately show ?thesis by (rule last[OF _ _ n])
    next
      case False
      have "length cs = length (takeWhile (\<lambda>c. c = 47) cs) + length ?w + length ?rest"
        using arg_cong[OF takeWhile_dropWhile_id[of "\<lambda>c. c = 47" cs], of length] arg_cong[OF takeWhile_dropWhile_id[of "\<lambda>c. c \<noteq> 47" ?ds], of length]
        unfolding length_append by linarith
      moreover have "0 < length ?w" unfolding length_greater_0_conv by (rule w(2))
      ultimately have "length ?rest < length cs" by linarith
      moreover have "path_parse path p name = Inr (Some q, ?n)" unfolding q(1) by (simp only: False if_False)
      ultimately show ?thesis using more[OF _ cc n q(2)] by blast
    qed
  qed
qed

lemma deepth_loop_ok:
  "\<lbrakk> cstr path q cs; \<forall>w \<in> set (path_components cs). length w \<le> 16; length name = 16; name ! 0 \<noteq> 0 \<rbrakk> \<Longrightarrow>
   deepth_loop path (Some q) name d = Inr (d + 1 + of_nat (length (path_components cs)))"
proof (induction "length cs" arbitrary: q cs name d rule: less_induct)
  case less
  have z: "length (replicate 16 (0 :: u8)) = 16" by simp
  have unf: "deepth_loop path (Some q) name d = bnd (path_parse path q (replicate 16 0)) (\<lambda>(p, name). deepth_loop path p name (d + 1))"
    using less.prems(3,4) by (subst deepth_loop.simps) (simp add: clear_name)
  show ?case using less.prems(1,2) z
  proof (cases rule: parse_component)
    case none
    then show ?thesis by (simp add: unf deepth_loop_end)
  next
    case (last w name')
    then show ?thesis by (simp add: unf deepth_loop_None)
  next
    case (more w name' q' rest)
    then have "deepth_loop path (Some q') name' (d + 1) = Inr (d + 1 + 1 + of_nat (length (path_components rest)))"
      by (intro less.hyps) (use less.prems(2) in auto)
    then show ?thesis using more(1,2) by (simp add: unf)
  qed
qed

text \<open>
  C19: \<^verbatim>\<open>path_deepth_cnt\<close> returns, for every path whose components have at most 16 characters, the number of words
  between the slashes; only for a path without components the result depends on what was on the stack,
  since the name is not cleared before the first call of \<^verbatim>\<open>path_parse\<close>.
\<close>

theorem path_deepth_counts:
  assumes "cstr path p cs" "\<forall>w \<in> set (path_components cs). length w \<le> 16" "length junk = 16"
  shows "path_deepth_cnt junk (Some (path, p)) =
    Inr (if path_components cs = [] \<and> junk ! 0 \<noteq> 0 then 1 else of_nat (length (path_components cs)))"
  using assms
proof (cases rule: parse_component)
  case none
  then show ?thesis using assms(3) deepth_loop_None[of junk path 0] deepth_loop_end[of junk path None 0] by (auto simp: path_deepth_cnt_def)
next
  case (last w name')
  then show ?thesis by (simp add: path_deepth_cnt_def deepth_loop_None)
next
  case (more w name' q rest)
  then have "deepth_loop path (Some q) name' 0 = Inr (0 + 1 + of_nat (length (path_components rest)))"
    by (intro deepth_loop_ok) (use assms(2) in auto)
  then show ?thesis using more by (simp add: path_deepth_cnt_def)
qed

theorem path_deepth_counts_witness:
  "path_deepth_cnt (replicate 16 7) (Some ([47, 97, 47, 47, 98, 99, 0], 0)) = Inr 2"
proof -
  have "path_components [47, 97, 47, 47, 98, 99] = [[97], [98, 99]]"
    by (simp add: path_components.simps[of "[47, 97, 47, 47, 98, 99]"] path_components.simps[of "[47, 47, 98, 99]"] path_components.simps[of "[]"])
  then show ?thesis using path_deepth_counts[of "[47, 97, 47, 47, 98, 99, 0]" 0 "[47, 97, 47, 47, 98, 99]" "replicate 16 7"]
    by (simp add: cstr_def)
qed

section \<open>The layout of a partition\<close>

lemma super_block_round_trip: "super_block_of (super_block_bytes b) = b"
proof -
  let ?ws = "[magic b, sb_sec_cnt b, inode_cnt b, part_lba_base b, block_bitmap_lba b, block_bitmap_sects b, inode_bitmap_lba b,
    inode_bitmap_sects b, inode_table_lba b, inode_table_sects b, data_start_lba b, root_inode_no b, sb_dir_entry_size b]"
  have "le32 (words_bytes ?ws @ pad b) (4 * i) = ?ws ! i" if "i < 13" for i using le32_words[of i ?ws "pad b"] that by simp
  note w = this[of 0] this[of 1] this[of 2] this[of 3] this[of 4] this[of 5] this[of 6] this[of 7] this[of 8] this[of 9] this[of 10] this[of 11] this[of 12]
  have d: "drop 52 (words_bytes ?ws @ pad b) = pad b" by simp
  show ?thesis unfolding super_block_of_def super_block_bytes_def Let_def using w d by (cases b) (simp del: words_bytes_simps)
qed

lemma round_up_sector:
  assumes "unat n \<le> 0x10000000"
  shows "unat (DIV_ROUND_UP n BITS_PER_SECTOR) = (unat n + 4095) div 4096"
proof -
  have e: "n + BITS_PER_SECTOR - 1 = n + 4095" by (simp add: BITS_PER_SECTOR_def)
  have "unat (n + 4095) = (unat n + 4095) mod 2 ^ 32" by (simp add: unat_word_ariths)
  also have "\<dots> = unat n + 4095" using assms by (intro mod_less) simp
  finally show ?thesis unfolding DIV_ROUND_UP_def e unat_div by (simp add: BITS_PER_SECTOR_def)
qed

lemma table_numbers: "DIV_ROUND_UP MAX_FILES_PER_PART BITS_PER_SECTOR = 1" "DIV_ROUND_UP (SIZEOF_INODE * MAX_FILES_PER_PART) SECTOR_SIZE = 608"
  by (simp_all add: DIV_ROUND_UP_def MAX_FILES_PER_PART_def BITS_PER_SECTOR_def SIZEOF_INODE_def SECTOR_SIZE_def)

text \<open>
  C22: the layout \<^verbatim>\<open>partition_format\<close> writes. The bitmap of the blocks starts behind the super block; the
  bitmap of the inodes and the table of the inodes follow without gap; the block bitmap has a bit for every block it counts; behind the table there is
  room for that many blocks in the partition. The super block reads back from the disk as it was written. But the sector
  the data are said to start at is 1216 for every partition.
\<close>

theorem format_layout:
  assumes "612 \<le> unat (sector_counter p)" "unat (start_lba p) + unat (sector_counter p) \<le> 0x10000000" "b = format_super_block junk p"
  shows "unat (block_bitmap_lba b) = unat (start_lba p) + 2 \<and>
    unat (inode_bitmap_lba b) = unat (block_bitmap_lba b) + unat (block_bitmap_sects b) \<and>
    unat (inode_table_lba b) = unat (inode_bitmap_lba b) + unat (inode_bitmap_sects b) \<and>
    unat (format_bit_len p) \<le> 4096 * unat (block_bitmap_sects b) \<and>
    unat (inode_table_lba b) + unat (inode_table_sects b) + unat (format_bit_len p) \<le> unat (start_lba p) + unat (sector_counter p) \<and>
    super_block_of (super_block_bytes b) = b \<and> data_start_lba b = 1216"
proof -
  let ?f = "sector_counter p - 611" and ?n = "format_bit_len p"
  define m where "m = (unat ?f + 4095) div 4096"
  define k where "k = (unat ?n + 4095) div 4096"
  have f: "unat ?f = unat (sector_counter p) - 611" using assms(1) by (simp add: unat_sub word_le_nat_alt)
  have c: "unat (DIV_ROUND_UP ?f BITS_PER_SECTOR) = m" unfolding m_def by (rule round_up_sector) (use f assms(2) in simp)
  have m: "m \<le> unat ?f" using f assms(1) by (simp add: m_def)
  have "?n = ?f - DIV_ROUND_UP ?f BITS_PER_SECTOR" by (simp add: format_bit_len_def table_numbers Let_def)
  then have n: "unat ?n = unat ?f - m" using c m by (simp add: unat_sub word_le_nat_alt)
  have bb: "unat (DIV_ROUND_UP ?n BITS_PER_SECTOR) = k" unfolding k_def by (rule round_up_sector) (use n f assms(2) in simp)
  have k: "k \<le> m" unfolding k_def m_def using n by (intro div_le_mono) simp
  have fields: "block_bitmap_lba b = start_lba p + 2" "block_bitmap_sects b = DIV_ROUND_UP ?n BITS_PER_SECTOR" "inode_bitmap_sects b = 1" "inode_table_sects b = 608"
    "inode_bitmap_lba b = start_lba p + 2 + DIV_ROUND_UP ?n BITS_PER_SECTOR" "inode_table_lba b = start_lba p + 2 + DIV_ROUND_UP ?n BITS_PER_SECTOR + 1"
    "data_start_lba b = 1216"
    by (simp_all add: assms(3) format_super_block_def table_numbers Let_def)
  have small: "unat (start_lba p) + k + unat ?n + 611 \<le> unat (start_lba p) + unat (sector_counter p)" using n m k f assms(1) by linarith
  have l1: "unat (start_lba p + 2) = unat (start_lba p) + 2" using small assms(2) by (simp add: unat_word_ariths)
  have l2: "unat (start_lba p + 2 + DIV_ROUND_UP ?n BITS_PER_SECTOR) = unat (start_lba p) + 2 + k"
    using unat_plus_simple[of "start_lba p + 2" "DIV_ROUND_UP ?n BITS_PER_SECTOR"] l1 bb small assms(2) by (simp add: unat_word_ariths)
  have l3: "unat (start_lba p + 2 + DIV_ROUND_UP ?n BITS_PER_SECTOR + 1) = unat (start_lba p) + 2 + k + 1"
    using l2 small assms(2) by (subst unat_word_ariths) (simp del: unat_plus_simple)
  have "unat ?n \<le> 4096 * k" unfolding k_def using div_mult_mod_eq[of "unat ?n + 4095" 4096] mod_less_divisor[of 4096 "unat ?n + 4095"] by linarith
  then show ?thesis using l1 l2 l3 small bb unfolding fields by (simp add: super_block_round_trip)
qed

theorem format_layout_witness:
  "let p = \<lparr>start_lba = 2048, sector_counter = 20000, my_disk = 0, part_name = []\<rparr>; b = format_super_block [] p in
     unat (inode_table_lba b) + unat (inode_table_sects b) + unat (format_bit_len p) \<le> 22048 \<and> data_start_lba b = 1216"
  using format_layout[of "\<lparr>start_lba = 2048, sector_counter = 20000, my_disk = 0, part_name = []\<rparr>" _ "[]", OF _ _ refl] by (simp add: Let_def)

section \<open>Search for a file in the root directory\<close>

text \<open>
  C23: \<^verbatim>\<open>search_file\<close> never finds a file of the root directory. For a path of one component, the first call of
  \<^verbatim>\<open>path_parse\<close> consumes it and returns the null pointer, and the second one reads through it.
\<close>

theorem search_file_one_component:
  assumes "cstr fname 0 (replicate n 47 @ w)" "47 \<notin> set w" "length w \<le> 512"
    and "replicate n 47 @ w \<notin> {[47], [47, 46, 46], [47, 46]}"
  shows "search_file hw fname sr s = Inl (Page_fault 0)"
proof -
  have ne: "\<exists>r. strcmp (Some (fname, 0)) (Some (c_string t, 0)) = Inr r \<and> r \<noteq> 0"
    if "cstr (c_string t) 0 ds" "replicate n 47 @ w \<noteq> ds" for t ds
    using strcmp_loop_zero[OF assms(1) that(1)] that(2) by (auto simp: strcmp_def)
  have cs: "cstr (c_string ''/'') 0 [47]" "cstr (c_string ''/..'') 0 [47, 46, 46]" "cstr (c_string ''/.'') 0 [47, 46]"
    by (simp_all add: c_string_def cstr_def)
  obtain r1 r2 r3 where r: "strcmp (Some (fname, 0)) (Some (c_string ''/'', 0)) = Inr r1" "r1 \<noteq> 0"
    "strcmp (Some (fname, 0)) (Some (c_string ''/..'', 0)) = Inr r2" "r2 \<noteq> 0"
    "strcmp (Some (fname, 0)) (Some (c_string ''/.'', 0)) = Inr r3" "r3 \<noteq> 0"
    using ne[OF cs(1)] ne[OF cs(2)] ne[OF cs(3)] assms(4) by auto
  have ds: "dropWhile (\<lambda>c. c = 47) (replicate n 47 @ w) = w"
    using assms(2) by (cases w) (auto simp: dropWhile_append)
  have w: "takeWhile (\<lambda>c. c \<noteq> 47) w = w" "dropWhile (\<lambda>c. c \<noteq> 47) w = []" using assms(2) by (auto simp: takeWhile_eq_all_conv)
  have len: "length (takeWhile (\<lambda>c. c \<noteq> 47) (dropWhile (\<lambda>c. c = 47) (replicate n 47 @ w))) \<le> length (replicate (unat MAX_PATH_LEN) (0 :: u8))"
    unfolding ds w(1) using assms(3) by (simp add: MAX_PATH_LEN_def)
  obtain nm where "path_parse fname 0 (replicate (unat MAX_PATH_LEN) 0) = Inr (None, nm)"
    by (rule path_parse_ok[OF assms(1) len]) (simp add: ds w)
  then show ?thesis using r by (simp add: search_file_def Let_def)
qed

theorem search_file_one_component_witness:
  "search_file sim_disk [47, 97, 0] \<lparr>searched_path = replicate 512 0, rec_parent_dir = 0, file_type = 0\<rparr> fs_sample = Inl (Page_fault 0)"
  using search_file_one_component[of "[47, 97, 0]" 1 "[97]" sim_disk] by (simp add: cstr_def)

section \<open>A partition that has a file system\<close>

text \<open>The partition is empty, or its second sector starts with the magic number.\<close>

definition has_fs :: "'d ata_view \<Rightarrow> u32 \<Rightarrow> u32 \<Rightarrow> ('d, 'a) fs_state_scheme \<Rightarrow> bool" where
  "has_fs V hdd part s \<longleftrightarrow> (let p = partitions s part in
     sector_counter p = 0 \<or>
     unat (start_lba p + 1) < 0x28000 \<and> 0 \<in> set (part_name p) \<and> length (part_name p) \<le> 8 \<and> part_name_addr part \<noteq> 0 \<and>
     magic (super_block_of (media V (hw_state s) (dev_no (disks s hdd) = 1) (unat (start_lba p + 1)))) = 0x19990814)"

lemma render_plain: "37 \<notin> set fs \<Longrightarrow> render mem fs args = Some fs"
  by (induction mem fs args rule: render.induct) auto

lemma printk_name:
  assumes "0 \<in> set (mem a)" "length (mem a) \<le> 8" "a \<noteq> 0" "may_print s"
  shows "\<exists>out. printk mem (c_string ''%s has filesystem \<newline>'') [a] s = Inr (0, s\<lparr>screen := screen s @ [Put_str out]\<rparr>)"
proof -
  let ?n = "takeWhile (\<lambda>c. c \<noteq> 0) (mem a)" and ?t = "map (\<lambda>c. of_nat (of_char c) :: u8) '' has filesystem \<newline>''"
  have t: "37 \<notin> set ?t" "0 \<notin> set ?t" "length ?t = 17" by simp_all
  have "cstr (c_string ''%s has filesystem \<newline>'') 0 (37 # 115 # ?t)" by (simp add: c_string_def cstr_def)
  moreover have "render mem (37 # 115 # ?t) [a] = Some (?n @ ?t)"
    using assms(1-3) t(1) by (simp add: show_arg_def string_at_def render_plain del: list.map)
  moreover have "0 \<notin> set (?n @ ?t)" using t(2) by (auto dest: set_takeWhileD)
  moreover have "length (?n @ ?t) < 1024" using t(3) length_takeWhile_le[of "\<lambda>c. c \<noteq> 0" "mem a"] assms(2) by simp
  ultimately show ?thesis using printk_prints[of "c_string ''%s has filesystem \<newline>''" _ mem "[a]"] assms(4) by blast
qed

lemma check_has_fs:
  fixes s :: "('d, 'a) fs_state_scheme"
  assumes "ata_disk hw base vec V" "disk_free base vec hdd s" "mode V (hw_state s) = Idle" "may_print s" "has_fs V hdd part s"
  obtains t where "check_partition hw junk hdd part s = Inr t" "media V (hw_state t) = media V (hw_state s)"
    "disk_free base vec hdd t" "mode V (hw_state t) = Idle" "may_print t" "partitions t = partitions s" "disks t = disks s"
proof (cases "sector_counter (partitions s part) = 0")
  case True
  then show ?thesis using that assms by (simp add: check_partition_def)
next
  case False
  let ?p = "partitions s part" and ?dr = "dev_no (disks s hdd) = 1"
  have F: "unat (start_lba ?p + 1) < 0x28000" "0 \<in> set (part_name ?p)" "length (part_name ?p) \<le> 8" "part_name_addr part \<noteq> 0"
    "magic (super_block_of (media V (hw_state s) ?dr (unat (start_lba ?p + 1)))) = 0x19990814"
    using assms(5) False by (simp_all add: has_fs_def Let_def)
  obtain x d e where rd: "ide_read hw hdd (start_lba ?p + 1) (replicate 512 0) 1 s =
      Inr (media V (hw_state s) ?dr (unat (start_lba ?p + 1)), driven (my_channel (disks s hdd)) x d e s)"
    "mode V d = Idle" "media V d = media V (hw_state s)"
    by (rule read_sector[OF assms(1,2) refl assms(3) F(1) length_replicate])
  let ?u = "driven (my_channel (disks s hdd)) x d e s"
  have m: "may_print ?u" using assms(4) by (simp add: may_print_def driven_def lock_free_def list_empty_def next_of_def running_thread_def)
  obtain out where pk: "printk (\<lambda>_. part_name ?p) (c_string ''%s has filesystem \<newline>'') [part_name_addr part] ?u = Inr (0, ?u\<lparr>screen := screen ?u @ [Put_str out]\<rparr>)"
    using printk_name[of "\<lambda>_. part_name ?p" "part_name_addr part" ?u] F(2-4) m by blast
  let ?t = "?u\<lparr>screen := screen ?u @ [Put_str out]\<rparr>"
  have "check_partition hw junk hdd part s = Inr ?t" using False rd(1) F(5) pk by (simp add: check_partition_def Let_def)
  moreover have "disk_free base vec hdd ?t" using assms(2) disk_free_driven[of base vec hdd s] by (subst disk_free_cong[of _ ?u]) simp_all
  moreover have "may_print ?t" using m by (simp add: may_print_def lock_free_def list_empty_def next_of_def running_thread_def)
  ultimately show ?thesis using that rd(2,3) by simp
qed

text \<open>
  C21: \<^verbatim>\<open>filesys_init\<close> does not format a disk again. When every partition of a disk is empty or carries the magic
  number, the check of its partitions returns and leaves every sector of the disks as it was. The super block that
  \<^verbatim>\<open>partition_format\<close> writes carries the number.
\<close>

theorem not_formatted_again:
  assumes "ata_disk hw base vec V" "disk_free base vec hdd s" "mode V (hw_state s) = Idle" "may_print s" "\<forall>part \<in> set ps. has_fs V hdd part s"
  shows "(\<exists>t. check_partitions hw junk hdd ps s = Inr t \<and> media V (hw_state t) = media V (hw_state s)) \<and>
    magic (super_block_of (super_block_bytes (format_super_block junk p))) = 0x19990814"
proof
  show "\<exists>t. check_partitions hw junk hdd ps s = Inr t \<and> media V (hw_state t) = media V (hw_state s)"
    using assms(2-5)
  proof (induction ps arbitrary: s)
    case (Cons part ps)
    have fs: "has_fs V hdd part s" using Cons.prems(4) by simp
    obtain t where t: "check_partition hw junk hdd part s = Inr t" "media V (hw_state t) = media V (hw_state s)"
      "disk_free base vec hdd t" "mode V (hw_state t) = Idle" "may_print t" "partitions t = partitions s" "disks t = disks s"
      by (rule check_has_fs[OF assms(1) Cons.prems(1-3) fs])
    have "\<forall>part \<in> set ps. has_fs V hdd part t" using Cons.prems(4) t(2,6,7) by (simp add: has_fs_def)
    then show ?case using Cons.IH[OF t(3-5)] t(1,2) by auto
  qed simp
  show "magic (super_block_of (super_block_bytes (format_super_block junk p))) = 0x19990814"
    by (simp add: super_block_round_trip format_super_block_def Let_def)
qed

theorem not_formatted_again_witness:
  "\<exists>s t :: sim fs_state. check_partitions sim_disk [] 0xc0007040 [0xc0109000] s = Inr t \<and> media sim_view (hw_state t) = media sim_view (hw_state s) \<and>
    sector_counter (partitions s 0xc0109000) \<noteq> 0"
proof -
  let ?s = "fs_sample\<lparr>hw_state := (hw_state fs_sample)\<lparr>sim_media := \<lambda>_ _. word32_bytes 0x19990814\<rparr>\<rparr>"
  have p: "partitions ?s 0xc0109000 = \<lparr>start_lba = 0, sector_counter = 0x20000, my_disk = 0xc0007040, part_name = [115, 100, 97, 49, 0]\<rparr>"
    by (simp add: fs_sample_def ide_state.defs)
  have f: "disk_free 0x1f0 0x2e 0xc0007040 ?s" using fs_sample_free by (subst disk_free_cong[of _ fs_sample]) simp_all
  have i: "mode sim_view (hw_state ?s) = Idle" using fs_sample_ready[of 0] by (simp add: inodes_ready_def sim_view_def)
  have c: "console_lock sys_sample = 0xc0008000" by (simp add: sys_sample_def console_sample_def console_state.defs kbd_state.defs)
  have m: "may_print ?s" using sys_sample_ready(2)
    by (simp add: c may_print_def fs_sample_def ide_state.defs disk_sample_def Let_def sys_state.defs lock_init_def sem_init_def list_init_def set_next_def
        set_prev_def lock_free_def list_empty_def next_of_def running_thread_def channel_lock_def disk_done_sem_def sem_waiter_def lock_sem_def head_of_def tail_of_def)
  have "has_fs sim_view 0xc0007040 0xc0109000 ?s"
    unfolding has_fs_def Let_def p by (simp add: sim_view_def super_block_of_def Let_def part_name_addr_def)
  then show ?thesis using not_formatted_again[OF sim_ata f i m, of "[0xc0109000]" "[]"] p by fastforce
qed
end
