(* ===== verification/Frame.thy ===== *)
theory Frame
  imports Filesys
begin

text \<open>
  What the lower components leave alone, and the shapes of the file system.

  The state of a component extends the states of the components below it. A routine of a lower component returns with
  all later fields unchanged; these facts are the collection \<open>frame\<close>. With them every routine of the file
  system keeps the lengths that the arrays have in the source.
\<close>

section \<open>Below the threads\<close>

named_theorems frame \<open>the later fields are unchanged\<close>

abbreviation above :: "'a thread_state_scheme \<Rightarrow> 'a" where "above s \<equiv> thread_state.more s"

lemma intr_above [simp]:
  fixes s :: "'a thread_state_scheme"
  shows "above (snd (intr_set_status st s)) = above s" "above (snd (intr_disable s)) = above s" "above (sti s) = above s" "above (cli s) = above s"
  by (simp_all add: intr_set_status_def intr_enable_def intr_disable_def sti_def cli_def)

lemma intr_disable_above [frame]: "intr_disable s = (old, t) \<Longrightarrow> above t = above s"
  using intr_above(2)[of s] by simp

lemma list_above [simp]:
  fixes s :: "'a thread_state_scheme"
  shows "above (list_append p e s) = above s" "above (list_push p e s) = above s" "above (list_remove e s) = above s"
    "above (snd (list_pop p s)) = above s" "above (upd_pcb p f s) = above s" "above (push_frame f' p s) = above s"
  by (simp_all add: list_op_eqs upd_pcb_def push_frame_def)

lemma list_pop_above [frame]: "list_pop p s = (e, t) \<Longrightarrow> above t = above s"
  using list_above(4)[of p s] by simp

lemma case_pairs:
  "(case intr_disable s of (old, t) \<Rightarrow> f old t) = f (fst (intr_disable s)) (snd (intr_disable s))"
  "(case list_pop p s' of (e, t') \<Rightarrow> g e t') = g (fst (list_pop p s')) (snd (list_pop p s'))"
  by (simp_all add: case_prod_beta)

lemma thread_unlock_above [frame]: "thread_unlock u s = Inr t \<Longrightarrow> above t = above s"
  by (drule thread_unlock_frame) auto

lemma activate_above [frame]: "process_activate p s = Inr t \<Longrightarrow> above t = above s"
  by (auto simp: process_activate_def page_dir_activate_def update_tss_esp0_def putStr_def outcome Let_def split: if_splits)

lemma switch_above [simp]: "above (switch_to c p t) = above t"
  by (simp add: switch_to_def Let_def)

lemma schedule_above [frame]: "schedule s = Inr t \<Longrightarrow> above t = above s"
  by (auto simp: schedule_def Let_def outcome split: if_splits prod.splits dest!: frame)

lemma thread_lock_above [frame]: "thread_lock st s = Inr t \<Longrightarrow> above t = above s"
  by (auto simp: thread_lock_def Let_def outcome split: if_splits prod.splits dest!: frame)

lemma sem_down_loop_above [frame]: "sem_down_loop sem old s = Inr t \<Longrightarrow> above t = above s"
  by (auto simp: sem_down_loop_def Let_def outcome split: if_splits prod.splits dest!: frame)

lemma sem_down_above [frame]: "sem_down sem s = Inr t \<Longrightarrow> above t = above s"
  by (auto simp: sem_down_def Let_def outcome split: if_splits prod.splits dest!: frame)

lemma sem_up_above [frame]: "sem_up sem s = Inr t \<Longrightarrow> above t = above s"
  by (auto simp: sem_up_def Let_def outcome split: if_splits prod.splits dest!: frame)

lemma lock_acquire_above [frame]: "lock_acquire l s = Inr t \<Longrightarrow> above t = above s"
  by (auto simp: lock_acquire_def outcome split: if_splits dest!: frame)

lemma lock_acquire_tail_above [frame]: "lock_acquire_tail l s = Inr t \<Longrightarrow> above t = above s"
  by (auto simp: lock_acquire_tail_def Let_def outcome split: if_splits)

lemma lock_release_above [frame]: "lock_release l s = Inr t \<Longrightarrow> above t = above s"
  by (auto simp: lock_release_def Let_def outcome split: if_splits dest!: frame)

lemma run_frame_above [frame]: "run_frame f s = Inr t \<Longrightarrow> above t = above s"
  by (cases f) (auto simp: kernel_thread_def Let_def intr_enable_def split: if_splits dest!: frame)

lemma resume_above [frame]: "resume s = Inr t \<Longrightarrow> above t = above s"
  by (auto simp: resume_def split: list.splits dest!: frame)

lemma lock_acquire_now_above [frame]: "lock_acquire_now l s = Inr t \<Longrightarrow> above t = above s"
  by (auto simp: lock_acquire_now_def Let_def outcome split: if_splits dest!: frame)

section \<open>Memory\<close>

lemma store_word_above [frame]: "store_word va v s = Inr t \<Longrightarrow> above t = above s"
  by (auto simp: store_word_def outcome)

lemma zero_words_above [frame]: "zero_words va n s = Inr t \<Longrightarrow> above t = above s"
  by (induction va n s rule: zero_words.induct) (auto simp: outcome dest!: frame)

lemma page_table_add_above [frame]: "page_table_add v p s = Inr t \<Longrightarrow> above t = above s"
  by (auto simp: page_table_add_def Let_def outcome split: if_splits prod.splits dest!: frame)

lemma pfree_above [frame]: "pfree p s = Inr t \<Longrightarrow> above t = above s"
  by (auto simp: pfree_def Let_def outcome split: if_splits)

lemma pte_remove_above [frame]: "page_table_pte_remove v s = Inr t \<Longrightarrow> above t = above s"
  by (auto simp: page_table_pte_remove_def Let_def outcome dest!: frame)

lemma set_above [simp]: "above (set_pool PF p s) = above s" "above (set_vaddrs PF v s) = above s"
  by (simp_all add: set_pool_def set_vaddrs_def split: pool_flags.split)

lemma vaddr_get_pages_above [frame]: "vaddr_get_pages PF n s = Inr (v, t) \<Longrightarrow> above t = above s"
  by (auto simp: vaddr_get_pages_def Let_def outcome split: if_splits)

lemma map_pages_above [frame]: "map_pages PF v n s = Inr (ok, t) \<Longrightarrow> above t = above s"
proof (induction n arbitrary: v s)
  case (Suc n)
  obtain f p where "palloc (the_pool PF s) = Inr (f, p)" using Suc.prems by (auto simp: outcome)
  then show ?case using Suc.prems Suc.IH by (fastforce simp: Let_def outcome split: if_splits dest!: frame)
qed simp

lemma malloc_pages_above [frame]: "malloc_pages PF n s = Inr (v, t) \<Longrightarrow> above t = above s"
  by (auto simp: malloc_pages_def outcome split: if_splits prod.splits dest!: frame)

lemma memset_0_above [frame]: "memset_0 va n s = Inr t \<Longrightarrow> above t = above s"
  by (auto simp: memset_0_def Let_def outcome split: if_splits dest!: frame)

lemma unmap_pages_above [frame]: "unmap_pages user p v n s = Inr t \<Longrightarrow> above t = above s"
  by (induction user p v n s rule: unmap_pages.induct) (auto simp: outcome split: if_splits dest!: frame)

lemma free_pages_above [frame]: "free_pages PF n v s = Inr t \<Longrightarrow> above t = above s"
  by (auto simp: free_pages_def vaddr_remove_pages_def Let_def outcome split: if_splits dest!: frame)

lemma store_arena_above [frame]: "store_arena a d n l s = Inr t \<Longrightarrow> above t = above s"
  by (auto simp: store_arena_def outcome dest!: frame)

lemma set_arena_cnt_above [frame]: "set_arena_cnt a n s = Inr t \<Longrightarrow> above t = above s"
  by (auto simp: set_arena_cnt_def dest!: frame)

lemma divide_arena_above [frame]: "divide_arena a d i n s = Inr t \<Longrightarrow> above t = above s"
  by (induction a d i n s rule: divide_arena.induct) (auto simp: outcome split: if_splits)

lemma collect_arena_above [frame]: "collect_arena a i n s = Inr t \<Longrightarrow> above t = above s"
  by (induction a i n s rule: collect_arena.induct) (auto simp: outcome split: if_splits)

lemma new_arena_above [frame]: "new_arena PF d s = Inr (ok, t) \<Longrightarrow> above t = above s"
  by (auto simp: new_arena_def case_pairs outcome split: if_splits prod.splits dest!: frame)

lemma malloc_large_above [frame]: "malloc_large PF n s = Inr (a, t) \<Longrightarrow> above t = above s"
  by (auto simp: malloc_large_def Let_def outcome split: if_splits prod.splits dest!: frame)

lemma malloc_small_above [frame]: "malloc_small PF d n s = Inr (a, t) \<Longrightarrow> above t = above s"
  by (auto simp: malloc_small_def case_pairs Let_def outcome split: if_splits prod.splits dest!: frame)

lemma sys_malloc_above [frame]: "sys_malloc n s = Inr (a, t) \<Longrightarrow> above t = above s"
  by (auto simp: sys_malloc_def Let_def outcome split: if_splits dest!: frame)

lemma sys_free_above [frame]: "sys_free a s = Inr t \<Longrightarrow> above t = above s"
proof -
  assume a: "sys_free a s = Inr t"
  define PF where "PF = (if pgdir (pcbs s (running_thread s)) = 0 then PF_KERNEL else PF_USER)"
  obtain u d where u: "lock_acquire_now (pool_lock (the_pool PF s)) s = Inr u" "load_word (block_to_arena a) u = Inr d"
    using a by (auto simp: sys_free_def Let_def outcome PF_def)
  show ?thesis
  proof (cases "d = 0")
    case True
    then show ?thesis using a u unfolding sys_free_def Let_def PF_def[symmetric] by (auto simp: outcome dest!: frame)
  next
    case False
    let ?u = "list_append (free_list d) a u" and ?m = "block_to_arena a"
    obtain n v w where v: "arena_cnt ?m ?u = Inr n" "set_arena_cnt ?m (n + 1) ?u = Inr v"
      "(if n + 1 = blocks_per_arena (block_descs v d)
        then bnd (collect_arena ?m 0 (unat (blocks_per_arena (block_descs v d))) v) (\<lambda>s. free_pages PF 1 ?m s) else Inr v) = Inr w"
      "lock_release (pool_lock (the_pool PF w)) w = Inr t"
      using a u False unfolding sys_free_def Let_def PF_def[symmetric] by (auto simp: outcome)
    have "above w = above v" using v(3) by (auto simp: outcome split: if_splits dest!: frame)
    then show ?thesis using u(1) v(2,4) by (auto dest!: frame)
  qed
qed

lemma printk_above [frame]: "printk m f as s = Inr (r, t) \<Longrightarrow> above t = above s"
  by (auto simp: printk_def console_put_str_def console_acquire_def console_release_def putStr_buf_def putStr_def outcome split: if_splits prod.splits dest!: frame)

section \<open>The disk driver\<close>

abbreviation rest :: "('d, 'a) ide_state_scheme \<Rightarrow> 'a" where "rest s \<equiv> ide_state.more s"

lemma above_rest: "above t = above s \<Longrightarrow> rest t = rest s"
  by (cases s, cases t) simp

named_theorems frame_ide \<open>the fields behind those of the driver are unchanged\<close>

lemmas lower_rest [frame_ide] = sem_up_above[THEN above_rest] sem_down_above[THEN above_rest] lock_acquire_now_above[THEN above_rest]
  lock_release_above[THEN above_rest] sys_malloc_above[THEN above_rest] sys_free_above[THEN above_rest] printk_above[THEN above_rest]

lemma ide_upd_rest [simp]:
  fixes s :: "('d, 'a) ide_state_scheme"
  shows "rest (upd_channel c f s) = rest s" "rest (disk_out hw p v s) = rest s" "rest (snd (in_byte hw p s)) = rest s" "rest (cli s) = rest s"
  by (simp_all add: upd_channel_def disk_out_def out_byte_def in_byte_def cli_def case_prod_beta)

lemma in_byte_rest [frame_ide]: "in_byte hw p s = (v, t) \<Longrightarrow> rest t = rest s"
  using ide_upd_rest(3)[of hw p s] by simp

lemma select_rest [frame_ide]: "select_sector hw d l n s = Inr t \<Longrightarrow> rest t = rest s"
  by (auto simp: select_sector_def Let_def outcome split: if_splits)

lemma select_disk_rest [simp]: "rest (select_disk hw d s) = rest s"
  by (simp add: select_disk_def Let_def)

lemma cmd_out_rest [frame_ide]: "cmd_out hw c x s = Inr t \<Longrightarrow> rest t = rest s"
  by (auto simp: cmd_out_def Let_def outcome split: if_splits)

lemma busy_wait_loop_rest: "busy_wait_loop hw c n s = Inr (ok, t) \<Longrightarrow> rest t = rest s"
proof (induction hw c n s rule: busy_wait_loop.induct)
  case (1 hw c n s)
  show ?case
  proof (cases "n - 1 \<noteq> 0")
    case True
    obtain v u where u: "in_byte hw (reg_status (channels s c)) s = (v, u)" by fastforce
    obtain w x where x: "in_byte hw (reg_status (channels u c)) u = (w, x)" by fastforce
    have "mtime_sleep 10 u = Inr u" by (simp add: mtime_sleep_def ticks_to_sleep_def Let_def)
    then show ?thesis using 1(1)[OF True u[symmetric] refl] 1(2) True u x
      by (subst (asm) busy_wait_loop.simps) (auto split: if_splits dest!: frame_ide)
  next
    case False
    then show ?thesis using 1(2) by (subst (asm) busy_wait_loop.simps) auto
  qed
qed

lemma busy_wait_rest [frame_ide]: "busy_wait hw d s = Inr (ok, t) \<Longrightarrow> rest t = rest s"
  by (simp add: busy_wait_def busy_wait_loop_rest)

lemma intr_hd_handler_rest [frame_ide]: "intr_hd_handler hw n s = Inr t \<Longrightarrow> rest t = rest s"
  by (auto simp: intr_hd_handler_def Let_def outcome split: if_splits dest!: frame_ide)

lemma wait_done_rest [frame_ide]: "wait_done hw d s = Inr t \<Longrightarrow> rest t = rest s"
  by (auto simp: wait_done_def disk_interrupt_def Let_def outcome split: if_splits prod.splits dest!: frame_ide)

lemma put_bytes_length: "put_bytes obj p bs = Inr obj' \<Longrightarrow> length obj' = length obj"
  by (auto simp: put_bytes_def split: if_splits)

lemma sector_rest [frame_ide]:
  "read_from_sector hw d obj p n s = Inr (obj', t) \<Longrightarrow> rest t = rest s \<and> length obj' = length obj"
  "write_to_sector hw d obj p n s = Inr t \<Longrightarrow> rest t = rest s"
  by (auto simp: read_from_sector_def write_to_sector_def in_multibyte_def out_multibyte_def outcome put_bytes_length split: prod.splits)

lemma ide_read_loop_rest [frame_ide]: "ide_read_loop hw d l obj n k s = Inr (obj', t) \<Longrightarrow> rest t = rest s \<and> length obj' = length obj"
proof (induction hw d l obj n k s rule: ide_read_loop.induct)
  case (1 hw d l obj n k s)
  show ?case using 1(2)
    by (subst (asm) ide_read_loop.simps) (auto simp: Let_def outcome split: if_splits dest!: 1(1)[OF _ refl] frame_ide)
qed

lemma ide_read_rest [frame_ide]: "ide_read hw d l obj n s = Inr (obj', t) \<Longrightarrow> rest t = rest s \<and> length obj' = length obj"
  by (auto simp: ide_read_def Let_def outcome split: if_splits dest!: frame_ide)

lemma ide_write_loop_rest [frame_ide]: "ide_write_loop hw d l obj n k s = Inr t \<Longrightarrow> rest t = rest s"
proof (induction hw d l obj n k s rule: ide_write_loop.induct)
  case (1 hw d l obj n k s)
  show ?case using 1(2)
    by (subst (asm) ide_write_loop.simps) (auto simp: Let_def outcome split: if_splits dest!: 1(1)[OF _ refl] frame_ide)
qed

lemma ide_write_rest [frame_ide]: "ide_write hw d l obj n s = Inr t \<Longrightarrow> rest t = rest s"
  by (auto simp: ide_write_def Let_def outcome split: if_splits dest!: frame_ide)

section \<open>Shapes\<close>

text \<open>
  The arrays of the source have fixed lengths: 13 sectors of an inode, 512 bytes of the buffer of a directory, 460
  bytes that fill the super block, 32 open files.
\<close>

definition fs_shape :: "('d, 'a) fs_state_scheme \<Rightarrow> bool" where
  "fs_shape s \<longleftrightarrow> (\<forall>a. length (i_sectors (inodes s a)) = 13) \<and> (\<forall>a. length (dir_buf (dirs s a)) = 512) \<and>
     (\<forall>a. length (pad (super_blocks s a)) = 460) \<and> length (file_table s) = MAX_FILE_OPEN"

named_theorems shape \<open>the shapes are kept\<close>

lemma rest_shape: "rest t = rest s \<Longrightarrow> fs_shape t = fs_shape s"
  by (cases s, cases t) (simp add: fs_shape_def)

lemmas lower_shape [shape] = sys_malloc_above[THEN above_rest, THEN rest_shape] sys_free_above[THEN above_rest, THEN rest_shape]
  printk_above[THEN above_rest, THEN rest_shape] ide_write_rest[THEN rest_shape] intr_disable_above[THEN above_rest, THEN rest_shape]

lemma ide_read_shape [shape]: "ide_read hw d l obj n s = Inr (obj', t) \<Longrightarrow> fs_shape t = fs_shape s \<and> length obj' = length obj"
  using ide_read_rest rest_shape by blast

lemma above_shape:
  fixes s t :: "('d, 'a) fs_state_scheme"
  shows "above t = above s \<Longrightarrow> fs_shape t = fs_shape s"
  by (rule rest_shape, rule above_rest)

lemma upd_shape [simp]:
  fixes s :: "('d, 'a) fs_state_scheme"
  shows "fs_shape (snd (intr_set_status st s)) = fs_shape s" "fs_shape (list_append p e s) = fs_shape s" "fs_shape (list_remove e s) = fs_shape s"
    "fs_shape (upd_pcb p f s) = fs_shape s" "fs_shape (list_init p s) = fs_shape s" "fs_shape (set_pgdir d s) = fs_shape s"
    "fs_shape (upd_mount p g s) = fs_shape s" "fs_shape (s\<lparr>curr_part := x\<rparr>) = fs_shape s"
proof -
  show "fs_shape (snd (intr_set_status st s)) = fs_shape s" "fs_shape (list_append p e s) = fs_shape s" "fs_shape (list_remove e s) = fs_shape s"
    "fs_shape (upd_pcb p f s) = fs_shape s" "fs_shape (list_init p s) = fs_shape s"
    by (rule above_shape, simp add: list_init_def set_next_def set_prev_def)+
  show "fs_shape (set_pgdir d s) = fs_shape s" unfolding set_pgdir_def by (rule above_shape) simp
  show "fs_shape (upd_mount p g s) = fs_shape s" "fs_shape (s\<lparr>curr_part := x\<rparr>) = fs_shape s"
    by (simp_all add: upd_mount_def fs_shape_def)
qed

lemma upd_inode_shape: "fs_shape s \<Longrightarrow> (\<And>i. length (i_sectors i) = 13 \<Longrightarrow> length (i_sectors (f i)) = 13) \<Longrightarrow> fs_shape (upd_inode a f s)"
  by (auto simp: fs_shape_def upd_inode_def)

lemma set_sector_shape [simp]: "fs_shape s \<Longrightarrow> fs_shape (set_sector n i l s)"
  unfolding set_sector_def by (rule upd_inode_shape) auto

section \<open>Every routine keeps the shapes\<close>

lemma inode_sync_shape [shape]: "inode_sync hw part n b s = Inr (b', t) \<Longrightarrow> fs_shape t = fs_shape s"
  by (auto simp: inode_sync_def Let_def outcome split: if_splits dest!: shape)

lemma inode_fetch_shape [shape]: "inode_fetch hw part pos s = Inr (i, t) \<Longrightarrow> fs_shape t = fs_shape s \<and> length (i_sectors i) = 13"
  by (auto simp: inode_fetch_def Let_def outcome inode_of_def dest!: shape)

lemma inode_open_shape [shape]: "inode_open hw part n s = Inr (a, t) \<Longrightarrow> fs_shape s \<longrightarrow> fs_shape t"
  by (auto simp: inode_open_def Let_def outcome intro!: upd_inode_shape split: if_splits dest!: shape)

lemma close_tail_shape [shape]: "close_tail n u st s = Inr t \<Longrightarrow> fs_shape t = fs_shape s"
  by (auto simp: close_tail_def Let_def outcome split: if_splits dest!: shape)

lemma inode_close_shape [shape]: "inode_close n s = Inr t \<Longrightarrow> fs_shape s \<longrightarrow> fs_shape t"
  by (auto simp: inode_close_def Let_def intro!: upd_inode_shape split: prod.splits dest!: shape)

lemma inode_init_shape: "fs_shape s \<Longrightarrow> fs_shape (inode_init n a s)"
  unfolding inode_init_def by (rule upd_inode_shape) simp_all

lemma get_free_slot_shape [shape]: "get_free_slot_in_global s = Inr (i, t) \<Longrightarrow> fs_shape t = fs_shape s"
  by (auto simp: get_free_slot_in_global_def outcome split: if_splits dest!: shape)

lemma pcb_fd_install_shape [shape]: "pcb_fd_install g s = Inr (i, t) \<Longrightarrow> fs_shape t = fs_shape s"
  by (auto simp: pcb_fd_install_def Let_def outcome split: if_splits dest!: shape)

lemma bitmap_alloc_shape [shape]:
  "inode_bitmap_alloc part s = Inr (i, t) \<Longrightarrow> fs_shape t = fs_shape s"
  "block_bitmap_alloc part s = Inr (i, t) \<Longrightarrow> fs_shape t = fs_shape s"
  by (auto simp: inode_bitmap_alloc_def block_bitmap_alloc_def Let_def outcome split: if_splits)

lemma bitmap_sync_shape [shape]: "bitmap_sync hw part i k s = Inr t \<Longrightarrow> fs_shape t = fs_shape s"
  by (auto simp: bitmap_sync_def Let_def dest!: shape)

lemma open_root_dir_shape [shape]: "open_root_dir hw part s = Inr t \<Longrightarrow> fs_shape s \<longrightarrow> fs_shape t"
  by (auto simp: open_root_dir_def outcome dest!: shape) (auto simp: fs_shape_def)

lemma dir_open_shape [shape]: "dir_open hw part n s = Inr (d, t) \<Longrightarrow> fs_shape s \<longrightarrow> fs_shape t"
  by (auto simp: dir_open_def outcome dest!: shape) (auto simp: fs_shape_def)

lemma inode_close_dir_shape [shape]: "inode_close_dir d s = Inr t \<Longrightarrow> fs_shape s \<longrightarrow> fs_shape t"
proof -
  assume a: "inode_close_dir d s = Inr t"
  obtain old u where u: "intr_disable s = (old, u)" by fastforce
  let ?n = "le32 (dir_buf (dirs u d)) 0 - 1"
  let ?u = "u\<lparr>dirs := (dirs u)(d := (dirs u d)\<lparr>dir_buf := word32_bytes ?n @ drop 4 (dir_buf (dirs u d))\<rparr>)\<rparr>"
  have "fs_shape u \<longrightarrow> fs_shape ?u" by (auto simp: fs_shape_def)
  moreover have "fs_shape t = fs_shape ?u" using a u by (auto simp: inode_close_dir_def Let_def dest!: close_tail_shape)
  ultimately show ?thesis using u by (auto dest!: shape)
qed

lemma dir_close_shape [shape]: "dir_close d s = Inr t \<Longrightarrow> fs_shape s \<longrightarrow> fs_shape t"
  by (auto simp: dir_close_def outcome split: if_splits dest!: shape)

lemma search_sectors_shape [shape]: "search_sectors hw d nm bs as s = Inr (r, t) \<Longrightarrow> fs_shape t = fs_shape s"
  by (induction hw d nm bs as s rule: search_sectors.induct) (auto simp: outcome split: if_splits option.splits dest!: shape)

lemma search_dir_entry_shape [shape]: "search_dir_entry hw part d nm s = Inr (r, t) \<Longrightarrow> fs_shape t = fs_shape s"
  by (auto simp: search_dir_entry_def sect_addr_array_def Let_def outcome split: if_splits dest!: shape)

lemma write_table_shape [shape]: "write_table hw n bs s = Inr t \<Longrightarrow> fs_shape t = fs_shape s"
  by (auto simp: write_table_def dest!: shape)

lemma new_block_shape [shape]: "new_block hw n i bs s = Inr (r, t) \<Longrightarrow> fs_shape s \<longrightarrow> fs_shape t"
  by (auto simp: new_block_def Let_def outcome split: if_splits dest!: shape)

lemma sync_blocks_shape [shape]: "sync_blocks hw n e bs i k b s = Inr (r, b', t) \<Longrightarrow> fs_shape s \<longrightarrow> fs_shape t"
proof (induction k arbitrary: bs i b s)
  case (Suc k)
  show ?case
  proof (cases "bs ! i = 0")
    case True
    then show ?thesis using Suc.prems by (auto simp: outcome intro!: upd_inode_shape split: option.splits dest!: shape)
  next
    case False
    obtain c u where c: "ide_read hw (my_disk (partitions s (curr_part s))) (bs ! i) b 1 s = Inr (c, u)" using Suc.prems False by (auto simp: outcome)
    have u: "fs_shape u = fs_shape s" using c by (auto dest!: shape)
    show ?thesis
    proof (cases "free_entry c 0 (512 div 24)")
      case None
      then have "sync_blocks hw n e bs (i + 1) k c u = Inr (r, b', t)" using Suc.prems False c by simp
      then show ?thesis using Suc.IH u by blast
    next
      case (Some f)
      then show ?thesis using Suc.prems False c u by (auto simp: outcome intro!: upd_inode_shape dest!: shape)
    qed
  qed
qed simp

lemma sync_dir_entry_shape [shape]: "sync_dir_entry hw d e b s = Inr (r, b', t) \<Longrightarrow> fs_shape s \<longrightarrow> fs_shape t"
  by (auto simp: sync_dir_entry_def read_blocks_def Let_def outcome split: if_splits dest!: shape)

lemma partition_format_shape [shape]: "partition_format hw junk part s = Inr t \<Longrightarrow> fs_shape t = fs_shape s"
  unfolding partition_format_def Let_def by (auto simp: outcome dest!: shape)

lemma read_bitmap_shape [shape]: "read_bitmap hw d l n k s = Inr (b, t) \<Longrightarrow> fs_shape t = fs_shape s"
  by (auto simp: read_bitmap_def outcome split: if_splits dest!: shape)

lemma super_block_shape: "fs_shape s \<Longrightarrow> length bs = 512 \<Longrightarrow> fs_shape (s\<lparr>super_blocks := (super_blocks s)(a := super_block_of bs)\<rparr>)"
  by (auto simp: fs_shape_def super_block_of_def Let_def)

lemma mount_partition_shape [shape]: "mount_partition hw mem e arg s = Inr (r, t) \<Longrightarrow> fs_shape s \<longrightarrow> fs_shape t"
  by (auto simp: mount_partition_def Let_def outcome super_block_shape split: if_splits dest!: shape)

lemma check_partition_shape [shape]: "check_partition hw junk d part s = Inr t \<Longrightarrow> fs_shape t = fs_shape s"
  by (auto simp: check_partition_def Let_def outcome split: if_splits dest!: shape)

lemma check_partitions_shape [shape]: "check_partitions hw junk d ps s = Inr t \<Longrightarrow> fs_shape t = fs_shape s"
  by (induction hw junk d ps s rule: check_partitions.induct) (auto simp: outcome dest!: shape)

lemma check_channels_shape [shape]: "check_channels hw junk cs s = Inr t \<Longrightarrow> fs_shape t = fs_shape s"
  by (induction hw junk cs s rule: check_channels.induct) (auto simp: Let_def outcome split: if_splits dest!: shape)

lemma traveral_loop_keeps:
  assumes step: "\<And>e s r t. func e arg s = Inr (r, t) \<Longrightarrow> P s \<Longrightarrow> P t"
  shows "list_traveral_loop func arg stop e s = Some y \<Longrightarrow> P s \<longrightarrow> (\<forall>x t. y = Inr (x, t) \<longrightarrow> P t)"
  by (rule list_traveral_loop.raw_induct[of "\<lambda>f a st e s y. f = func \<and> a = arg \<longrightarrow> P s \<longrightarrow> (\<forall>x t. y = Inr (x, t) \<longrightarrow> P t)", THEN mp])
    (force split: if_splits sum.splits dest: step)+

lemma traveral_keeps:
  assumes "\<And>e s r t. func e arg s = Inr (r, t) \<Longrightarrow> P s \<Longrightarrow> P t" "list_traveral p func arg s = Inr (x, t)" "P s"
  shows "P t"
  using assms(2,3) traveral_loop_keeps[of func arg P, OF assms(1)]
  by (auto simp: list_traveral_def outcome returned_def split: if_splits option.splits)

lemma filesys_init_shape [shape]: "filesys_init hw junk s = Inr t \<Longrightarrow> fs_shape s \<longrightarrow> fs_shape t"
  using mount_partition_shape traveral_keeps[of "mount_partition hw (\<lambda>_. default_part)" _ fs_shape]
  by (auto simp: filesys_init_def outcome split: if_splits dest!: shape) blast

lemma search_loop_shape: "search_loop hw path p nm d no e sr s = Inr (r, sr', t) \<Longrightarrow> fs_shape s \<longrightarrow> fs_shape t"
proof (induction "parse_measure path p nm" arbitrary: p nm d no e sr s rule: less_induct)
  case less
  note unf = less.prems[unfolded search_loop.simps[of hw path p nm]]
  obtain c where c: "get_at nm 0 = Inr c" using unf by (auto simp: outcome)
  show ?case
  proof (cases "c = 0")
    case True
    then show ?thesis using unf c by (auto split: option.splits simp: outcome dest!: shape)
  next
    case False
    obtain sp x u where u: "strcat (Some (searched_path sr, 0)) (Some (c_string ''/'', 0)) = Inr sp"
      "search_dir_entry hw (curr_part s) d nm s = Inr (x, u)" using unf c False by (auto simp: outcome)
    have su: "fs_shape u = fs_shape s" using u(2) by (auto dest!: shape)
    show ?thesis
    proof (cases x)
      case None
      then show ?thesis using unf c False u su by (auto simp: outcome)
    next
      case (Some y)
      obtain nm1 q c1 p1 nm2 sp2 where n: "memset (Some (nm, 0)) 0 MAX_PATH_LEN = Inr nm1" "p = Some q" "get_at path q = Inr c1"
        "(if c1 \<noteq> 0 then path_parse path q nm1 else Inr (Some q, nm1)) = Inr (p1, nm2)"
        "strcat (Some (sp, 0)) (Some (nm, 0)) = Inr sp2"
        using unf c False u Some by (cases p) (auto simp: outcome)
      have "nm ! 0 \<noteq> 0" using c False by (auto simp: outcome)
      moreover have "nm1 ! 0 = 0" using memset_first[OF n(1)] by (simp add: MAX_PATH_LEN_def)
      ultimately have m: "parse_measure path p1 nm2 < parse_measure path p nm"
        using n(2,4) parse_measure_less(1)[of nm path q nm1 p1 nm2] parse_measure_less(2)[of nm nm1 path p] by (auto split: if_splits)
      show ?thesis
      proof (cases "f_type y = FT_DIRECTORY")
        case True
        then obtain v w d' where "dir_close d u = Inr v" "dir_open hw (curr_part v) (entry_no y) v = Inr (d', w)"
          "search_loop hw path p1 nm2 d' (i_no (inodes u (dir_inode (dirs u d)))) (Some y) (sr\<lparr>searched_path := sp2, rec_parent_dir := d'\<rparr>) w = Inr (r, sr', t)"
          using unf c False u Some n by (auto simp: outcome Let_def simp del: search_loop.simps)
        then show ?thesis using less.hyps[OF m] su by (auto dest!: shape simp del: search_loop.simps)
      next
        case False
        then show ?thesis using unf c \<open>c \<noteq> 0\<close> u Some n su less.hyps[OF m] by (auto simp: outcome simp del: search_loop.simps split: if_splits)
      qed
    qed
  qed
qed

lemma search_file_shape [shape]: "search_file hw f sr s = Inr (r, sr', t) \<Longrightarrow> fs_shape s \<longrightarrow> fs_shape t"
  unfolding search_file_def Let_def
  by (auto simp: outcome simp del: search_loop.simps split: option.splits if_split_asm dest!: search_loop_shape)

text \<open>A call of one of the routines that returns.\<close>

inductive fs_step :: "'d ata \<Rightarrow> ('d, 'a) fs_state_scheme \<Rightarrow> ('d, 'a) fs_state_scheme \<Rightarrow> bool" for hw where
  "filesys_init hw junk s = Inr t \<Longrightarrow> fs_step hw s t"
| "open_root_dir hw part s = Inr t \<Longrightarrow> fs_step hw s t"
| "inode_open hw part no s = Inr (n, t) \<Longrightarrow> fs_step hw s t"
| "inode_close n s = Inr t \<Longrightarrow> fs_step hw s t"
| "inode_sync hw part n io_buff s = Inr (bs, t) \<Longrightarrow> fs_step hw s t"
| "fs_step hw s (inode_init no n s)"
| "get_free_slot_in_global s = Inr (i, t) \<Longrightarrow> fs_step hw s t"
| "pcb_fd_install idx s = Inr (i, t) \<Longrightarrow> fs_step hw s t"
| "inode_bitmap_alloc part s = Inr (i, t) \<Longrightarrow> fs_step hw s t"
| "block_bitmap_alloc part s = Inr (i, t) \<Longrightarrow> fs_step hw s t"
| "bitmap_sync hw part i btmp s = Inr t \<Longrightarrow> fs_step hw s t"
| "dir_open hw part no s = Inr (d, t) \<Longrightarrow> fs_step hw s t"
| "dir_close d s = Inr t \<Longrightarrow> fs_step hw s t"
| "search_dir_entry hw part d name s = Inr (r, t) \<Longrightarrow> fs_step hw s t"
| "sync_dir_entry hw d e io_buf s = Inr (ok, bs, t) \<Longrightarrow> fs_step hw s t"
| "search_file hw fname sr s = Inr (v, sr', t) \<Longrightarrow> fs_step hw s t"

lemma fs_step_shape: "fs_step hw s t \<Longrightarrow> fs_shape s \<Longrightarrow> fs_shape t"
  by (induction rule: fs_step.induct) (auto simp: inode_init_shape dest!: shape)


end
