(* ===== verification/Init.thy ===== *)
theory Init
  imports Frame
begin

text \<open>
  Start-up: \<^verbatim>\<open>kernel/init.c\<close> and \<^verbatim>\<open>kernel/main.c\<close>.

  What the linker and the machine provide is the record \<open>image\<close>: the table of interrupt entries and the entry
  of system calls in \<^verbatim>\<open>kernel.asm\<close>, the address of the interrupt table, the bytes of memory
  before the kernel uses them, the controller of the disks, and a bound for the chain of partition tables.

  \<^verbatim>\<open>main\<close> and the sample threads and programs end in an endless loop; the result here is the state in which
  they enter it. The loops that only count are left out.
\<close>

record 'd image =
  interrupt_table :: "u32 list"
  syscall_entry :: u32
  idt_addr :: u32
  raw_memory :: "u32 \<Rightarrow> u8"
  scan_fuel :: nat
  controller :: "'d ata"
  stack_junk :: "u8 list"

text \<open>The devices and tables, from \<^verbatim>\<open>timer_init\<close> to \<^verbatim>\<open>sti\<close>.\<close>

definition init_devices :: "('d, 'a) fs_state_scheme \<Rightarrow> error + ('d, 'a) fs_state_scheme" where
  "init_devices s =
     bnd (timer_init s) (\<lambda>s.
     let s = console_init s in
     bnd (keyboard_init s) (\<lambda>s.
     let s = tss_init s;
         s = syscall_table_init s
     in Inr (sti s)))"

definition init_all :: "'d image \<Rightarrow> ('d, 'a) fs_state_scheme \<Rightarrow> error + ('d, 'a) fs_state_scheme" where
  "init_all im s =
     (let s = putStr ''init all start \<newline>'' s in
      bnd (idt_init (interrupt_table im) (syscall_entry im) (idt_addr im) s) (\<lambda>s.
      bnd (mem_init (raw_memory im) s) (\<lambda>s.
      bnd (system_thread_init s) (\<lambda>s.
      bnd (init_devices s) (\<lambda>s.
      bnd (ide_init (scan_fuel im) (controller im) s) (\<lambda>s.
      bnd (filesys_init (controller im) (stack_junk im) s) (\<lambda>s.
      Inr (putStr ''init all done \<newline>'' s))))))))"

definition main :: "'d image \<Rightarrow> ('d, 'a) fs_state_scheme \<Rightarrow> error + ('d, 'a) fs_state_scheme" where
  "main im s = init_all im (putStr ''kernel\<newline>'' s)"

text \<open>The two threads differ in the text they print, the two programs as well.\<close>

definition print_addrs :: "string \<Rightarrow> u32 \<Rightarrow> u32 \<Rightarrow> u32 \<Rightarrow> 'a console_state_scheme \<Rightarrow> error + 'a console_state_scheme" where
  "print_addrs title addr1 addr2 addr3 s =
     bnd (console_put_str (c_string title) s) (\<lambda>s.
     bnd (console_put_int addr1 s) (\<lambda>s.
     bnd (console_put_str (c_string '','') s) (\<lambda>s.
     bnd (console_put_int addr2 s) (\<lambda>s.
     bnd (console_put_str (c_string '','') s) (\<lambda>s.
     bnd (console_put_int addr3 s) (\<lambda>s.
     console_put_str (c_string ''\<newline>'') s))))))"

definition thread_body :: "string \<Rightarrow> 'a heap_state_scheme \<Rightarrow> error + 'a heap_state_scheme" where
  "thread_body title s =
     bnd (sys_malloc 256 s) (\<lambda>(addr1, s).
     bnd (sys_malloc 255 s) (\<lambda>(addr2, s).
     bnd (sys_malloc 254 s) (\<lambda>(addr3, s).
     bnd (print_addrs title addr1 addr2 addr3 s) (\<lambda>s.
     bnd (sys_free addr1 s) (\<lambda>s.
     bnd (sys_free addr2 s) (\<lambda>s.
     sys_free addr3 s))))))"

definition thread1 :: "'a heap_state_scheme \<Rightarrow> error + 'a heap_state_scheme" where "thread1 s = thread_body ''thread 1 addr : 0x'' s"
definition thread2 :: "'a heap_state_scheme \<Rightarrow> error + 'a heap_state_scheme" where "thread2 s = thread_body ''thread 2 addr : 0x'' s"

definition prog_body :: "string \<Rightarrow> 'a sys_state_scheme \<Rightarrow> error + 'a sys_state_scheme" where
  "prog_body format s =
     bnd (malloc 256 s) (\<lambda>(addr1, s).
     bnd (malloc 255 s) (\<lambda>(addr2, s).
     bnd (malloc 254 s) (\<lambda>(addr3, s).
     bnd (printf (\<lambda>_. []) (c_string format) [addr1, addr2, addr3] s) (\<lambda>(_, s).
     bnd (free addr1 s) (\<lambda>s.
     bnd (free addr2 s) (\<lambda>s.
     free addr3 s))))))"

definition u_prog_a :: "'a sys_state_scheme \<Rightarrow> error + 'a sys_state_scheme" where
  "u_prog_a s = prog_body ''userprog 1 addr : 0x%x,0x%x,0x%x\<newline>'' s"

definition u_prog_b :: "'a sys_state_scheme \<Rightarrow> error + 'a sys_state_scheme" where
  "u_prog_b s = prog_body ''userprog 2 addr : 0x%x,0x%x,0x%x\<newline>'' s"

section \<open>What start-up leaves\<close>

lemma lock_init_eq:
  "lock_init l s = s\<lparr>lheap := lheap (lock_init l s), sem_value := (sem_value s)(lock_sem l := 1), locks := (locks s)(l := \<lparr>holder = 0, holder_repeat_num = 0\<rparr>)\<rparr>"
  by (simp add: lock_init_def sem_init_def list_init_def set_prev_def set_next_def Let_def)

lemma lock_init_next:
  "l_next (lheap (lock_init l s) a) = (if a = l + 8 then l + 16 else if a = l + 16 then 0 else l_next (lheap s a))"
  by (auto simp: lock_init_def sem_init_def list_init_def set_prev_def set_next_def Let_def sem_waiter_def lock_sem_def head_of_def tail_of_def)

lemma lock_init_free: "lock_free l (lock_init l s)"
proof -
  have "sem_value (lock_init l s) (lock_sem l) = 1" "locks (lock_init l s) l = \<lparr>holder = 0, holder_repeat_num = 0\<rparr>"
    by (subst lock_init_eq, simp)+
  then show ?thesis by (simp add: lock_free_def list_empty_def next_of_def lock_init_next sem_waiter_def lock_sem_def head_of_def tail_of_def)
qed

lemma lock_init_other: "\<lbrakk> lock_free l s; l \<noteq> m; l \<noteq> m + 8 \<rbrakk> \<Longrightarrow> lock_free l (lock_init m s)"
proof -
  assume a: "lock_free l s" "l \<noteq> m" "l \<noteq> m + 8"
  have "sem_value (lock_init m s) (lock_sem l) = sem_value s (lock_sem l)" "locks (lock_init m s) l = locks s l"
    using a(2) by (subst lock_init_eq, simp add: lock_sem_def)+
  moreover have "l + 8 \<noteq> m + 16" using a(3) by (metis add.assoc add_right_cancel numeral_Bit0)
  ultimately show ?thesis using a by (simp add: lock_free_def list_empty_def next_of_def lock_init_next sem_waiter_def lock_sem_def head_of_def tail_of_def)
qed

lemma lock_free_cong: "\<lbrakk> locks t = locks u; sem_value t = sem_value u; lheap t = lheap u \<rbrakk> \<Longrightarrow> lock_free l t = lock_free l u"
  by (simp add: lock_free_def list_empty_def next_of_def)

text \<open>
  C24: once the interrupt table, the memory and the threads are set up, the devices come up. The timer and the keyboard
  have their handlers and no other vector changes, the four system calls are in their table, the lock of
  the console and the one of the keyboard buffer are free, the buffer is empty, the clock is at 0 and interrupts are open.
\<close>

theorem init_devices_ready:
  assumes "length (exception_funcptr_table s) = INT_DESC_NUM" "length (syscall_table s) = SYSTEMCALL_NUMBER"
    and "console_lock s \<noteq> io_lock s" "console_lock s \<noteq> io_lock s + 8"
  shows "\<exists>t. init_devices s = Inr t \<and>
    exception_funcptr_table t = (exception_funcptr_table s)[0x20 := intr_timer_handler_p, 0x21 := intr_keyboard_handler_p] \<and>
    table_ready t \<and> lock_free (console_lock t) t \<and> lock_free (io_lock t) t \<and>
    ioqueue_is_empty t \<and> ticks t = 0 \<and> intr_get_status t = INTR_ON"
proof -
  obtain u where u: "timer_init s = Inr u" "exception_funcptr_table u = (exception_funcptr_table s)[0x20 := intr_timer_handler_p]"
    "console_lock u = console_lock s" "io_lock u = io_lock s" "syscall_table u = syscall_table s" "ticks u = 0"
    using assms(1) by (auto simp: timer_init_def register_handler_def frequency_set_def out_byte_def putStr_def Let_def outcome INT_DESC_NUM_def)
  let ?v = "lock_init (console_lock s) u"
  have v: "exception_funcptr_table ?v = exception_funcptr_table u" "io_lock ?v = io_lock s" "console_lock ?v = console_lock s"
    "syscall_table ?v = syscall_table s" "ticks ?v = 0"
    using u by (subst lock_init_eq, simp)+
  let ?p = "?v\<lparr>screen := screen ?v @ [Put_str ''keyboard init \<newline>'']\<rparr>"
  let ?w = "lock_init (io_lock s) ?p"
  have w: "exception_funcptr_table ?w = exception_funcptr_table u" "io_lock ?w = io_lock s" "console_lock ?w = console_lock s"
    "syscall_table ?w = syscall_table s" "ticks ?w = 0"
    using v by (subst lock_init_eq, simp)+
  have "lock_free (console_lock s) ?p" using lock_free_cong[of ?p ?v] lock_init_free[of "console_lock s" u] by simp
  then have f: "lock_free (console_lock s) ?w" "lock_free (io_lock s) ?w" using assms(3,4) by (auto intro: lock_init_other lock_init_free)
  obtain x where x: "keyboard_init ?v = Inr x" "locks x = locks ?w" "sem_value x = sem_value ?w" "lheap x = lheap ?w"
    "exception_funcptr_table x = (exception_funcptr_table u)[0x21 := intr_keyboard_handler_p]"
    "io_lock x = io_lock s" "console_lock x = console_lock s" "syscall_table x = syscall_table s" "ticks x = 0" "ioqueue_is_empty x"
    using v w assms(1) u(2)
    by (auto simp: keyboard_init_def ioqueue_init_def upd_ioq_def register_handler_def putStr_def Let_def outcome INT_DESC_NUM_def ioqueue_is_empty_def)
  let ?t = "sti (syscall_table_init (tss_init x))"
  have "init_devices s = Inr ?t" using u(1,3) x(1) by (simp add: init_devices_def console_init_def)
  moreover have "lock_free l ?t = lock_free l ?w" for l
    using x(2-4) by (intro lock_free_cong) (simp_all add: sti_def syscall_table_init_def tss_init_def putStr_def Let_def)
  moreover have "table_ready ?t"
    using syscall_table_init_ready[of "tss_init x"] x(8) assms(2) by (simp add: table_ready_def sti_def tss_init_def putStr_def Let_def)
  ultimately show ?thesis using f x u by (auto simp: sti_def syscall_table_init_def tss_init_def putStr_def Let_def ioqueue_is_empty_def intr bit_or_iff)
qed

theorem init_devices_ready_witness:
  "\<exists>t. init_devices (fs_sample\<lparr>exception_funcptr_table := replicate 0x81 general_exception_handler_p, syscall_table := replicate 32 None,
      console_lock := 0xc0009100, io_lock := 0xc0009000\<rparr>) = Inr t \<and> table_ready t \<and> intr_get_status t = INTR_ON"
  using init_devices_ready[of "fs_sample\<lparr>exception_funcptr_table := replicate 0x81 general_exception_handler_p, syscall_table := replicate 32 None,
      console_lock := 0xc0009100, io_lock := 0xc0009000\<rparr>"] by (auto simp: INT_DESC_NUM_def SYSTEMCALL_NUMBER_def)

text \<open>
  \<^verbatim>\<open>kernel.asm\<close> has entries for 48 vectors, but \<^verbatim>\<open>idt_init\<close> reads 129: with the table as it is
  the first step of start-up leaves it.
\<close>

lemma init_all_leaves_table:
  "\<lbrakk> length (interrupt_table im) = 48; length (idt s) = INT_DESC_NUM \<rbrakk> \<Longrightarrow> main im s = Inl Out_of_bounds"
  using idt_gates_short[of "interrupt_table im" 0 INT_DESC_NUM "idt s"]
  by (simp add: main_def init_all_def idt_init_def idt_desc_init_def putStr_def INT_DESC_NUM_def)
end
