(* ===== verification/Spec2Isabelle.thy ===== *)
theory Spec2Isabelle
  imports System Init
begin

text \<open>
  \<^bold>\<open>A verification of leeos\<close>

  leeos is a small kernel for 32-bit x86 machines, written in C with some assembly: memory management, threads,
  synchronisation, user processes, system calls, drivers for timer, keyboard, screen and disks, and the
  beginning of a file system. This library models its C code as functions on an explicit state and proves what the
  parts promise to each other. Where the code does not do what it means to do, the model does what the code does, and a
  theorem says what that is.

  \<^bold>\<open>The state.\<close> Each component has a record that extends the record of the component it builds on:
  \<^verbatim>\<open>cpu\<close> (flags, ports, screen), \<^verbatim>\<open>idt_state\<close>, \<^verbatim>\<open>list_state\<close>, \<^verbatim>\<open>mem_state\<close>, \<^verbatim>\<open>thread_state\<close>,
  \<^verbatim>\<open>timer_state\<close>, \<^verbatim>\<open>ioq_state\<close>, \<^verbatim>\<open>kbd_state\<close>, \<^verbatim>\<open>console_state\<close>, \<^verbatim>\<open>heap_state\<close>, \<^verbatim>\<open>proc_state\<close>, \<^verbatim>\<open>sys_state\<close>,
  \<^verbatim>\<open>ide_state\<close>, \<^verbatim>\<open>fs_state\<close>. Structures that the code links by pointers are stores from addresses to records (list nodes,
  control blocks, locks, inodes, directories); addresses are 32-bit words, fields have the width of the source, and
  arithmetic wraps as it does there. Page tables and the heads of arenas are words of physical memory behind the
  address translation. A routine returns \<^verbatim>\<open>Inr\<close> of its result, or \<^verbatim>\<open>Inl\<close> of what stopped it: a failed
  \<^verbatim>\<open>ASSERT\<close>, a reported exception, an access outside an object, a value that was never written, a
  page fault, a thread that gives up the processor in the middle of a routine that is followed as a whole, or a
  loop without end.

  \<^bold>\<open>Theories and sources\<close> (paths under \<^verbatim>\<open>src/\<close>)
  \<^item> \<^verbatim>\<open>Prelude\<close>: outcomes (\<^verbatim>\<open>kernel/debug.c\<close>), indexed access, shared lemmas; \<^verbatim>\<open>Alloc\<close>, \<^verbatim>\<open>Fifo\<close>: the contracts (locales) of an
    allocator of single units and of a queue.
  \<^item> \<^verbatim>\<open>CString\<close>: \<^verbatim>\<open>lib/string.c\<close>. \<^verbatim>\<open>Bitmap\<close>: \<^verbatim>\<open>lib/kernel/bitmap.c\<close>. \<^verbatim>\<open>KList\<close>: \<^verbatim>\<open>lib/kernel/list.c\<close>.
    \<^verbatim>\<open>Stdio\<close>: \<^verbatim>\<open>lib/stdio.c\<close>.
  \<^item> \<^verbatim>\<open>Interrupt\<close>: \<^verbatim>\<open>kernel/interrupt.c\<close>, the calls of \<^verbatim>\<open>print.asm\<close> as entries of a log.
  \<^item> \<^verbatim>\<open>Paging\<close>, \<^verbatim>\<open>Memory\<close>, \<^verbatim>\<open>Heap\<close>: \<^verbatim>\<open>kernel/memory.c\<close>, from the page tables over pages to blocks.
  \<^item> \<^verbatim>\<open>Thread\<close>, \<^verbatim>\<open>Sync\<close>, \<^verbatim>\<open>System\<close>: \<^verbatim>\<open>thread/thread.c\<close> and \<^verbatim>\<open>thread/sync.c\<close>; what a thread does after a call
    that switches is a frame of its kernel stack, and \<^verbatim>\<open>System\<close> has the step relation of all threads with the timer.
  \<^item> \<^verbatim>\<open>Timer\<close>, \<^verbatim>\<open>Ioqueue\<close>, \<^verbatim>\<open>Keyboard\<close>, \<^verbatim>\<open>Console\<close>, \<^verbatim>\<open>Ide\<close>, \<^verbatim>\<open>Disk\<close>: the files of \<^verbatim>\<open>device/\<close>; \<^verbatim>\<open>Ide\<close> is the driver over a
    controller that is a parameter, \<^verbatim>\<open>Disk\<close> states what the ATA documents say of it and proves the driver.
  \<^item> \<^verbatim>\<open>Process\<close>, \<^verbatim>\<open>Syscall\<close>: \<^verbatim>\<open>userprog/\<close> and \<^verbatim>\<open>lib/user/\<close>, with the system call entry of \<^verbatim>\<open>kernel/kernel.asm\<close>.
  \<^item> \<^verbatim>\<open>Fs\<close>, \<^verbatim>\<open>Dirs\<close>, \<^verbatim>\<open>Filesys\<close>: \<^verbatim>\<open>fs/inode.c\<close> and \<^verbatim>\<open>fs/file.c\<close>, \<^verbatim>\<open>fs/dir.c\<close>, \<^verbatim>\<open>fs/fs.c\<close>. \<^verbatim>\<open>Frame\<close>: what the routines below
    leave alone, and the shapes of the file system.
  \<^item> \<^verbatim>\<open>Init\<close>: \<^verbatim>\<open>kernel/init.c\<close> and \<^verbatim>\<open>kernel/main.c\<close>.

  \<^bold>\<open>What is shown\<close>
  \<^item> Threads: over every interleaving of threads and timer, no step fails an assertion, the ready list
    holds exactly the threads that are ready, at most one thread is behind a lock, and a free lock with waiters has
    woken one.
  \<^item> Memory: a page that is mapped translates to its frame and no other page changes; pages and blocks are
    fresh and disjoint, and freeing gives the state back; the layout of the pools; address spaces share the kernel.
  \<^item> Lists, bitmaps, strings, the ring buffer and \<^verbatim>\<open>printf\<close> refine sequences, sets of numbers, lists of
    characters, queues and a specification of the format language.
  \<^item> Devices: typed keys reach the buffer; printing is exclusive; on a disk that behaves as documented, what
    is read is what was written, over commands of any number of sectors; waiting ends for every disk.
  \<^item> System calls run the routine of their number and return its result.
  \<^item> File system: inodes read back from the table; blocks are given once; an open inode is shared; entries
    are found again; the depth of a path; the layout of a formatted partition, which is not formatted again; all calls keep the shapes of
    the data, for every disk. \<^verbatim>\<open>search_file\<close> and \<^verbatim>\<open>sync_dir_entry\<close> have defects that theorems exhibit.
  \<^item> Start-up brings the devices up in the state the other theorems ask for.

  \<^bold>\<open>Bounds.\<close> Loops are recursive functions with a termination proof, or functions to an option type where a
  corrupt list makes them endless; the theorems prove that they return. Only the chain of
  extended partition tables is followed with fuel, as a disk can make it endless; no theorem depends on the amount.

  \<^bold>\<open>Not modelled.\<close> The boot code (\<^verbatim>\<open>boot/\<close>) is real-mode assembly; its results, the first page directory and the
  memory map, are the initial state. \<^verbatim>\<open>print.asm\<close> writes to video memory; a call is an entry of the screen log. Of
  \<^verbatim>\<open>kernel.asm\<close> and \<^verbatim>\<open>switch.asm\<close> the effect is modelled: the dispatch of a vector, the system call entry, the exchange of
  stacks. Interrupts are taken between the steps of the step relation, and by the disk driver where it waits.
  \<^verbatim>\<open>file_create\<close> has no body.
\<close>

end
